(* ===== verification/Iocp_Prelude.thy ===== *)
theory Iocp_Prelude
  imports Main "HOL-Library.Word"
begin

text \<open>
  Shared vocabulary of the development: the machine types of the 32-bit Windows build
  (the project files of \<open>src/\<close> compile for Win32, so \<open>size_t\<close>, \<open>int\<close>, \<open>long\<close> and
  \<open>DWORD\<close> all have 32 bits), the faults a C++ statement can end in, a result type in which
  every such fault is a value, the raw memory primitives of the C library on one allocated
  block, and the generic lemmas on lists and words that the component theories rest on.
\<close>

section \<open>Machine types\<close>

type_synonym byte = "8 word"
type_synonym size_t = "32 word"
type_synonym DWORD = "32 word"
type_synonym LONG = "32 word" \<comment> \<open>read as a signed value with \<open>sint\<close>\<close>
type_synonym offset = "32 word" \<comment> \<open>a \<open>char*\<close> into a block, as its distance from the block's start\<close>

section \<open>Faults and results\<close>

text \<open>
  A statement that the C++ abstract machine does not survive ends in a fault.
  \<open>CrashAssert\<close> is the deliberate null write of \<open>CRASH_ASSERT(false)\<close>; the others are the
  access violations and the self-deadlock of a non-recursive mutex.
\<close>

datatype fault = CrashAssert | NullDeref | OutOfBounds | SelfDeadlock | BadAlloc

type_synonym 'a result = "fault + 'a"

definition bindR :: "'a result \<Rightarrow> ('a \<Rightarrow> 'b result) \<Rightarrow> 'b result" where
  "bindR m f = (case m of Inl e \<Rightarrow> Inl e | Inr x \<Rightarrow> f x)"

section \<open>Raw memory of one block\<close>

definition segment :: "nat \<Rightarrow> nat \<Rightarrow> 'a list \<Rightarrow> 'a list" where
  "segment i n bs = take n (drop i bs)"

definition overwrite :: "nat \<Rightarrow> 'a list \<Rightarrow> 'a list \<Rightarrow> 'a list" where
  "overwrite i src bs = take i bs @ src @ drop (i + length src) bs"

definition memcpy :: "nat \<Rightarrow> 'a list \<Rightarrow> 'a list \<Rightarrow> 'a list result" where
  "memcpy dst src bs =
     (if dst + length src \<le> length bs then Inr (overwrite dst src bs) else Inl OutOfBounds)"

definition memread :: "nat \<Rightarrow> nat \<Rightarrow> 'a list \<Rightarrow> 'a list result" where
  "memread src n bs = (if src + n \<le> length bs then Inr (segment src n bs) else Inl OutOfBounds)"

definition memmove :: "nat \<Rightarrow> nat \<Rightarrow> nat \<Rightarrow> 'a list \<Rightarrow> 'a list result" where
  "memmove dst src n bs = bindR (memread src n bs) (\<lambda>chunk. memcpy dst chunk bs)"

definition memset :: "'a \<Rightarrow> nat \<Rightarrow> 'a list \<Rightarrow> 'a list result" where
  "memset c n bs = memcpy 0 (replicate n c) bs"

text \<open>Array elements, read and written by a signed index; outside the array is a fault.\<close>

definition load_slot :: "int \<Rightarrow> 'a list \<Rightarrow> 'a result" where
  "load_slot i xs = (if 0 \<le> i \<and> i < int (length xs) then Inr (xs ! nat i) else Inl OutOfBounds)"

definition store_slot :: "int \<Rightarrow> 'a \<Rightarrow> 'a list \<Rightarrow> 'a list result" where
  "store_slot i v xs = (if 0 \<le> i \<and> i < int (length xs) then Inr (xs[nat i := v]) else Inl OutOfBounds)"

section \<open>Rewriting the result type\<close>

named_theorems result_simps \<open>equations that run a computation of the result type\<close>
named_theorems word_bounds \<open>unsigned readings of machine arithmetic that does not wrap\<close>
named_theorems segment_simps \<open>reading a block after writing it\<close>

lemma bindR_simps [simp, result_simps]:
  "bindR (Inl e) f = Inl e"
  "bindR (Inr x) f = f x"
  by (simp_all add: bindR_def)

lemma bindR_Inr_iff: "bindR m f = Inr y \<longleftrightarrow> (\<exists>x. m = Inr x \<and> f x = Inr y)"
  by (cases m) simp_all

lemma bindR_Inl_iff: "bindR m f = Inl e \<longleftrightarrow> m = Inl e \<or> (\<exists>x. m = Inr x \<and> f x = Inl e)"
  by (cases m) simp_all

lemma bindR_assoc: "bindR (bindR m f) g = bindR m (\<lambda>x. bindR (f x) g)"
  by (cases m) simp_all

section \<open>Blocks\<close>

lemma length_segment [simp]: "length (segment i n bs) = min n (length bs - i)"
  by (simp add: segment_def)

lemma length_segment_inside: "i + n \<le> length bs \<Longrightarrow> length (segment i n bs) = n"
  by simp

lemma segment_0 [simp]: "segment i 0 bs = []"
  by (simp add: segment_def)

lemma segment_full [simp]: "segment 0 (length bs) bs = bs"
  by (simp add: segment_def)

lemma segment_add: "segment i (n + m) bs = segment i n bs @ segment (i + n) m bs"
  by (simp only: segment_def take_add drop_drop add.commute [of i n])

lemma take_segment [segment_simps]: "take k (segment i n bs) = segment i (min k n) bs"
  by (simp add: segment_def min.commute)

lemma drop_segment [segment_simps]: "drop k (segment i n bs) = segment (i + k) (n - k) bs"
  by (simp add: segment_def drop_take add.commute)

lemma overwrite_segment_self [simp]:
  "i + n \<le> length bs \<Longrightarrow> overwrite i (segment i n bs) bs = bs"
  by (simp add: overwrite_def segment_def flip: take_add append_assoc)

lemma length_overwrite [simp]:
  "i + length src \<le> length bs \<Longrightarrow> length (overwrite i src bs) = length bs"
  by (simp add: overwrite_def)

lemma segment_overwrite_same [segment_simps]:
  "i \<le> length bs \<Longrightarrow> segment i (length src) (overwrite i src bs) = src"
  by (simp add: segment_def overwrite_def)

lemma segment_overwrite_before [segment_simps]:
  "i + n \<le> j \<Longrightarrow> j \<le> length bs \<Longrightarrow> segment i n (overwrite j src bs) = segment i n bs"
  by (simp add: segment_def overwrite_def drop_take)

lemma segment_overwrite_after [segment_simps]:
  assumes "j + length src \<le> i" and "j \<le> length bs"
  shows "segment i n (overwrite j src bs) = segment i n bs"
proof -
  have "drop i (overwrite j src bs) = drop (i - (j + length src)) (drop (j + length src) bs)"
    using assms by (simp add: overwrite_def)
  also have "\<dots> = drop i bs"
    using assms by simp
  finally show ?thesis by (simp add: segment_def)
qed

lemma memcpy_ok [result_simps]:
  "dst + length src \<le> length bs \<Longrightarrow> memcpy dst src bs = Inr (overwrite dst src bs)"
  by (simp add: memcpy_def)

lemma memread_ok [result_simps]:
  "src + n \<le> length bs \<Longrightarrow> memread src n bs = Inr (segment src n bs)"
  by (simp add: memread_def)

lemma memmove_ok [result_simps]:
  "src + n \<le> length bs \<Longrightarrow> dst + n \<le> length bs \<Longrightarrow>
     memmove dst src n bs = Inr (overwrite dst (segment src n bs) bs)"
  by (simp add: memmove_def memread_def memcpy_def)

lemma memset_all [result_simps]: "n = length bs \<Longrightarrow> memset c n bs = Inr (replicate n c)"
  by (simp add: memset_def memcpy_def overwrite_def)

section \<open>Words read as natural numbers\<close>

lemma unat_add_small [word_bounds]:
  fixes x y :: "'w::len word"
  assumes "unat x + unat y < 2 ^ LENGTH('w)"
  shows "unat (x + y) = unat x + unat y"
  using assms by (simp add: unat_word_ariths)

lemma unat_add_below:
  fixes x y c :: "'w::len word"
  assumes "unat x + unat y \<le> unat c"
  shows "unat (x + y) = unat x + unat y"
  using le_less_trans [OF assms unsigned_less] by (rule unat_add_small)

lemma unat_sub_small [word_bounds]:
  fixes x y :: "'w::len word"
  assumes "unat y \<le> unat x"
  shows "unat (x - y) = unat x - unat y"
  using assms by (simp add: unat_sub word_le_nat_alt)

lemma word_gt_0_unat: "(0 < x) \<longleftrightarrow> 0 < unat x" for x :: "'w::len word"
  by (simp add: word_less_nat_alt)

lemma unat_of_nat_small [word_bounds]:
  "n < 2 ^ LENGTH('w) \<Longrightarrow> unat (of_nat n :: 'w::len word) = n"
  by (simp add: unat_of_nat)

lemma unat32_less [simp]: "unat (x :: 32 word) < 4294967296"
  using unsigned_less [of x] by simp

lemma unat_of_nat_bounded:
  assumes "k \<le> unat (x :: 32 word)"
  shows "unat (of_nat k :: 32 word) = k"
  using le_less_trans [OF assms unat32_less] by (intro unat_of_nat_small) simp

lemma clamp_word:
  fixes x y :: "'w::len word"
  assumes "unat y \<le> unat x"
  shows "(if y < x then y else x) = y"
  using assms by (simp add: word_less_nat_alt word_unat_eq_iff)

lemma word_zero_unat: "x = 0 \<longleftrightarrow> unat x = 0" for x :: "'w::len word"
  by (simp add: unat_eq_0)

lemma sint_le_unat: "nat (sint w) \<le> unat w" for w :: "32 word"
proof -
  have "take_bit 32 (uint w) = uint w" using uint_lt2p [of w] by (simp add: take_bit_int_eq_self)
  then have "sint w = uint w - 2 ^ 32 * of_bool (bit (uint w) 31)"
    by (simp add: sint_uint signed_take_bit_eq_take_bit_minus)
  then have "sint w \<le> uint w" by simp
  then show ?thesis by (simp add: nat_le_iff)
qed

lemma of_nat_card_remove:
  assumes "finite A"
  shows "(of_nat (card (A - {a})) :: LONG) = of_nat (card A) - (if a \<in> A then 1 else 0)"
proof (cases "a \<in> A")
  case True
  then have "card A = Suc (card (A - {a}))" using assms by (metis card_Suc_Diff1)
  with True show ?thesis by simp
qed simp

lemma sint_range: "- (2 ^ 31) \<le> sint w \<and> sint w < 2 ^ 31" for w :: "32 word"
  using signed_take_bit_int_greater_eq_minus_exp [of 31 "uint w"] signed_take_bit_int_less_exp [of 31 "uint w"]
  by (simp add: sint_uint)

text \<open>The 32-bit arithmetic of \<open>InterlockedIncrement\<close> and \<open>InterlockedDecrement\<close>.\<close>

lemma sint_incr: "sint w < 2 ^ 31 - 1 \<Longrightarrow> sint (w + 1) = sint w + 1" for w :: "32 word"
  using sint_range [of w] by (simp add: sint_word_add signed_take_bit_int_eq_self)

lemma sint_decr: "- (2 ^ 31) < sint w \<Longrightarrow> sint (w - 1) = sint w - 1" for w :: "32 word"
  using sint_range [of w] by (simp add: sint_word_diff signed_take_bit_int_eq_self)

lemma sint_incr_overflow: "sint w = 2 ^ 31 - 1 \<Longrightarrow> sint (w + 1) = - (2 ^ 31)" for w :: "32 word"
  by (simp add: sint_word_add signed_take_bit_eq_take_bit_minus take_bit_eq_mod bit_iff_odd)

lemma sint_of_nat_small: "k < 2 ^ 31 \<Longrightarrow> sint (of_nat k :: 32 word) = int k"
  unfolding signed_of_nat by (subst signed_take_bit_int_eq_self) simp_all

end
