(* ===== verification/Byte_Queue.thy ===== *)
theory Byte_Queue
  imports Iocp_Prelude
begin

text \<open>
  The interface through which the session classes use a byte buffer: ask for room, fill the
  room and commit it, read the contiguous front bytes, remove bytes from the front. The laws
  are those of a FIFO queue of bytes; what a session needs of them is proved here once and
  reaches the code through the interpretation in \<open>CircularBuffer\<close>.
\<close>

locale byte_queue =
  fixes inv :: "'q \<Rightarrow> bool"
    and contents :: "'q \<Rightarrow> byte list"
    and room :: "'q \<Rightarrow> size_t \<times> 'q"
    and fill :: "byte list \<Rightarrow> 'q \<Rightarrow> 'q result"
    and commit :: "size_t \<Rightarrow> 'q \<Rightarrow> 'q"
    and contig :: "'q \<Rightarrow> size_t"
    and peek :: "size_t \<Rightarrow> 'q \<Rightarrow> byte list result"
    and remove :: "size_t \<Rightarrow> 'q \<Rightarrow> 'q result"
  assumes room_inv: "inv q \<Longrightarrow> inv (snd (room q))"
    and room_contents: "inv q \<Longrightarrow> contents (snd (room q)) = contents q"
    and append_ok: "\<lbrakk>inv q; room q = (n, q1); unat len = length data; length data \<le> unat n\<rbrakk> \<Longrightarrow>
          \<exists>q2. fill data q1 = Inr q2 \<and> inv (commit len q2) \<and>
               contents (commit len q2) = contents q @ data"
    and contig_le: "inv q \<Longrightarrow> unat (contig q) \<le> length (contents q)"
    and contig_pos: "inv q \<Longrightarrow> contents q \<noteq> [] \<Longrightarrow> contig q \<noteq> 0"
    and peek_ok: "inv q \<Longrightarrow> unat n \<le> unat (contig q) \<Longrightarrow>
          peek n q = Inr (take (unat n) (contents q))"
    and remove_ok: "inv q \<Longrightarrow>
          \<exists>q'. remove n q = Inr q' \<and> inv q' \<and> contents q' = drop (unat n) (contents q)"
begin

lemma contig_zero_iff: "inv q \<Longrightarrow> contig q = 0 \<longleftrightarrow> contents q = []"
  using contig_le [of q] contig_pos [of q] by (auto simp: unat_eq_0)

text \<open>Draining one contiguous piece: the bytes read are the front of the queue, and go.\<close>

lemma drain:
  assumes "inv q"
  obtains chunk q' where "peek (contig q) q = Inr chunk" and "remove (contig q) q = Inr q'"
    and "inv q'" and "contents q = chunk @ contents q'"
    and "length chunk = unat (contig q)"
proof -
  obtain q' where "remove (contig q) q = Inr q'" "inv q'"
    "contents q' = drop (unat (contig q)) (contents q)"
    using remove_ok [OF assms] by blast
  moreover have "peek (contig q) q = Inr (take (unat (contig q)) (contents q))"
    using peek_ok [OF assms] by simp
  ultimately show thesis
    using that [of "take (unat (contig q)) (contents q)" q'] contig_le [OF assms] by simp
qed

text \<open>Moving the contiguous front of one queue to the back of another keeps the stream.\<close>

lemma transfer:
  assumes "inv q" and "inv r" and "room r = (n, r1)" and "unat (contig q) \<le> unat n"
  obtains chunk r2 q' where "peek (contig q) q = Inr chunk"
    and "fill chunk r1 = Inr r2" and "remove (contig q) q = Inr q'"
    and "inv q'" and "inv (commit (contig q) r2)"
    and "contents (commit (contig q) r2) = contents r @ chunk"
    and "contents q = chunk @ contents q'"
proof -
  obtain chunk q' where d: "peek (contig q) q = Inr chunk" "remove (contig q) q = Inr q'" "inv q'"
    "contents q = chunk @ contents q'" "length chunk = unat (contig q)"
    using drain [OF assms(1)] by blast
  obtain r2 where "fill chunk r1 = Inr r2" "inv (commit (contig q) r2)"
    "contents (commit (contig q) r2) = contents r @ chunk"
    using append_ok [OF assms(2,3), of "contig q" chunk] d(5) assms(4) by auto
  with d show thesis using that by blast
qed

end

end
