(* ===== verification/CircularBuffer.thy ===== *)
theory CircularBuffer
  imports Byte_Queue
begin

text \<open>
  \<open>CircularBuffer.hpp\<close>: the two-region ("bip") byte buffer that both session classes use.
  A pointer into the buffer is its offset from \<open>mBuffer\<close>; \<open>nullptr\<close> of the B region pointer
  is \<open>None\<close>. Sizes and offsets are 32-bit words, so \<open>GetAFreeSpace\<close> and its kin wrap exactly
  where the C++ does. The theory proves that the buffer implements a bounded FIFO byte queue.
\<close>

section \<open>The class\<close>

record CircularBuffer =
  mBuffer :: "byte list"
  mBufferEnd :: offset
  mARegionPointer :: offset
  mARegionSize :: size_t
  mBRegionPointer :: "offset option"
  mBRegionSize :: size_t
  mCapacity :: size_t

text \<open>\<open>new char[capacity]\<close> leaves the bytes uninitialised: \<open>junk\<close> gives what they hold.\<close>

definition CircularBuffer_new :: "(nat \<Rightarrow> byte) \<Rightarrow> size_t \<Rightarrow> CircularBuffer" where
  "CircularBuffer_new junk capacity =
     \<lparr>mBuffer = map junk [0..<unat capacity], mBufferEnd = 0 + capacity,
      mARegionPointer = 0, mARegionSize = 0,
      mBRegionPointer = None, mBRegionSize = 0, mCapacity = capacity\<rparr>"

definition BufferReset :: "CircularBuffer \<Rightarrow> CircularBuffer result" where
  "BufferReset cb =
     bindR (memset 0 (unat (mCapacity cb)) (mBuffer cb)) (\<lambda>bs.
       Inr (cb\<lparr>mBRegionPointer := None, mARegionSize := 0, mBRegionSize := 0,
               mBuffer := bs, mBufferEnd := 0 + mCapacity cb, mARegionPointer := 0\<rparr>))"

definition Remove_A :: "size_t \<Rightarrow> CircularBuffer \<Rightarrow> size_t \<times> CircularBuffer" where
  "Remove_A cnt cb =
     (if mARegionSize cb > 0 then
        let aRemove = (if cnt > mARegionSize cb then mARegionSize cb else cnt) in
        (cnt - aRemove,
         cb\<lparr>mARegionSize := mARegionSize cb - aRemove,
            mARegionPointer := mARegionPointer cb + aRemove\<rparr>)
      else (cnt, cb))"

definition Remove_B :: "size_t \<Rightarrow> CircularBuffer \<Rightarrow> size_t \<times> CircularBuffer" where
  "Remove_B cnt cb =
     (if cnt > 0 \<and> mBRegionSize cb > 0 then
        let bRemove = (if cnt > mBRegionSize cb then mBRegionSize cb else cnt) in
        (cnt - bRemove,
         cb\<lparr>mBRegionSize := mBRegionSize cb - bRemove,
            mBRegionPointer := map_option (\<lambda>p. p + bRemove) (mBRegionPointer cb)\<rparr>)
      else (cnt, cb))"

definition Remove_compact :: "CircularBuffer \<Rightarrow> CircularBuffer result" where
  "Remove_compact cb =
     (if mARegionSize cb = 0 then
        if mBRegionSize cb > 0 then
          bindR (case mBRegionPointer cb of
                   None \<Rightarrow> Inl NullDeref
                 | Some p \<Rightarrow>
                     if p \<noteq> 0 then memmove 0 (unat p) (unat (mBRegionSize cb)) (mBuffer cb)
                     else Inr (mBuffer cb))
            (\<lambda>bs. Inr (cb\<lparr>mBuffer := bs, mARegionPointer := 0, mARegionSize := mBRegionSize cb,
                          mBRegionPointer := None, mBRegionSize := 0\<rparr>))
        else Inr (cb\<lparr>mBRegionPointer := None, mBRegionSize := 0,
                     mARegionPointer := 0, mARegionSize := 0\<rparr>)
      else Inr cb)"

definition Remove :: "size_t \<Rightarrow> CircularBuffer \<Rightarrow> CircularBuffer result" where
  "Remove len cb =
     (let (cnt1, cb1) = Remove_A len cb;
          (cnt2, cb2) = Remove_B cnt1 cb1
      in Remove_compact cb2)"

definition AllocateB :: "CircularBuffer \<Rightarrow> CircularBuffer" where
  "AllocateB cb = cb\<lparr>mBRegionPointer := Some 0\<rparr>"

definition GetAFreeSpace :: "CircularBuffer \<Rightarrow> size_t" where
  "GetAFreeSpace cb = mBufferEnd cb - mARegionPointer cb - mARegionSize cb"

definition GetSpaceBeforeA :: "CircularBuffer \<Rightarrow> size_t" where
  "GetSpaceBeforeA cb = mARegionPointer cb - 0"

definition GetBFreeSpace :: "CircularBuffer \<Rightarrow> size_t" where
  "GetBFreeSpace cb =
     (case mBRegionPointer cb of
        None \<Rightarrow> 0
      | Some p \<Rightarrow> mARegionPointer cb - p - mBRegionSize cb)"

definition GetFreeSpaceSize :: "CircularBuffer \<Rightarrow> size_t \<times> CircularBuffer" where
  "GetFreeSpaceSize cb =
     (if mBRegionPointer cb \<noteq> None then (GetBFreeSpace cb, cb)
      else if GetAFreeSpace cb < GetSpaceBeforeA cb then
        (let cb' = AllocateB cb in (GetBFreeSpace cb', cb'))
      else (GetAFreeSpace cb, cb))"

definition GetStoredSize :: "CircularBuffer \<Rightarrow> size_t" where
  "GetStoredSize cb = mARegionSize cb + mBRegionSize cb"

definition GetContiguiousBytes :: "CircularBuffer \<Rightarrow> size_t" where
  "GetContiguiousBytes cb = (if mARegionSize cb > 0 then mARegionSize cb else mBRegionSize cb)"

definition GetBuffer :: "CircularBuffer \<Rightarrow> offset" where
  "GetBuffer cb =
     (case mBRegionPointer cb of
        Some p \<Rightarrow> p + mBRegionSize cb
      | None \<Rightarrow> mARegionPointer cb + mARegionSize cb)"

definition Commit :: "size_t \<Rightarrow> CircularBuffer \<Rightarrow> CircularBuffer" where
  "Commit len cb =
     (if mBRegionPointer cb \<noteq> None then cb\<lparr>mBRegionSize := mBRegionSize cb + len\<rparr>
      else cb\<lparr>mARegionSize := mARegionSize cb + len\<rparr>)"

definition GetBufferStart :: "CircularBuffer \<Rightarrow> offset option" where
  "GetBufferStart cb =
     (if mARegionSize cb > 0 then Some (mARegionPointer cb) else mBRegionPointer cb)"

text \<open>
  The two memory accesses a client makes through the pointers it gets: filling the space at
  \<open>GetBuffer()\<close> (\<open>memcpy\<close> in \<open>Session::PostSend\<close>, the kernel for a posted receive) and
  reading the bytes at \<open>GetBufferStart()\<close>.
\<close>

definition buffer_fill :: "byte list \<Rightarrow> CircularBuffer \<Rightarrow> CircularBuffer result" where
  "buffer_fill data cb =
     bindR (memcpy (unat (GetBuffer cb)) data (mBuffer cb)) (\<lambda>bs. Inr (cb\<lparr>mBuffer := bs\<rparr>))"

definition buffer_peek :: "size_t \<Rightarrow> CircularBuffer \<Rightarrow> byte list result" where
  "buffer_peek n cb =
     (if n = 0 then Inr []
      else case GetBufferStart cb of
        None \<Rightarrow> Inl NullDeref
      | Some p \<Rightarrow> memread (unat p) (unat n) (mBuffer cb))"

section \<open>Specification\<close>

definition cb_inv :: "CircularBuffer \<Rightarrow> bool" where
  "cb_inv cb \<longleftrightarrow>
     length (mBuffer cb) = unat (mCapacity cb) \<and>
     mBufferEnd cb = mCapacity cb \<and>
     unat (mARegionPointer cb) + unat (mARegionSize cb) \<le> unat (mCapacity cb) \<and>
     (mARegionSize cb = 0 \<longrightarrow> mARegionPointer cb = 0 \<and> mBRegionPointer cb = None) \<and>
     (case mBRegionPointer cb of
        None \<Rightarrow> mBRegionSize cb = 0
      | Some p \<Rightarrow> p = 0 \<and> unat (mBRegionSize cb) \<le> unat (mARegionPointer cb))"

definition cb_contents :: "CircularBuffer \<Rightarrow> byte list" where
  "cb_contents cb =
     segment (unat (mARegionPointer cb)) (unat (mARegionSize cb)) (mBuffer cb) @
     (case mBRegionPointer cb of
        None \<Rightarrow> []
      | Some p \<Rightarrow> segment (unat p) (unat (mBRegionSize cb)) (mBuffer cb))"

section \<open>Unsigned readings under the invariant\<close>

lemmas cb_defs = CircularBuffer_new_def BufferReset_def AllocateB_def Commit_def
  GetStoredSize_def GetContiguiousBytes_def GetBuffer_def GetBufferStart_def

lemma cb_invD:
  assumes "cb_inv cb"
  shows "length (mBuffer cb) = unat (mCapacity cb)"
    and "mBufferEnd cb = mCapacity cb"
    and "unat (mARegionPointer cb) + unat (mARegionSize cb) \<le> unat (mCapacity cb)"
    and "mARegionSize cb = 0 \<Longrightarrow> mARegionPointer cb = 0 \<and> mBRegionPointer cb = None"
    and "mBRegionPointer cb = None \<Longrightarrow> mBRegionSize cb = 0"
    and "mBRegionPointer cb = Some p \<Longrightarrow>
           p = 0 \<and> unat (mBRegionSize cb) \<le> unat (mARegionPointer cb)"
  using assms by (simp_all add: cb_inv_def split: option.splits)

lemma unat_GetAFreeSpace:
  assumes "cb_inv cb"
  shows "unat (GetAFreeSpace cb) =
    unat (mCapacity cb) - unat (mARegionPointer cb) - unat (mARegionSize cb)"
proof -
  note inv = cb_invD [OF assms]
  have "unat (mCapacity cb - mARegionPointer cb) = unat (mCapacity cb) - unat (mARegionPointer cb)"
    using inv(3) by (simp add: unat_sub_small)
  with inv(3) show ?thesis
    by (simp add: GetAFreeSpace_def inv(2) unat_sub_small)
qed

lemma unat_GetBFreeSpace:
  assumes "cb_inv cb" and "mBRegionPointer cb = Some p"
  shows "unat (GetBFreeSpace cb) = unat (mARegionPointer cb) - unat (mBRegionSize cb)"
  using cb_invD(6) [OF assms] assms(2) by (simp add: GetBFreeSpace_def unat_sub_small)

lemma GetSpaceBeforeA_simp [simp]: "GetSpaceBeforeA cb = mARegionPointer cb"
  by (simp add: GetSpaceBeforeA_def)

text \<open>The offset at which the next byte is written, and the room behind it.\<close>

lemma unat_GetBuffer:
  assumes "cb_inv cb"
  shows "unat (GetBuffer cb) =
    (case mBRegionPointer cb of
       None \<Rightarrow> unat (mARegionPointer cb) + unat (mARegionSize cb)
     | Some _ \<Rightarrow> unat (mBRegionSize cb))"
proof (cases "mBRegionPointer cb")
  case None
  with unat_add_below [OF cb_invD(3) [OF assms]] show ?thesis
    by (simp add: GetBuffer_def)
next
  case (Some p)
  with cb_invD(6) [OF assms Some] show ?thesis
    by (simp add: GetBuffer_def)
qed

section \<open>The queue the buffer implements\<close>

lemma cb_new_inv: "cb_inv (CircularBuffer_new junk capacity)"
  by (simp add: cb_inv_def CircularBuffer_new_def)

lemma cb_new_contents: "cb_contents (CircularBuffer_new junk capacity) = []"
  by (simp add: cb_contents_def CircularBuffer_new_def)

lemma BufferReset_ok:
  assumes "cb_inv cb"
  shows "\<exists>cb'. BufferReset cb = Inr cb' \<and> cb_inv cb' \<and> cb_contents cb' = [] \<and>
    mCapacity cb' = mCapacity cb \<and> mBuffer cb' = replicate (unat (mCapacity cb)) 0"
  using cb_invD(1) [OF assms]
  by (simp add: BufferReset_def result_simps cb_inv_def cb_contents_def)

lemma GetFreeSpaceSize_frame:
  "mBuffer (snd (GetFreeSpaceSize cb)) = mBuffer cb"
  "mCapacity (snd (GetFreeSpaceSize cb)) = mCapacity cb"
  by (simp_all add: GetFreeSpaceSize_def AllocateB_def Let_def)

lemma GetFreeSpaceSize_idem: "GetFreeSpaceSize (snd (GetFreeSpaceSize cb)) = GetFreeSpaceSize cb"
  by (simp add: GetFreeSpaceSize_def AllocateB_def Let_def)

lemma GetFreeSpaceSize_inv:
  assumes "cb_inv cb"
  shows "cb_inv (snd (GetFreeSpaceSize cb))"
proof (cases "mBRegionPointer cb = None \<and> GetAFreeSpace cb < mARegionPointer cb")
  case True
  then have "mARegionPointer cb \<noteq> 0" by (auto simp: word_less_nat_alt)
  with cb_invD(4) [OF assms] have "mARegionSize cb \<noteq> 0" by auto
  with True cb_invD(1,2,3,5) [OF assms] show ?thesis
    by (simp add: GetFreeSpaceSize_def AllocateB_def cb_inv_def Let_def)
next
  case False
  with assms show ?thesis by (auto simp: GetFreeSpaceSize_def)
qed

lemma GetFreeSpaceSize_contents:
  assumes "cb_inv cb"
  shows "cb_contents (snd (GetFreeSpaceSize cb)) = cb_contents cb"
proof (cases "mBRegionPointer cb")
  case None
  with cb_invD(5) [OF assms] show ?thesis
    by (simp add: GetFreeSpaceSize_def AllocateB_def cb_contents_def Let_def)
next
  case (Some p)
  then show ?thesis by (simp add: GetFreeSpaceSize_def)
qed

text \<open>
  The returned size is the room at \<open>GetBuffer()\<close> in the returned state: it ends before the
  A region (when B is in use) or at the end of the block.
\<close>

definition cb_room :: "CircularBuffer \<Rightarrow> nat" where
  "cb_room cb =
     (case mBRegionPointer cb of
        None \<Rightarrow> unat (mCapacity cb) - unat (mARegionPointer cb) - unat (mARegionSize cb)
      | Some _ \<Rightarrow> unat (mARegionPointer cb) - unat (mBRegionSize cb))"

lemma GetFreeSpaceSize_room:
  assumes "cb_inv cb"
  shows "unat (fst (GetFreeSpaceSize cb)) = cb_room (snd (GetFreeSpaceSize cb))"
proof (cases "mBRegionPointer cb")
  case None
  show ?thesis
  proof (cases "GetAFreeSpace cb < mARegionPointer cb")
    case True
    with None have res: "GetFreeSpaceSize cb = (GetBFreeSpace (AllocateB cb), AllocateB cb)"
      by (simp add: GetFreeSpaceSize_def Let_def)
    have "cb_inv (AllocateB cb)" using GetFreeSpaceSize_inv [OF assms] by (simp add: res)
    from unat_GetBFreeSpace [OF this, of 0] show ?thesis
      by (simp add: res cb_room_def) (simp add: AllocateB_def)
  next
    case False
    with None show ?thesis
      by (simp add: GetFreeSpaceSize_def unat_GetAFreeSpace [OF assms] cb_room_def)
  qed
next
  case (Some p)
  then show ?thesis
    by (simp add: GetFreeSpaceSize_def unat_GetBFreeSpace [OF assms] cb_room_def)
qed

lemma cb_room_bound:
  assumes "cb_inv cb"
  shows "unat (GetBuffer cb) + cb_room cb \<le> length (mBuffer cb)"
  using cb_invD [OF assms]
  by (simp add: unat_GetBuffer [OF assms] cb_room_def split: option.splits)

lemma buffer_fill_ok:
  assumes "cb_inv cb" and "length data \<le> cb_room cb"
  shows "buffer_fill data cb =
    Inr (cb\<lparr>mBuffer := overwrite (unat (GetBuffer cb)) data (mBuffer cb)\<rparr>)"
proof -
  have "unat (GetBuffer cb) + length data \<le> length (mBuffer cb)"
    using cb_room_bound [OF assms(1)] assms(2) by linarith
  then show ?thesis by (simp add: buffer_fill_def memcpy_ok)
qed

text \<open>Bytes written to the room are not part of the queue until they are committed.\<close>

lemma fill_unseen:
  assumes inv: "cb_inv cb" and fits: "length data \<le> cb_room cb"
  shows "cb_inv (cb\<lparr>mBuffer := overwrite (unat (GetBuffer cb)) data (mBuffer cb)\<rparr>)"
    and "cb_contents (cb\<lparr>mBuffer := overwrite (unat (GetBuffer cb)) data (mBuffer cb)\<rparr>) = cb_contents cb"
proof -
  note inv' = cb_invD [OF inv]
  have room: "unat (GetBuffer cb) + length data \<le> length (mBuffer cb)"
    using cb_room_bound [OF inv] fits by linarith
  show "cb_inv (cb\<lparr>mBuffer := overwrite (unat (GetBuffer cb)) data (mBuffer cb)\<rparr>)"
    using inv room by (auto simp: cb_inv_def split: option.splits)
  show "cb_contents (cb\<lparr>mBuffer := overwrite (unat (GetBuffer cb)) data (mBuffer cb)\<rparr>) = cb_contents cb"
  proof (cases "mBRegionPointer cb")
    case None
    then show ?thesis using room by (simp add: cb_contents_def unat_GetBuffer [OF inv] segment_simps)
  next
    case (Some p)
    then have "p = 0" "unat (mBRegionSize cb) + length data \<le> unat (mARegionPointer cb)"
      using inv'(6) [OF Some] fits by (auto simp: cb_room_def)
    then show ?thesis using Some room by (simp add: cb_contents_def unat_GetBuffer [OF inv] segment_simps)
  qed
qed

text \<open>Filling the room and committing it appends to the queue.\<close>

lemma fill_commit_append:
  assumes inv: "cb_inv cb" and fits: "length data \<le> cb_room cb"
    and len: "unat len = length data"
    and cb': "cb' = Commit len (cb\<lparr>mBuffer := overwrite (unat (GetBuffer cb)) data (mBuffer cb)\<rparr>)"
  shows "cb_inv cb'" and "cb_contents cb' = cb_contents cb @ data"
proof -
  note inv' = cb_invD [OF inv]
  have room: "unat (GetBuffer cb) + length data \<le> length (mBuffer cb)"
    using cb_room_bound [OF inv] fits by linarith
  have both: "cb_inv cb' \<and> cb_contents cb' = cb_contents cb @ data"
  proof (cases "mBRegionPointer cb")
    case None
    have gb: "unat (GetBuffer cb) = unat (mARegionPointer cb) + unat (mARegionSize cb)"
      using None by (simp add: unat_GetBuffer [OF inv])
    have sz: "unat (mARegionSize cb + len) = unat (mARegionSize cb) + length data"
      using room gb inv'(1) unat_add_below [of "mARegionSize cb" len "mCapacity cb"]
      by (simp add: len)
    show ?thesis
      using None room gb sz inv' len
      by (auto simp: cb' Commit_def cb_inv_def cb_contents_def segment_add segment_simps
            word_zero_unat)
  next
    case (Some p)
    then have p: "p = 0" using inv'(6) by simp
    have gb: "unat (GetBuffer cb) = unat (mBRegionSize cb)"
      using Some by (simp add: unat_GetBuffer [OF inv])
    have le: "unat (mBRegionSize cb) + length data \<le> unat (mARegionPointer cb)"
      using fits inv'(6) [OF Some] Some by (auto simp: cb_room_def)
    have sz: "unat (mBRegionSize cb + len) = unat (mBRegionSize cb) + length data"
      using le unat_add_below [of "mBRegionSize cb" len "mARegionPointer cb"] by (simp add: len)
    show ?thesis
      using Some p room gb sz le inv'
      by (auto simp: cb' Commit_def cb_inv_def cb_contents_def segment_add segment_simps)
  qed
  then show "cb_inv cb'" and "cb_contents cb' = cb_contents cb @ data" by auto
qed

text \<open>
  \<open>Remove\<close> case by case: inside the A region; past A and into B, whose remaining bytes become
  the new A region at the start of the block; past everything, which resets both regions.
\<close>

lemma Remove_inside_A:
  assumes "unat len < unat (mARegionSize cb)"
  shows "Remove len cb =
    Inr (cb\<lparr>mARegionSize := mARegionSize cb - len, mARegionPointer := mARegionPointer cb + len\<rparr>)"
proof -
  have "len < mARegionSize cb" using assms by (simp add: word_less_nat_alt)
  then have "mARegionSize cb > 0" and "\<not> len > mARegionSize cb" and "mARegionSize cb - len \<noteq> 0"
    by (auto simp: word_gt_0)
  then show ?thesis
    by (simp add: Remove_def Remove_A_def Remove_B_def Remove_compact_def)
qed

text \<open>The state in which the B phase and the compaction run once A is used up.\<close>

lemma Remove_A_exhausted:
  assumes "unat (mARegionSize cb) \<le> unat len"
  shows "Remove_A len cb = (len - mARegionSize cb,
    cb\<lparr>mARegionSize := 0, mARegionPointer := mARegionPointer cb + mARegionSize cb\<rparr>)"
  using clamp_word [OF assms] by (auto simp: Remove_A_def Let_def word_gt_0)

lemma Remove_into_B:
  assumes inv: "cb_inv cb" and ge: "unat (mARegionSize cb) \<le> unat len"
    and lt: "unat len < unat (mARegionSize cb) + unat (mBRegionSize cb)"
  shows "Remove len cb =
    Inr (cb\<lparr>mBuffer := overwrite 0 (segment (unat len - unat (mARegionSize cb))
              (unat (mARegionSize cb) + unat (mBRegionSize cb) - unat len) (mBuffer cb)) (mBuffer cb),
            mARegionPointer := 0, mARegionSize := mBRegionSize cb - (len - mARegionSize cb),
            mBRegionPointer := None, mBRegionSize := 0\<rparr>)"
proof -
  note inv' = cb_invD [OF inv]
  define k where "k = len - mARegionSize cb"
  have k: "unat k = unat len - unat (mARegionSize cb)"
    using ge by (simp add: k_def unat_sub_small)
  have kB: "unat k < unat (mBRegionSize cb)" using k lt ge by linarith
  have rest: "unat (mBRegionSize cb - k) = unat (mARegionSize cb) + unat (mBRegionSize cb) - unat len"
    using k kB ge lt by (simp add: unat_sub_small)
  obtain p where p: "mBRegionPointer cb = Some p"
    using inv'(5) lt ge by (cases "mBRegionPointer cb") auto
  have B: "mBRegionPointer cb = Some 0" "unat (mBRegionSize cb) \<le> length (mBuffer cb)"
    using inv'(6) [OF p] inv'(1,3) p by auto
  have nk: "mBRegionSize cb > 0" "\<not> k > mBRegionSize cb" "mBRegionSize cb - k > 0"
    using kB rest lt by (auto simp: word_less_nat_alt)
  have move: "memmove 0 (unat k) (unat (mBRegionSize cb - k)) (mBuffer cb) =
      Inr (overwrite 0 (segment (unat k) (unat (mBRegionSize cb - k)) (mBuffer cb)) (mBuffer cb))"
    using rest k kB B(2) ge by (intro memmove_ok) linarith+
  show ?thesis
  proof (cases "k = 0")
    case True
    then show ?thesis
      using B nk rest k
      by (simp add: Remove_def Remove_A_exhausted [OF ge] Remove_B_def Remove_compact_def
          flip: k_def)
  next
    case False
    then have "k > 0" by (simp add: word_gt_0)
    with False show ?thesis
      using B nk move
      by (simp add: Remove_def Remove_A_exhausted [OF ge] Remove_B_def Remove_compact_def
          flip: k_def) (simp add: rest k)
  qed
qed

lemma Remove_everything:
  assumes ge: "unat (mARegionSize cb) + unat (mBRegionSize cb) \<le> unat len"
  shows "Remove len cb =
    Inr (cb\<lparr>mARegionPointer := 0, mARegionSize := 0, mBRegionPointer := None, mBRegionSize := 0\<rparr>)"
proof -
  define k where "k = len - mARegionSize cb"
  have A: "unat (mARegionSize cb) \<le> unat len" using ge by simp
  have k: "unat (mBRegionSize cb) \<le> unat k"
    using ge by (simp add: k_def unat_sub_small)
  then have "mBRegionSize cb > 0 \<Longrightarrow> k > 0" by (auto simp: word_less_nat_alt)
  with clamp_word [OF k] show ?thesis
    by (auto simp: Remove_def Remove_A_exhausted [OF A] Remove_B_def Remove_compact_def Let_def
        word_gt_0 simp flip: k_def)
qed

lemma length_cb_contents:
  assumes "cb_inv cb"
  shows "length (cb_contents cb) = unat (mARegionSize cb) + unat (mBRegionSize cb)"
  using cb_invD [OF assms]
  by (auto simp: cb_contents_def split: option.splits)

lemma Remove_inside_A_refines:
  assumes inv: "cb_inv cb" and inA: "unat len < unat (mARegionSize cb)"
  shows "\<exists>cb'. Remove len cb = Inr cb' \<and> cb_inv cb' \<and>
    cb_contents cb' = drop (unat len) (cb_contents cb) \<and> mCapacity cb' = mCapacity cb"
proof -
  note inv' = cb_invD [OF inv]
  have a: "unat (mARegionPointer cb + len) = unat (mARegionPointer cb) + unat len"
    using inA inv'(3) by (intro unat_add_below [of _ _ "mCapacity cb"]) linarith
  have s: "unat (mARegionSize cb - len) = unat (mARegionSize cb) - unat len"
    using inA by (simp add: unat_sub_small)
  have "cb_inv (cb\<lparr>mARegionSize := mARegionSize cb - len,
                   mARegionPointer := mARegionPointer cb + len\<rparr>)"
    using inA inv' a s by (auto simp: cb_inv_def word_zero_unat split: option.splits)
  moreover have "cb_contents (cb\<lparr>mARegionSize := mARegionSize cb - len,
                   mARegionPointer := mARegionPointer cb + len\<rparr>) = drop (unat len) (cb_contents cb)"
    using inA inv'(1,3) a s by (simp add: cb_contents_def segment_simps split: option.split)
  ultimately show ?thesis by (simp add: Remove_inside_A [OF inA])
qed

lemma Remove_into_B_refines:
  assumes inv: "cb_inv cb" and intoB: "unat (mARegionSize cb) \<le> unat len"
    "unat len < unat (mARegionSize cb) + unat (mBRegionSize cb)"
  shows "\<exists>cb'. Remove len cb = Inr cb' \<and> cb_inv cb' \<and>
    cb_contents cb' = drop (unat len) (cb_contents cb) \<and> mCapacity cb' = mCapacity cb"
proof -
  note inv' = cb_invD [OF inv]
  obtain p where p: "mBRegionPointer cb = Some p"
    using inv'(5) intoB by (cases "mBRegionPointer cb") auto
  then have p0: "p = 0" and B: "unat (mBRegionSize cb) \<le> unat (mARegionPointer cb)"
    using inv'(6) by auto
  define k where "k = unat len - unat (mARegionSize cb)"
  define m where "m = unat (mARegionSize cb) + unat (mBRegionSize cb) - unat len"
  have m: "unat (mBRegionSize cb - (len - mARegionSize cb)) = m" "k + m = unat (mBRegionSize cb)"
    "k + m \<le> length (mBuffer cb)"
    using intoB B inv'(1,3) by (auto simp: m_def k_def unat_sub_small)
  define bs where "bs = overwrite 0 (segment k m (mBuffer cb)) (mBuffer cb)"
  define cb' where "cb' = cb\<lparr>mBuffer := bs, mARegionPointer := 0,
    mARegionSize := mBRegionSize cb - (len - mARegionSize cb),
    mBRegionPointer := None, mBRegionSize := 0\<rparr>"
  have res: "Remove len cb = Inr cb'"
    by (simp add: Remove_into_B [OF inv intoB] cb'_def bs_def k_def m_def)
  have bs: "length bs = length (mBuffer cb)" "segment 0 m bs = segment k m (mBuffer cb)"
    using m(3) segment_overwrite_same [of 0 "mBuffer cb" "segment k m (mBuffer cb)"]
    by (simp_all only: bs_def length_segment_inside length_overwrite)
  have "cb_inv cb'"
    using m inv'(1,2,3) B bs(1) by (simp add: cb'_def cb_inv_def)
  moreover have "cb_contents cb' = segment k m (mBuffer cb)"
    by (simp add: cb'_def cb_contents_def m(1) bs(2))
  moreover have "drop (unat len) (cb_contents cb) = segment k m (mBuffer cb)"
    using intoB(1) inv'(1,3) m(2)
    by (simp add: cb_contents_def p p0 drop_segment flip: k_def m(2))
  ultimately show ?thesis by (simp add: res) (simp add: cb'_def)
qed

lemma Remove_refines:
  assumes inv: "cb_inv cb"
  shows "\<exists>cb'. Remove len cb = Inr cb' \<and> cb_inv cb' \<and>
    cb_contents cb' = drop (unat len) (cb_contents cb) \<and> mCapacity cb' = mCapacity cb"
proof -
  consider (inA) "unat len < unat (mARegionSize cb)"
    | (intoB) "unat (mARegionSize cb) \<le> unat len"
        "unat len < unat (mARegionSize cb) + unat (mBRegionSize cb)"
    | (all) "unat (mARegionSize cb) + unat (mBRegionSize cb) \<le> unat len"
    by linarith
  then show ?thesis
  proof cases
    case all
    then show ?thesis
      using cb_invD(1,2) [OF inv] length_cb_contents [OF inv]
      by (simp add: Remove_everything cb_inv_def cb_contents_def)
  qed (simp_all add: Remove_inside_A_refines Remove_into_B_refines inv)
qed

lemma GetContiguiousBytes_A:
  assumes "cb_inv cb"
  shows "GetContiguiousBytes cb = mARegionSize cb"
  using cb_invD(4,5) [OF assms] by (auto simp: GetContiguiousBytes_def word_gt_0)

lemma buffer_peek_ok:
  assumes inv: "cb_inv cb" and n: "unat n \<le> unat (GetContiguiousBytes cb)"
  shows "buffer_peek n cb = Inr (take (unat n) (cb_contents cb))"
proof (cases "n = 0")
  case False
  have le: "unat n \<le> unat (mARegionSize cb)"
    using n by (simp add: GetContiguiousBytes_A [OF inv])
  with False have pos: "mARegionSize cb > 0" by (auto simp: word_gt_0 unat_eq_0)
  have "unat (mARegionPointer cb) + unat n \<le> length (mBuffer cb)"
    using le cb_invD(1,3) [OF inv] by linarith
  moreover have "take (unat n) (cb_contents cb) =
      segment (unat (mARegionPointer cb)) (unat n) (mBuffer cb)"
    using le cb_invD(1,3) [OF inv] by (simp add: cb_contents_def take_segment min_absorb1 le_diff_conv2)
  ultimately show ?thesis
    using False pos by (simp add: buffer_peek_def GetBufferStart_def memread_ok)
qed (simp add: buffer_peek_def)

text \<open>The buffer provides the interface the sessions use.\<close>

interpretation cbq: byte_queue cb_inv cb_contents GetFreeSpaceSize buffer_fill Commit
  GetContiguiousBytes buffer_peek Remove
proof unfold_locales
  fix q q1 :: CircularBuffer and n len :: size_t and data :: "byte list"
  assume inv: "cb_inv q" and room: "GetFreeSpaceSize q = (n, q1)"
    and len: "unat len = length data" and fits: "length data \<le> unat n"
  have q1: "cb_inv q1" "cb_contents q1 = cb_contents q" "length data \<le> cb_room q1"
    using GetFreeSpaceSize_inv [OF inv] GetFreeSpaceSize_contents [OF inv]
      GetFreeSpaceSize_room [OF inv] fits by (simp_all add: room)
  from fill_commit_append [OF q1(1,3) len refl]
  show "\<exists>q2. buffer_fill data q1 = Inr q2 \<and> cb_inv (Commit len q2) \<and>
      cb_contents (Commit len q2) = cb_contents q @ data"
    by (simp add: buffer_fill_ok [OF q1(1,3)] q1(2))
next
  fix q assume inv: "cb_inv q"
  show "unat (GetContiguiousBytes q) \<le> length (cb_contents q)"
    by (simp add: GetContiguiousBytes_A [OF inv] length_cb_contents [OF inv])
  assume "cb_contents q \<noteq> []"
  then have "0 < unat (mARegionSize q) + unat (mBRegionSize q)"
    by (simp flip: length_cb_contents [OF inv])
  then show "GetContiguiousBytes q \<noteq> 0"
    using cb_invD(4,5) [OF inv] by (auto simp: GetContiguiousBytes_A [OF inv])
next
  fix q n assume "cb_inv q"
  then show "\<exists>q'. Remove n q = Inr q' \<and> cb_inv q' \<and> cb_contents q' = drop (unat n) (cb_contents q)"
    using Remove_refines by blast
qed (simp_all add: GetFreeSpaceSize_inv GetFreeSpaceSize_contents buffer_peek_ok)

section \<open>Runs of the buffer\<close>

text \<open>
  A client's use of the buffer as a sequence of events: \<open>Put\<close> is the send path (ask for room, copy, commit, or
  give up when the room is too small), \<open>Drain n\<close> hands out up to \<open>n\<close> bytes of the contiguous front and removes
  as many as were transferred, and \<open>Discard n\<close> removes \<open>n\<close> bytes wherever they are stored, from both regions if need
  be. A step returns the bytes accepted and the bytes handed out.
\<close>

datatype cb_event = Put "byte list" | Drain size_t | Discard size_t

definition cb_step :: "cb_event \<Rightarrow> CircularBuffer \<Rightarrow> (byte list \<times> byte list \<times> CircularBuffer) result" where
  "cb_step ev cb =
     (case ev of
        Put data \<Rightarrow>
          (let (free, cb1) = GetFreeSpaceSize cb; len = of_nat (length data) in
           if free < len then Inr ([], [], cb1)
           else bindR (buffer_fill data cb1) (\<lambda>cb2. Inr (data, [], Commit len cb2)))
      | Drain n \<Rightarrow>
          (let transferred = min n (GetContiguiousBytes cb) in
           bindR (buffer_peek transferred cb) (\<lambda>chunk.
           bindR (Remove transferred cb) (\<lambda>cb1. Inr ([], chunk, cb1))))
      | Discard n \<Rightarrow> bindR (Remove n cb) (\<lambda>cb1. Inr ([], [], cb1)))"

fun cb_run :: "cb_event list \<Rightarrow> CircularBuffer \<Rightarrow> ((byte list \<times> byte list) list \<times> CircularBuffer) result" where
  "cb_run [] cb = Inr ([], cb)"
| "cb_run (ev # evs) cb =
     bindR (cb_step ev cb) (\<lambda>(acc, del, cb1).
     bindR (cb_run evs cb1) (\<lambda>(outs, cb2). Inr ((acc, del) # outs, cb2)))"

definition sized_event :: "cb_event \<Rightarrow> bool" where
  "sized_event ev = (case ev of Put data \<Rightarrow> length data < 2 ^ 32 | Drain n \<Rightarrow> True | Discard n \<Rightarrow> True)"

text \<open>What a bounded queue of bytes may answer: all or nothing of a \<open>Put\<close> is appended, and an empty queue accepts
  whatever its capacity holds; a \<open>Drain\<close> takes bytes from the front, at least one if there is one and one
  is asked for; a \<open>Discard\<close> drops exactly what it is told to.\<close>

fun fifo_step :: "nat \<Rightarrow> cb_event \<Rightarrow> byte list \<Rightarrow> byte list \<times> byte list \<Rightarrow> byte list \<Rightarrow> bool" where
  "fifo_step cap (Put data) q (acc, del) q' \<longleftrightarrow>
     del = [] \<and> q' = q @ acc \<and> length q' \<le> cap \<and> (acc = data \<or> acc = []) \<and> (q = [] \<and> length data \<le> cap \<longrightarrow> acc = data)"
| "fifo_step cap (Drain n) q (acc, del) q' \<longleftrightarrow>
     acc = [] \<and> q = del @ q' \<and> length del \<le> unat n \<and> (del = [] \<longrightarrow> n = 0 \<or> q = [])"
| "fifo_step cap (Discard n) q (acc, del) q' \<longleftrightarrow> acc = [] \<and> del = [] \<and> q' = drop (unat n) q"

fun fifo_run :: "nat \<Rightarrow> byte list \<Rightarrow> cb_event list \<Rightarrow> (byte list \<times> byte list) list \<Rightarrow> byte list \<Rightarrow> bool" where
  "fifo_run cap q [] outs q' \<longleftrightarrow> outs = [] \<and> q' = q"
| "fifo_run cap q (ev # evs) outs q' \<longleftrightarrow>
     (case outs of [] \<Rightarrow> False | out # outs' \<Rightarrow> \<exists>q1. fifo_step cap ev q out q1 \<and> fifo_run cap q1 evs outs' q')"

text \<open>Committing bytes that are already in place.\<close>

lemma Commit_inv:
  assumes "cb_inv cb" and "unat n \<le> cb_room cb"
  shows "cb_inv (Commit n cb)"
proof -
  define data where "data = segment (unat (GetBuffer cb)) (unat n) (mBuffer cb)"
  have "unat (GetBuffer cb) + unat n \<le> length (mBuffer cb)" using cb_room_bound [OF assms(1)] assms(2) by linarith
  then have len: "length data = unat n" and same: "overwrite (unat (GetBuffer cb)) data (mBuffer cb) = mBuffer cb"
    by (simp_all add: data_def length_segment)
  show ?thesis
    by (rule fill_commit_append(1) [OF assms(1), of data n]) (use assms(2) len same in simp_all)
qed

lemma length_cb_contents_le: "cb_inv cb \<Longrightarrow> length (cb_contents cb) \<le> unat (mCapacity cb)"
  using cb_invD(3,5,6) [of cb] length_cb_contents [of cb] by (cases "mBRegionPointer cb") fastforce+

lemma cb_empty_room:
  assumes "cb_inv cb" and "cb_contents cb = []"
  shows "fst (GetFreeSpaceSize cb) = mCapacity cb"
proof -
  have "mARegionSize cb = 0" using assms length_cb_contents [OF assms(1)] by (simp add: unat_eq_0)
  with cb_invD(2,4) [OF assms(1)] show ?thesis
    by (auto simp: GetFreeSpaceSize_def GetAFreeSpace_def GetSpaceBeforeA_def)
qed

lemma capacity_frame [simp]: "mCapacity (Commit n cb) = mCapacity cb" "mCapacity (snd (GetFreeSpaceSize cb)) = mCapacity cb"
  by (simp_all add: Commit_def GetFreeSpaceSize_def AllocateB_def Let_def)

lemma Put_fifo:
  assumes inv: "cb_inv cb" and sz: "length data < 2 ^ 32"
  shows "\<exists>acc del cb'. cb_step (Put data) cb = Inr (acc, del, cb') \<and> cb_inv cb' \<and> mCapacity cb' = mCapacity cb \<and>
    fifo_step (unat (mCapacity cb)) (Put data) (cb_contents cb) (acc, del) (cb_contents cb')"
proof -
  obtain n cb1 where room: "GetFreeSpaceSize cb = (n, cb1)" by fastforce
  define len :: size_t where "len = of_nat (length data)"
  have len: "unat len = length data" using sz by (simp add: len_def unat_of_nat_small)
  have cb1: "cb_inv cb1" "cb_contents cb1 = cb_contents cb" "mCapacity cb1 = mCapacity cb"
    using cbq.room_inv [OF inv] cbq.room_contents [OF inv] capacity_frame(2) [of cb] by (simp_all add: room)
  show ?thesis
  proof (cases "n < len")
    case True
    then have "\<not> (cb_contents cb = [] \<and> length data \<le> unat (mCapacity cb))"
      using cb_empty_room [OF inv] len by (auto simp: room word_less_nat_alt)
    then show ?thesis
      using True cb1 room length_cb_contents_le [OF inv] by (auto simp: cb_step_def simp flip: len_def)
  next
    case False
    then have fits: "length data \<le> unat n" using len by (simp add: word_less_nat_alt)
    obtain cb2 where cb2: "buffer_fill data cb1 = Inr cb2" "cb_inv (Commit len cb2)"
      "cb_contents (Commit len cb2) = cb_contents cb @ data" using cbq.append_ok [OF inv room len fits] by blast
    have "length data \<le> cb_room cb1" using GetFreeSpaceSize_room [OF inv] fits by (simp add: room)
    then have cap: "mCapacity cb2 = mCapacity cb" using buffer_fill_ok [OF cb1(1)] cb2(1) cb1(3) by auto
    show ?thesis
      using False cb2 cap room length_cb_contents_le [OF cb2(2)] by (simp add: cb_step_def flip: len_def)
  qed
qed

lemma Drain_fifo:
  assumes inv: "cb_inv cb"
  shows "\<exists>acc del cb'. cb_step (Drain n) cb = Inr (acc, del, cb') \<and> cb_inv cb' \<and> mCapacity cb' = mCapacity cb \<and>
    fifo_step (unat (mCapacity cb)) (Drain n) (cb_contents cb) (acc, del) (cb_contents cb')"
proof -
  define k where "k = min n (GetContiguiousBytes cb)"
  have k: "unat k \<le> unat n" "unat k \<le> unat (GetContiguiousBytes cb)" by (simp_all add: k_def flip: word_le_nat_alt)
  obtain cb' where cb': "Remove k cb = Inr cb'" "cb_inv cb'" "mCapacity cb' = mCapacity cb"
    "cb_contents cb' = drop (unat k) (cb_contents cb)" using Remove_refines [OF inv] by blast
  have "k = 0 \<longleftrightarrow> n = 0 \<or> cb_contents cb = []"
    using cbq.contig_zero_iff [OF inv] by (auto simp: k_def min_def)
  then show ?thesis
    using cb' k cbq.peek_ok [OF inv k(2)] by (auto simp: cb_step_def unat_eq_0 simp flip: k_def)
qed

lemma cb_step_fifo:
  assumes "cb_inv cb" and "sized_event ev"
  shows "\<exists>acc del cb'. cb_step ev cb = Inr (acc, del, cb') \<and> cb_inv cb' \<and> mCapacity cb' = mCapacity cb \<and>
    fifo_step (unat (mCapacity cb)) ev (cb_contents cb) (acc, del) (cb_contents cb')"
proof (cases ev)
  case (Discard n)
  then show ?thesis using Remove_refines [OF assms(1), of n] by (auto simp: cb_step_def)
qed (use assms Put_fifo Drain_fifo in \<open>auto simp: sized_event_def simp del: fifo_step.simps\<close>)

lemma cb_run_fifo:
  "cb_inv cb \<Longrightarrow> list_all sized_event evs \<Longrightarrow> \<exists>outs cb'. cb_run evs cb = Inr (outs, cb') \<and> cb_inv cb' \<and>
    fifo_run (unat (mCapacity cb)) (cb_contents cb) evs outs (cb_contents cb')"
proof (induction evs arbitrary: cb)
  case (Cons ev evs)
  obtain acc del cb1 where s: "cb_step ev cb = Inr (acc, del, cb1)" "cb_inv cb1" "mCapacity cb1 = mCapacity cb"
    "fifo_step (unat (mCapacity cb)) ev (cb_contents cb) (acc, del) (cb_contents cb1)"
    using cb_step_fifo [OF Cons.prems(1), of ev] Cons.prems(2) by auto
  with Cons.IH [OF s(2)] Cons.prems(2) show ?case by fastforce
qed simp

text \<open>A \<open>Put\<close> only ever extends the A region, and never moves it.\<close>

lemma cb_step_Put_front:
  assumes inv: "cb_inv cb" and sz: "length data < 2 ^ 32"
    and st: "cb_step (Put data) cb = Inr (acc, del, cb')"
  shows "mARegionPointer cb' = mARegionPointer cb \<and> mARegionSize cb \<le> mARegionSize cb'"
proof -
  obtain n cb1 where room: "GetFreeSpaceSize cb = (n, cb1)" by fastforce
  define len :: size_t where "len = of_nat (length data)"
  have cb1: "cb_inv cb1" "mARegionSize cb1 = mARegionSize cb" "mARegionPointer cb1 = mARegionPointer cb"
    using GetFreeSpaceSize_inv [OF inv] room
    by (auto simp: GetFreeSpaceSize_def AllocateB_def Let_def split: if_splits)
  have len: "unat len = length data"
    using sz by (simp add: len_def unat_of_nat_small)
  show ?thesis
  proof (cases "n < len")
    case True
    then show ?thesis using st room cb1 by (simp add: cb_step_def flip: len_def)
  next
    case False
    then have fits: "length data \<le> cb_room cb1"
      using GetFreeSpaceSize_room [OF inv] len by (simp add: room word_less_nat_alt)
    have cb': "cb' = Commit len (cb1\<lparr>mBuffer := overwrite (unat (GetBuffer cb1)) data (mBuffer cb1)\<rparr>)"
      using False st room buffer_fill_ok [OF cb1(1) fits]
      by (auto simp: cb_step_def simp flip: len_def)
    have "mARegionSize cb1 \<le> mARegionSize cb1 + len" if "mBRegionPointer cb1 = None"
    proof -
      have "unat (mARegionSize cb1) + unat len \<le> unat (mCapacity cb1)"
        using fits that cb_invD(3) [OF cb1(1)] by (simp add: cb_room_def len)
      from unat_add_below [OF this] show ?thesis by (simp add: word_le_nat_alt)
    qed
    with cb1 show ?thesis by (auto simp: cb' Commit_def)
  qed
qed

lemma cb_step_Put_contents:
  assumes "cb_inv cb" and "length data < 2 ^ 32" and "cb_step (Put data) cb = Inr (acc, del, cb')"
  shows "cb_inv cb'" and "cb_contents cb' = cb_contents cb @ acc"
proof -
  have "del = []"
    using assms(3) by (auto simp: cb_step_def Let_def bindR_Inr_iff split: prod.splits if_splits)
  then show "cb_inv cb'" and "cb_contents cb' = cb_contents cb @ acc"
    using Put_fifo [OF assms(1,2)] assms(3) by auto
qed

text \<open>So a piece of the contiguous front keeps its address and its bytes.\<close>

lemma cb_step_Put_inflight:
  assumes "cb_inv cb" and "n \<noteq> 0" and "unat n \<le> unat (GetContiguiousBytes cb)"
    and "cb_step (Put data) cb = Inr (acc, del, cb')" and "length data < 2 ^ 32"
  shows "GetBufferStart cb' = GetBufferStart cb \<and> buffer_peek n cb' = buffer_peek n cb \<and>
    unat (GetContiguiousBytes cb) \<le> unat (GetContiguiousBytes cb')"
proof -
  note front = cb_step_Put_front [OF assms(1,5,4)]
  note cb' = cb_step_Put_contents [OF assms(1,5,4)]
  have "GetContiguiousBytes cb \<noteq> 0" using assms(2,3) by (auto simp: word_zero_unat)
  then have A: "mARegionSize cb > 0"
    by (simp add: GetContiguiousBytes_A [OF assms(1)] word_gt_0)
  have n: "unat (GetContiguiousBytes cb) \<le> unat (GetContiguiousBytes cb')"
    using front by (simp add: GetContiguiousBytes_A assms(1) cb'(1) word_le_nat_alt)
  have "GetBufferStart cb' = GetBufferStart cb"
    using front A by (auto simp: GetBufferStart_def)
  moreover have "buffer_peek n cb' = buffer_peek n cb"
    using cbq.contig_le [OF assms(1)] assms(3) n
    by (simp add: cbq.peek_ok [OF assms(1)] cbq.peek_ok [OF cb'(1)] cb'(2))
  ultimately show ?thesis using n by blast
qed

section \<open>Properties\<close>

text \<open>C1: From a fresh buffer of any capacity, every sequence of sends, partial drains and removals runs without a
  fault and answers as a bounded FIFO queue of bytes does, the stored bytes being the queue: sends are appended in
  full or refused, never beyond the capacity and never refused by an empty buffer that is large enough; drains hand
  out the oldest bytes; removals drop exactly the oldest bytes, also when they end inside the B region
  and the rest of it is moved to the start of the block.\<close>
theorem cb_fifo_stream:
  assumes "list_all sized_event evs"
  shows "\<exists>outs cb. cb_run evs (CircularBuffer_new junk capacity) = Inr (outs, cb) \<and> cb_inv cb \<and>
    fifo_run (unat capacity) [] evs outs (cb_contents cb)"
  using cb_run_fifo [OF cb_new_inv assms, of junk capacity] by (simp add: cb_new_contents) (simp add: CircularBuffer_new_def)

text \<open>The last removal takes a byte of the A region and one of the B region, so the last byte is moved.\<close>

lemma demo_run:
  "cb_run [Put [1, 2, 3, 4], Drain 3, Put [5, 6], Discard 2] (CircularBuffer_new (\<lambda>_. 0) 4) =
     Inr ([([1, 2, 3, 4], []), ([], [1, 2, 3]), ([5, 6], []), ([], [])],
       \<lparr>mBuffer = [6, 6, 3, 4], mBufferEnd = 4, mARegionPointer = 0, mARegionSize = 1,
         mBRegionPointer = None, mBRegionSize = 0, mCapacity = 4\<rparr>)"
  by code_simp

theorem cb_fifo_stream_witness:
  "\<exists>outs cb. cb_run [Put [1, 2, 3, 4], Drain 3, Put [5, 6], Discard 2] (CircularBuffer_new (\<lambda>_. 0) 4) = Inr (outs, cb) \<and>
     cb_contents cb = [6] \<and> fifo_run 4 [] [Put [1, 2, 3, 4], Drain 3, Put [5, 6], Discard 2] outs [6]"
proof -
  have "list_all sized_event [Put [1, 2, 3, 4], Drain 3, Put [5, 6], Discard 2]" by (simp add: sized_event_def)
  from cb_fifo_stream [OF this, of "\<lambda>_. 0" 4] show ?thesis
    by (auto simp: demo_run cb_contents_def segment_def simp del: cb_run.simps fifo_run.simps)
qed

text \<open>C16: \<open>Remove(len)\<close> on a well-formed buffer never faults, keeps it well formed, and drops
  exactly the first \<open>len\<close> stored bytes (all of them when fewer are stored), although it may move
  the B region to the start of the block.\<close>
theorem Remove_drops_front:
  assumes "cb_inv cb"
  shows "\<exists>cb'. Remove len cb = Inr cb' \<and> cb_inv cb' \<and> mCapacity cb' = mCapacity cb \<and>
    cb_contents cb' = drop (unat len) (cb_contents cb) \<and>
    unat (GetStoredSize cb') = unat (GetStoredSize cb) - unat len"
proof -
  have stored: "unat (GetStoredSize c) = length (cb_contents c)" if "cb_inv c" for c
    using cb_invD(3,5,6) [OF that] length_cb_contents [OF that]
      unat_add_below [of "mARegionSize c" "mBRegionSize c" "mCapacity c"]
    by (cases "mBRegionPointer c") (auto simp: GetStoredSize_def)
  obtain cb' where "Remove len cb = Inr cb'" "cb_inv cb'" "mCapacity cb' = mCapacity cb"
    "cb_contents cb' = drop (unat len) (cb_contents cb)"
    using Remove_refines [OF assms] by blast
  with stored assms show ?thesis by simp
qed

text \<open>A buffer with one byte in the A region and two in the B region.\<close>

definition two_regions :: CircularBuffer where
  "two_regions = \<lparr>mBuffer = [5, 6, 3, 4], mBufferEnd = 4, mARegionPointer = 3, mARegionSize = 1,
     mBRegionPointer = Some 0, mBRegionSize = 2, mCapacity = 4\<rparr>"

lemma two_regions: "cb_inv two_regions" "cb_contents two_regions = [4, 5, 6]"
  by (simp_all add: two_regions_def cb_inv_def cb_contents_def segment_def)

theorem Remove_drops_front_witness:
  "cb_inv two_regions \<and> (\<exists>cb'. Remove 2 two_regions = Inr cb' \<and> cb_inv cb' \<and> mCapacity cb' = 4 \<and>
     cb_contents cb' = [6] \<and> unat (GetStoredSize cb') = 1)"
  using Remove_drops_front [OF two_regions(1), of 2] two_regions
  by (simp add: GetStoredSize_def) (simp add: two_regions_def)

text \<open>C39: The room that \<open>GetFreeSpaceSize()\<close> reports can be used in full: copying up to that many
  bytes to \<open>GetBuffer()\<close> stays inside the block, and after \<open>Commit\<close> the buffer is well formed
  and holds the old bytes followed by the copied ones. Asking for the room itself stores
  nothing and loses nothing.\<close>

theorem reported_room_is_usable:
  assumes "cb_inv cb" and "GetFreeSpaceSize cb = (n, cb1)"
    and "unat len = length data" and "length data \<le> unat n"
  shows "cb_contents cb1 = cb_contents cb \<and>
    (\<exists>cb2. buffer_fill data cb1 = Inr cb2 \<and> cb_inv (Commit len cb2) \<and>
       cb_contents (Commit len cb2) = cb_contents cb @ data)"
  using cbq.append_ok [OF assms] cbq.room_contents [OF assms(1)] by (simp add: assms(2))

text \<open>One byte in each region: the second region grows into the two free bytes before the first.\<close>

theorem reported_room_is_usable_witness:
  "\<exists>cb1 cb2. GetFreeSpaceSize (two_regions\<lparr>mBRegionSize := 1\<rparr>) = (2, cb1) \<and> buffer_fill [8, 9] cb1 = Inr cb2 \<and>
     cb_contents (Commit 2 cb2) = [4, 5, 8, 9]"
proof -
  define cb where "cb = two_regions\<lparr>mBRegionSize := 1\<rparr>"
  have cb: "cb_inv cb" "cb_contents cb = [4, 5]" "GetFreeSpaceSize cb = (2, cb)"
    by (simp_all add: cb_def two_regions_def cb_inv_def cb_contents_def segment_def GetFreeSpaceSize_def GetBFreeSpace_def)
  from reported_room_is_usable [OF cb(1,3), of 2 "[8, 9]"] show ?thesis
    unfolding cb_def [symmetric] using cb(2,3) by auto
qed

text \<open>While a send of the contiguous front is in flight, a concurrent \<open>Put\<close> (room, copy,
  commit) leaves the address \<open>GetBufferStart()\<close> and every byte of that front untouched, so the
  kernel keeps reading the bytes it was given.\<close>

lemma put_keeps_inflight_front:
  assumes "cb_inv cb" and "GetContiguiousBytes cb \<noteq> 0"
    and "cb_step (Put data) cb = Inr (acc, del, cb')" and "length data < 2 ^ 32"
  shows "GetBufferStart cb' = GetBufferStart cb \<and>
    buffer_peek (GetContiguiousBytes cb) cb' = buffer_peek (GetContiguiousBytes cb) cb"
  using cb_step_Put_inflight [OF assms(1,2) order.refl assms(3,4)] by blast

text \<open>\<open>GetFreeSpaceSize()\<close> picks the larger gap when the B region is not in use: the reported
  room is the maximum of the space behind A and the space before A, and so at least half of all
  unused bytes; an empty buffer reports its whole capacity.\<close>

lemma free_space_is_larger_gap:
  assumes "cb_inv cb" and "mBRegionPointer cb = None"
  shows "fst (GetFreeSpaceSize cb) = max (GetAFreeSpace cb) (GetSpaceBeforeA cb) \<and>
    unat (mCapacity cb) - length (cb_contents cb) \<le> 2 * unat (fst (GetFreeSpaceSize cb)) \<and>
    (cb_contents cb = [] \<longrightarrow> fst (GetFreeSpaceSize cb) = mCapacity cb)"
proof (intro conjI impI)
  note inv = cb_invD [OF assms(1)]
  show max: "fst (GetFreeSpaceSize cb) = max (GetAFreeSpace cb) (GetSpaceBeforeA cb)"
    using assms(2) inv(5) [OF assms(2)]
    by (auto simp: GetFreeSpaceSize_def Let_def AllocateB_def GetBFreeSpace_def max_def)
  have A: "unat (GetAFreeSpace cb) = unat (mCapacity cb) - unat (mARegionPointer cb) - unat (mARegionSize cb)"
    by (rule unat_GetAFreeSpace [OF assms(1)])
  have "unat (GetAFreeSpace cb) \<le> unat (fst (GetFreeSpaceSize cb))"
    and "unat (mARegionPointer cb) \<le> unat (fst (GetFreeSpaceSize cb))"
    by (simp_all add: max flip: word_le_nat_alt)
  moreover have "length (cb_contents cb) = unat (mARegionSize cb)"
    using inv(5) [OF assms(2)] length_cb_contents [OF assms(1)] by simp
  ultimately show "unat (mCapacity cb) - length (cb_contents cb) \<le> 2 * unat (fst (GetFreeSpaceSize cb))"
    using A inv(3) by linarith
  assume "cb_contents cb = []"
  then have "mARegionSize cb = 0"
    using length_cb_contents [OF assms(1)] by (simp add: unat_eq_0)
  with inv(2,4) show "fst (GetFreeSpaceSize cb) = mCapacity cb" by (simp add: max GetAFreeSpace_def)
qed

text \<open>\<open>Commit\<close> does not check its argument: committing \<open>k > 0\<close> bytes more than the reported
  room wraps the unsigned subtraction of \<open>GetAFreeSpace\<close>, and the next \<open>GetFreeSpaceSize()\<close>
  reports \<open>2 ^ 32 - k\<close> bytes of room in a full buffer. Every client has to bound its commits.\<close>
lemma overcommit_wraps_room:
  assumes "cb_inv cb" and "mBRegionPointer cb = None" and "0 < unat k"
    and "unat k + unat (mARegionPointer cb) < 2 ^ 32"
  shows "unat (fst (GetFreeSpaceSize (Commit (GetAFreeSpace cb + k) cb))) = 2 ^ 32 - unat k"
proof -
  have A: "GetAFreeSpace (Commit (GetAFreeSpace cb + k) cb) = - k"
    using assms(2) by (simp add: Commit_def GetAFreeSpace_def algebra_simps)
  have k: "unat (- k) = 2 ^ 32 - unat k"
    using assms(3) unat_sub_if' [of 0 k] by simp
  have "\<not> - k < mARegionPointer cb"
    using assms(4) by (simp add: word_less_nat_alt k)
  with A k assms(2) show ?thesis
    by (simp add: GetFreeSpaceSize_def) (simp add: Commit_def)
qed

end
