(* ===== verification/Mutex.thy ===== *)
theory Mutex
  imports Iocp_Prelude
begin

text \<open>
  The interface of an exclusive, non-recursive lock as one undisturbed thread sees it. Entering
  is an \<open>option\<close>: \<open>None\<close> means that the call never returns. The scoped guard (enter in the
  constructor, leave in the destructor) and its nesting are studied here once.
\<close>

locale exclusive_lock =
  fixes unlocked :: "'l \<Rightarrow> bool"
    and enter :: "'l \<Rightarrow> 'l option"
    and leave :: "'l \<Rightarrow> 'l"
  assumes enter_free: "unlocked l \<Longrightarrow> \<exists>l'. enter l = Some l' \<and> \<not> unlocked l' \<and> leave l' = l"
    and enter_held: "\<not> unlocked l \<Longrightarrow> enter l = None"
begin

text \<open>A guarded block returns and leaves the lock as it found it.\<close>

lemma guarded_block:
  assumes "unlocked l"
  shows "Option.bind (enter l) (\<lambda>l1. Some (f l1, leave l1)) = Some (f (the (enter l)), l)"
  using enter_free [OF assms] by auto

text \<open>A second guard on the same lock inside a guarded block never returns.\<close>

lemma nested_guard_hangs: "Option.bind (enter l) enter = None"
proof (cases "unlocked l")
  case True
  with enter_free [OF True] show ?thesis by (auto dest: enter_held)
next
  case False
  then show ?thesis by (simp add: enter_held)
qed

lemma enter_returns_iff: "(\<exists>l'. enter l = Some l') \<longleftrightarrow> unlocked l"
  using enter_free enter_held by (metis option.distinct(1))

end

end
