(* ===== verification/FastSpinLock.thy ===== *)
theory FastSpinLock
  imports Mutex
begin

text \<open>
  \<open>FastSpinLock.hpp\<close>: the interlocked flag word shared by writers and readers. Each method is a
  thread program whose atomic steps are the reads of the volatile flag and the interlocked
  additions; \<open>lock_step\<close> interleaves any number of threads. The undisturbed execution of
  \<open>EnterWriteLock\<close> by one thread is the function the client components call.
\<close>

unbundle bit_operations_syntax

section \<open>The class\<close>

datatype LockOrder =
  LO_DONT_CARE | LO_FIRST_CLASS | LO_BUSINESS_CLASS | LO_ECONOMY_CLASS | LO_LUGGAGE_CLASS

fun LockOrder_value :: "LockOrder \<Rightarrow> nat" where
  "LockOrder_value LO_DONT_CARE = 0"
| "LockOrder_value LO_FIRST_CLASS = 1"
| "LockOrder_value LO_BUSINESS_CLASS = 2"
| "LockOrder_value LO_ECONOMY_CLASS = 3"
| "LockOrder_value LO_LUGGAGE_CLASS = 4"

instantiation LockOrder :: linorder
begin

definition less_eq_LockOrder :: "LockOrder \<Rightarrow> LockOrder \<Rightarrow> bool" where
  "less_eq_LockOrder a b \<longleftrightarrow> LockOrder_value a \<le> LockOrder_value b"

definition less_LockOrder :: "LockOrder \<Rightarrow> LockOrder \<Rightarrow> bool" where
  "less_LockOrder a b \<longleftrightarrow> LockOrder_value a < LockOrder_value b"

instance
proof
  fix a b :: LockOrder
  assume "a \<le> b" and "b \<le> a"
  then show "a = b"
    by (cases a; cases b) (simp_all add: less_eq_LockOrder_def)
qed (auto simp: less_eq_LockOrder_def less_LockOrder_def)

end

definition LF_WRITE_MASK :: LONG where "LF_WRITE_MASK = 0x7FF00000"
definition LF_WRITE_FLAG :: LONG where "LF_WRITE_FLAG = 0x00100000"
definition LF_READ_MASK :: LONG where "LF_READ_MASK = 0x000FFFFF"

record FastSpinlock =
  mLockFlag :: LONG
  mLockOrder :: LockOrder

definition FastSpinlock_new :: "LockOrder \<Rightarrow> FastSpinlock" where
  "FastSpinlock_new lockOrder = \<lparr>mLockFlag = 0, mLockOrder = lockOrder\<rparr>"

text \<open>
  \<open>EnterLock\<close> is the older exclusive entry. \<open>seen i\<close> is the value its \<open>i\<close>-th
  \<open>InterlockedExchange\<close> finds in the flag; the list records the sleeps.
\<close>

partial_function (option) EnterLock :: "(nat \<Rightarrow> LONG) \<Rightarrow> nat \<Rightarrow> nat list \<Rightarrow> nat list option" where
  "EnterLock seen nloops slept =
     (if seen nloops = 0 then EnterLock seen (Suc nloops) (slept @ [min 10 nloops])
      else EnterLock seen (Suc nloops) slept)"

definition LeaveLock :: "FastSpinlock \<Rightarrow> FastSpinlock" where
  "LeaveLock l = l\<lparr>mLockFlag := 0\<rparr>"

text \<open>
  Program points of the methods. \<open>SpinWrite\<close>: about to test the write bits;
  \<open>AddWrite\<close>: about to add the write flag; \<open>SpinRead\<close>: owner, waiting for readers;
  \<open>UndoWrite\<close>: lost the race, about to subtract; \<open>Locked\<close>: \<open>EnterWriteLock\<close> has returned.
\<close>

datatype lock_pc = Outside | SpinWrite | AddWrite | SpinRead | UndoWrite | Locked
  | RSpinWrite | RCheck

fun EnterWriteLock_step :: "lock_pc \<Rightarrow> LONG \<Rightarrow> lock_pc \<times> LONG" where
  "EnterWriteLock_step SpinWrite f =
     (if f AND LF_WRITE_MASK \<noteq> 0 then (SpinWrite, f) else (AddWrite, f))"
| "EnterWriteLock_step AddWrite f =
     (if (f + LF_WRITE_FLAG) AND LF_WRITE_MASK = LF_WRITE_FLAG
      then (SpinRead, f + LF_WRITE_FLAG) else (UndoWrite, f + LF_WRITE_FLAG))"
| "EnterWriteLock_step SpinRead f =
     (if f AND LF_READ_MASK \<noteq> 0 then (SpinRead, f) else (Locked, f))"
| "EnterWriteLock_step UndoWrite f = (SpinWrite, f + - LF_WRITE_FLAG)"
| "EnterWriteLock_step pc f = (pc, f)"

definition LeaveWriteLock :: "LONG \<Rightarrow> LONG" where
  "LeaveWriteLock f = f + - LF_WRITE_FLAG"

text \<open>Both outcomes of the test of the read bits lead back to the top of the loop.\<close>

fun EnterReadLock_step :: "lock_pc \<Rightarrow> LONG \<Rightarrow> lock_pc \<times> LONG" where
  "EnterReadLock_step RSpinWrite f =
     (if f AND LF_WRITE_MASK \<noteq> 0 then (RSpinWrite, f) else (RCheck, f))"
| "EnterReadLock_step RCheck f =
     (if f AND LF_READ_MASK \<noteq> 0 then (RSpinWrite, f) else (RSpinWrite, f))"
| "EnterReadLock_step pc f = (pc, f)"

definition LeaveReadLock :: "LONG \<Rightarrow> LONG" where
  "LeaveReadLock f = f"

text \<open>The methods run by one thread that nothing disturbs.\<close>

partial_function (option) EnterWriteLock_from :: "lock_pc \<Rightarrow> LONG \<Rightarrow> LONG option" where
  "EnterWriteLock_from pc f =
     (if pc = Locked then Some f
      else EnterWriteLock_from (fst (EnterWriteLock_step pc f)) (snd (EnterWriteLock_step pc f)))"

definition EnterWriteLock :: "LONG \<Rightarrow> LONG option" where
  "EnterWriteLock f = EnterWriteLock_from SpinWrite f"

text \<open>\<open>EnterReadLock\<close> against any environment: \<open>seen i\<close> is what its \<open>i\<close>-th read of the flag finds.\<close>

partial_function (option) EnterReadLock_from :: "(nat \<Rightarrow> LONG) \<Rightarrow> lock_pc \<Rightarrow> nat \<Rightarrow> LONG option" where
  "EnterReadLock_from seen pc i =
     (if pc = Locked then Some (seen i)
      else EnterReadLock_from seen (fst (EnterReadLock_step pc (seen i))) (Suc i))"

definition EnterReadLock :: "(nat \<Rightarrow> LONG) \<Rightarrow> LONG option" where
  "EnterReadLock seen = EnterReadLock_from seen RSpinWrite 0"

text \<open>The scoped guard: the constructor enters, the destructor leaves.\<close>

definition FastSpinlockGuard :: "bool \<Rightarrow> LONG \<Rightarrow> LONG option" where
  "FastSpinlockGuard exclusive f =
     (if exclusive then EnterWriteLock f else EnterReadLock (\<lambda>_. f))"

definition FastSpinlockGuard_end :: "bool \<Rightarrow> LONG \<Rightarrow> LONG" where
  "FastSpinlockGuard_end exclusive f = (if exclusive then LeaveWriteLock f else LeaveReadLock f)"

definition GetLockFlag :: "FastSpinlock \<Rightarrow> LONG" where
  "GetLockFlag lock = mLockFlag lock"

text \<open>\<open>ClassTypeLock<TargetClass>::LockGuard\<close> works on the static \<open>mLock\<close> of \<open>TargetClass\<close>: the lock is found
  by the class, not passed in. \<open>locks\<close> maps a class to its static lock.\<close>

definition ClassTypeLock_LockGuard :: "'c \<Rightarrow> ('c \<Rightarrow> FastSpinlock) \<Rightarrow> ('c \<Rightarrow> FastSpinlock) option" where
  "ClassTypeLock_LockGuard TargetClass locks =
     map_option (\<lambda>f. locks(TargetClass := (locks TargetClass)\<lparr>mLockFlag := f\<rparr>))
       (EnterWriteLock (mLockFlag (locks TargetClass)))"

definition ClassTypeLock_LockGuard_end :: "'c \<Rightarrow> ('c \<Rightarrow> FastSpinlock) \<Rightarrow> ('c \<Rightarrow> FastSpinlock)" where
  "ClassTypeLock_LockGuard_end TargetClass locks =
     locks(TargetClass := (locks TargetClass)\<lparr>mLockFlag := LeaveWriteLock (mLockFlag (locks TargetClass))\<rparr>)"

section \<open>Interleaved threads\<close>

record lock_sys =
  flag :: LONG
  pcs :: "nat \<Rightarrow> lock_pc"

definition lock_init :: lock_sys where
  "lock_init = \<lparr>flag = mLockFlag (FastSpinlock_new LO_DONT_CARE), pcs = \<lambda>_. Outside\<rparr>"

inductive lock_step :: "nat \<Rightarrow> lock_sys \<Rightarrow> lock_sys \<Rightarrow> bool" for N :: nat where
  call_write: "i < N \<Longrightarrow> pcs s i = Outside \<Longrightarrow>
     lock_step N s (s\<lparr>pcs := (pcs s)(i := SpinWrite)\<rparr>)"
| in_write: "i < N \<Longrightarrow> pcs s i \<in> {SpinWrite, AddWrite, SpinRead, UndoWrite} \<Longrightarrow>
     EnterWriteLock_step (pcs s i) (flag s) = (pc', f') \<Longrightarrow>
     lock_step N s (s\<lparr>flag := f', pcs := (pcs s)(i := pc')\<rparr>)"
| leave_write: "i < N \<Longrightarrow> pcs s i = Locked \<Longrightarrow>
     lock_step N s (s\<lparr>flag := LeaveWriteLock (flag s), pcs := (pcs s)(i := Outside)\<rparr>)"
| call_read: "i < N \<Longrightarrow> pcs s i = Outside \<Longrightarrow>
     lock_step N s (s\<lparr>pcs := (pcs s)(i := RSpinWrite)\<rparr>)"
| in_read: "i < N \<Longrightarrow> pcs s i \<in> {RSpinWrite, RCheck} \<Longrightarrow>
     EnterReadLock_step (pcs s i) (flag s) = (pc', f') \<Longrightarrow>
     lock_step N s (s\<lparr>flag := f', pcs := (pcs s)(i := pc')\<rparr>)"

inductive lock_reachable :: "nat \<Rightarrow> lock_sys \<Rightarrow> bool" for N :: nat where
  start: "lock_reachable N lock_init"
| step: "lock_reachable N s \<Longrightarrow> lock_step N s t \<Longrightarrow> lock_reachable N t"

definition counted :: "nat \<Rightarrow> lock_sys \<Rightarrow> nat set" where
  "counted N s = {i. i < N \<and> pcs s i \<in> {SpinRead, UndoWrite, Locked}}"

definition owners :: "nat \<Rightarrow> lock_sys \<Rightarrow> nat set" where
  "owners N s = {i. i < N \<and> pcs s i \<in> {SpinRead, Locked}}"

definition lock_inv :: "nat \<Rightarrow> lock_sys \<Rightarrow> bool" where
  "lock_inv N s \<longleftrightarrow>
     flag s = of_nat (card (counted N s)) * LF_WRITE_FLAG \<and>
     (N \<le> 2048 \<longrightarrow> card (owners N s) \<le> 1) \<and>
     (\<forall>i. N \<le> i \<longrightarrow> pcs s i = Outside)"

section \<open>The flag word\<close>

lemmas lock_masks = LF_WRITE_MASK_def LF_WRITE_FLAG_def LF_READ_MASK_def

lemma LF_as_bits:
  "LF_WRITE_FLAG = push_bit 20 1" "LF_WRITE_MASK = push_bit 20 (mask 11)" "LF_READ_MASK = mask 20"
  by (simp_all add: lock_masks mask_eq_exp_minus_1)

lemma count_as_bits: "of_nat k * LF_WRITE_FLAG = push_bit 20 (of_nat k :: LONG)"
  by (simp add: LF_as_bits push_bit_eq_mult)

text \<open>The eleven write bits hold the number of announced writers modulo 2048.\<close>

lemma write_bits_of_count:
  "of_nat k * LF_WRITE_FLAG AND LF_WRITE_MASK = of_nat (k mod 2048) * LF_WRITE_FLAG"
proof -
  have "take_bit 11 (of_nat k :: LONG) = of_nat (k mod 2048)"
    using take_bit_of_nat [of 11 k, where 'a = LONG] by (simp add: take_bit_eq_mod)
  then show ?thesis
    by (simp only: count_as_bits LF_as_bits(2) push_bit_and [symmetric] take_bit_eq_mask [symmetric])
qed

lemma read_bits_of_count: "of_nat k * LF_WRITE_FLAG AND LF_READ_MASK = 0"
  by (simp only: count_as_bits LF_as_bits(3) take_bit_eq_mask [symmetric]) (simp add: take_bit_push_bit)

lemma unat_count: "m < 2048 \<Longrightarrow> unat (of_nat m * LF_WRITE_FLAG :: LONG) = m * 1048576"
  by (simp add: LF_WRITE_FLAG_def unat_word_ariths unat_of_nat)

lemma write_bits_eq_flag:
  "of_nat k * LF_WRITE_FLAG AND LF_WRITE_MASK = LF_WRITE_FLAG \<longleftrightarrow> k mod 2048 = 1"
proof -
  have "of_nat (k mod 2048) * LF_WRITE_FLAG = LF_WRITE_FLAG \<longleftrightarrow> k mod 2048 = 1"
    using unat_count [of "k mod 2048"] unat_count [of 1]
    by (auto simp: word_unat_eq_iff)
  then show ?thesis by (simp only: write_bits_of_count)
qed

lemma write_bits_eq_0:
  "of_nat k * LF_WRITE_FLAG AND LF_WRITE_MASK = 0 \<longleftrightarrow> k mod 2048 = 0"
  using unat_count [of "k mod 2048"] by (auto simp: write_bits_of_count word_unat_eq_iff)

lemma count_plus: "of_nat k * LF_WRITE_FLAG + LF_WRITE_FLAG = (of_nat (Suc k) * LF_WRITE_FLAG :: LONG)"
  by (simp add: algebra_simps)

lemma count_minus: "0 < k \<Longrightarrow>
  of_nat k * LF_WRITE_FLAG + - LF_WRITE_FLAG = (of_nat (k - 1) * LF_WRITE_FLAG :: LONG)"
  by (cases k) (simp_all add: algebra_simps)

section \<open>The invariant of the interleaved lock\<close>

definition is_counted :: "lock_pc \<Rightarrow> bool" where
  "is_counted pc \<longleftrightarrow> pc \<in> {SpinRead, UndoWrite, Locked}"

definition is_owner :: "lock_pc \<Rightarrow> bool" where
  "is_owner pc \<longleftrightarrow> pc \<in> {SpinRead, Locked}"

lemma pc_class_simps [simp]:
  "\<not> is_counted Outside" "\<not> is_counted SpinWrite" "\<not> is_counted AddWrite"
  "is_counted SpinRead" "is_counted UndoWrite" "is_counted Locked"
  "\<not> is_counted RSpinWrite" "\<not> is_counted RCheck"
  "\<not> is_owner Outside" "\<not> is_owner SpinWrite" "\<not> is_owner AddWrite"
  "is_owner SpinRead" "\<not> is_owner UndoWrite" "is_owner Locked"
  "\<not> is_owner RSpinWrite" "\<not> is_owner RCheck"
  by (simp_all add: is_counted_def is_owner_def)

lemma counted_upd: "i < N \<Longrightarrow> counted N (s\<lparr>flag := f, pcs := (pcs s)(i := pc)\<rparr>) =
    (if is_counted pc then insert i (counted N s) else counted N s - {i})"
  by (auto simp: counted_def is_counted_def)

lemma owners_upd: "i < N \<Longrightarrow> owners N (s\<lparr>flag := f, pcs := (pcs s)(i := pc)\<rparr>) =
    (if is_owner pc then insert i (owners N s) else owners N s - {i})"
  by (auto simp: owners_def is_owner_def)

lemma counted_mem: "i < N \<Longrightarrow> i \<in> counted N s \<longleftrightarrow> is_counted (pcs s i)"
  by (simp add: counted_def is_counted_def)

lemma owners_mem: "i < N \<Longrightarrow> i \<in> owners N s \<longleftrightarrow> is_owner (pcs s i)"
  by (simp add: owners_def is_owner_def)

lemma finite_counted [simp]: "finite (counted N s)" and finite_owners [simp]: "finite (owners N s)"
  by (simp_all add: counted_def owners_def)

lemma owners_counted: "owners N s \<subseteq> counted N s"
  by (auto simp: owners_def counted_def)

lemma card_counted_le: "card (counted N s) \<le> N"
  using card_mono [of "{..<N}" "counted N s"] by (auto simp: counted_def)

text \<open>
  Every step is one thread moving from a program point to another, with the flag changed by the
  difference of their contributions; a thread becomes an owner only from an all-clear count.
\<close>

definition count_after :: "nat \<Rightarrow> lock_sys \<Rightarrow> nat \<Rightarrow> lock_pc \<Rightarrow> nat" where
  "count_after N s i pc' = card (counted N s) + (if is_counted pc' then 1 else 0)
     - (if is_counted (pcs s i) then 1 else 0)"

definition lock_move :: "nat \<Rightarrow> lock_sys \<Rightarrow> nat \<Rightarrow> lock_pc \<Rightarrow> LONG \<Rightarrow> bool" where
  "lock_move N s i pc' f' \<longleftrightarrow>
     i < N \<and> f' = of_nat (count_after N s i pc') * LF_WRITE_FLAG \<and>
     (is_owner pc' \<longrightarrow> is_owner (pcs s i) \<or>
        \<not> is_counted (pcs s i) \<and> card (counted N s) mod 2048 = 0)"

lemma card_counted_less: "i < N \<Longrightarrow> \<not> is_counted (pcs s i) \<Longrightarrow> card (counted N s) < N"
  using card_mono [of "{..<N} - {i}" "counted N s"]
  by (fastforce simp: counted_def is_counted_def card_Diff_singleton)

lemma card_counted_upd: "i < N \<Longrightarrow>
    card (counted N (s\<lparr>flag := f, pcs := (pcs s)(i := pc)\<rparr>)) = count_after N s i pc"
proof -
  assume i: "i < N"
  then have "is_counted (pcs s i) \<Longrightarrow> 0 < card (counted N s)"
    by (auto simp: card_gt_0_iff simp flip: counted_mem)
  with i show ?thesis
    by (simp add: counted_upd card_insert_if card_Diff_singleton_if counted_mem count_after_def)
qed

lemma lock_move_owners:
  assumes "lock_move N s i pc' f'" and "card (owners N s) \<le> 1" and N: "N \<le> 2048"
  shows "card (owners N (s\<lparr>flag := f', pcs := (pcs s)(i := pc')\<rparr>)) \<le> 1"
proof (cases "is_owner pc' \<and> \<not> is_owner (pcs s i)")
  case True
  with assms(1) have i: "i < N" "\<not> is_counted (pcs s i)" "card (counted N s) mod 2048 = 0"
    by (auto simp: lock_move_def)
  with card_counted_less [OF i(1,2)] N have "counted N s = {}" by simp
  then have "owners N s = {}" using owners_counted by blast
  with True i(1) show ?thesis by (simp add: owners_upd)
next
  case False
  then have "owners N (s\<lparr>flag := f', pcs := (pcs s)(i := pc')\<rparr>) \<subseteq> owners N s"
    using assms(1) by (auto simp: owners_upd owners_mem lock_move_def split: if_splits)
  with assms(2) show ?thesis using card_mono [OF finite_owners] le_trans by blast
qed

lemma lock_move_inv:
  assumes "lock_move N s i pc' f'" and "lock_inv N s"
  shows "lock_inv N (s\<lparr>flag := f', pcs := (pcs s)(i := pc')\<rparr>)"
  using assms lock_move_owners [OF assms(1)]
  by (auto simp: lock_inv_def lock_move_def card_counted_upd)

lemma lock_step_moves:
  assumes "lock_step N s t" and inv: "lock_inv N s"
  shows "\<exists>i pc' f'. t = s\<lparr>flag := f', pcs := (pcs s)(i := pc')\<rparr> \<and> lock_move N s i pc' f'"
proof -
  have flag: "flag s = of_nat (card (counted N s)) * LF_WRITE_FLAG"
    using inv by (simp add: lock_inv_def)
  have pos: "i < N \<Longrightarrow> is_counted (pcs s i) \<Longrightarrow> 0 < card (counted N s)" for i
    by (auto simp: card_gt_0_iff simp flip: counted_mem)
  have owner: "f AND LF_WRITE_MASK = LF_WRITE_FLAG \<longleftrightarrow> card (counted N s) mod 2048 = 0"
    if "f = flag s + LF_WRITE_FLAG" for f
    unfolding that flag count_plus write_bits_eq_flag by (simp add: mod_Suc)
  from assms(1) show ?thesis
  proof (cases rule: lock_step.cases)
    case (call_write i)
    then show ?thesis
      by (intro exI [of _ i] exI [of _ SpinWrite] exI [of _ "flag s"])
         (simp add: lock_move_def count_after_def flag)
  next
    case (in_write i pc' f')
    then have "lock_move N s i pc' f'"
      using owner [OF refl] pos [of i]
      by (auto simp: lock_move_def count_after_def flag algebra_simps split: if_splits)
    with in_write show ?thesis by blast
  next
    case (leave_write i)
    then show ?thesis
      using pos [of i]
      by (intro exI [of _ i] exI [of _ Outside] exI [of _ "LeaveWriteLock (flag s)"])
         (simp add: lock_move_def count_after_def flag LeaveWriteLock_def algebra_simps)
  next
    case (call_read i)
    then show ?thesis
      by (intro exI [of _ i] exI [of _ RSpinWrite] exI [of _ "flag s"])
         (simp add: lock_move_def count_after_def flag)
  next
    case (in_read i pc' f')
    then have "lock_move N s i pc' f'"
      by (auto simp: lock_move_def count_after_def flag split: if_splits)
    with in_read show ?thesis by blast
  qed
qed

lemma lock_reachable_inv: "lock_reachable N s \<Longrightarrow> lock_inv N s"
proof (induction rule: lock_reachable.induct)
  case start
  show ?case
    by (simp add: lock_inv_def lock_init_def FastSpinlock_new_def counted_def owners_def)
next
  case (step s t)
  then show ?case using lock_step_moves lock_move_inv by blast
qed

section \<open>One thread alone\<close>

definition lock_free :: "LONG \<Rightarrow> bool" where
  "lock_free f \<longleftrightarrow> f AND LF_WRITE_MASK = 0 \<and> f AND LF_READ_MASK = 0"

lemma write_flag_bits: "LF_WRITE_FLAG AND LF_WRITE_MASK = LF_WRITE_FLAG"
    "LF_WRITE_FLAG AND LF_READ_MASK = 0" "LF_WRITE_FLAG \<noteq> 0"
  by (simp_all add: lock_masks)

lemma add_write_flag:
  assumes "f AND LF_WRITE_MASK = 0"
  shows "(f + LF_WRITE_FLAG) AND LF_WRITE_MASK = LF_WRITE_FLAG"
    and "(f + LF_WRITE_FLAG) AND LF_READ_MASK = f AND LF_READ_MASK"
proof -
  have "f AND LF_WRITE_FLAG = (f AND LF_WRITE_MASK) AND LF_WRITE_FLAG"
    by (simp add: and.assoc and.commute [of LF_WRITE_MASK] write_flag_bits)
  then have plus: "f + LF_WRITE_FLAG = f OR LF_WRITE_FLAG"
    using assms by (simp add: disjunctive_add_eq_or)
  show "(f + LF_WRITE_FLAG) AND LF_WRITE_MASK = LF_WRITE_FLAG"
    and "(f + LF_WRITE_FLAG) AND LF_READ_MASK = f AND LF_READ_MASK"
    using assms by (simp_all add: plus bit.conj_disj_distrib2 write_flag_bits)
qed

text \<open>A program point that the step function maps to itself is a loop the thread never leaves.\<close>

lemma EnterWriteLock_stuck:
  assumes "EnterWriteLock_step pc f = (pc, f)" and "pc \<noteq> Locked"
  shows "EnterWriteLock_from pc f = None"
proof (rule ccontr)
  assume "EnterWriteLock_from pc f \<noteq> None"
  then obtain r where ret: "EnterWriteLock_from pc f = Some r" by blast
  have "\<not> (pc = pc \<and> f = f)"
    by (rule EnterWriteLock_from.raw_induct [where P = "\<lambda>pc' f' r. \<not> (pc' = pc \<and> f' = f)", OF _ ret])
       (use assms in \<open>fastforce split: if_splits\<close>)
  then show False by simp
qed

lemma EnterWriteLock_free:
  assumes "lock_free f"
  shows "EnterWriteLock f = Some (f + LF_WRITE_FLAG)"
proof -
  have f: "f AND LF_WRITE_MASK = 0" "f AND LF_READ_MASK = 0"
    using assms by (simp_all add: lock_free_def)
  show ?thesis
    by (simp add: EnterWriteLock_def EnterWriteLock_from.simps [of SpinWrite]
        EnterWriteLock_from.simps [of AddWrite] EnterWriteLock_from.simps [of SpinRead]
        EnterWriteLock_from.simps [of Locked] f add_write_flag [OF f(1)])
qed

lemma EnterWriteLock_held:
  assumes "\<not> lock_free f"
  shows "EnterWriteLock f = None"
proof (cases "f AND LF_WRITE_MASK = 0")
  case True
  with assms have "EnterWriteLock_step SpinRead (f + LF_WRITE_FLAG) = (SpinRead, f + LF_WRITE_FLAG)"
    by (simp add: lock_free_def add_write_flag)
  with True show ?thesis
    by (simp add: EnterWriteLock_def EnterWriteLock_from.simps [of SpinWrite]
        EnterWriteLock_from.simps [of AddWrite] add_write_flag EnterWriteLock_stuck
        del: EnterWriteLock_step.simps(3))
next
  case False
  then show ?thesis by (simp add: EnterWriteLock_def EnterWriteLock_stuck)
qed

interpretation spin: exclusive_lock lock_free EnterWriteLock LeaveWriteLock
proof unfold_locales
  fix l assume "lock_free l"
  then show "\<exists>l'. EnterWriteLock l = Some l' \<and> \<not> lock_free l' \<and> LeaveWriteLock l' = l"
    by (simp add: EnterWriteLock_free LeaveWriteLock_def)
       (simp add: lock_free_def add_write_flag write_flag_bits)
qed (rule EnterWriteLock_held)

text \<open>The lock of a class is an exclusive lock too: taking it changes no other class's lock, and a guard
  puts everything back.\<close>

interpretation class_lock: exclusive_lock "\<lambda>locks. lock_free (mLockFlag (locks c))"
  "ClassTypeLock_LockGuard c" "ClassTypeLock_LockGuard_end c" for c
proof unfold_locales
  fix locks :: "'a \<Rightarrow> FastSpinlock"
  assume "lock_free (mLockFlag (locks c))"
  from spin.enter_free [OF this] obtain f where
    f: "EnterWriteLock (mLockFlag (locks c)) = Some f" "\<not> lock_free f" "LeaveWriteLock f = mLockFlag (locks c)" by blast
  then show "\<exists>l. ClassTypeLock_LockGuard c locks = Some l \<and> \<not> lock_free (mLockFlag (l c)) \<and>
      ClassTypeLock_LockGuard_end c l = locks"
    by (auto simp: ClassTypeLock_LockGuard_def ClassTypeLock_LockGuard_end_def)
next
  fix locks :: "'a \<Rightarrow> FastSpinlock"
  assume "\<not> lock_free (mLockFlag (locks c))"
  then show "ClassTypeLock_LockGuard c locks = None"
    by (simp add: ClassTypeLock_LockGuard_def spin.enter_held)
qed

lemma EnterReadLock_never:
  "pc \<noteq> Locked \<Longrightarrow> EnterReadLock_from seen pc i = None"
proof (rule ccontr)
  assume pc: "pc \<noteq> Locked" and "EnterReadLock_from seen pc i \<noteq> None"
  then obtain r where ret: "EnterReadLock_from seen pc i = Some r" by blast
  have "\<not> pc \<noteq> Locked"
  proof (rule EnterReadLock_from.raw_induct [where P = "\<lambda>seen pc i r. \<not> pc \<noteq> Locked", OF _ ret])
    fix f seen pc i r
    assume IH: "\<And>seen pc i r. f seen pc i = Some r \<Longrightarrow> \<not> pc \<noteq> Locked"
      and eq: "(if pc = Locked then Some (seen i)
        else f seen (fst (EnterReadLock_step pc (seen i))) (Suc i)) = Some r"
    have "fst (EnterReadLock_step pc (seen i)) \<noteq> Locked" if "pc \<noteq> Locked"
      using that by (cases pc) simp_all
    with IH eq show "\<not> pc \<noteq> Locked" by (auto split: if_splits)
  qed
  with pc show False by simp
qed

section \<open>Reaching the lock\<close>

lemma lock_reachable_rtranclp:
  "(lock_step N)\<^sup>*\<^sup>* s t \<Longrightarrow> lock_reachable N s \<Longrightarrow> lock_reachable N t"
  by (induction rule: rtranclp_induct) (auto intro: lock_reachable.step)

lemma write_step:
  "i < N \<Longrightarrow> pcs s i \<in> {SpinWrite, AddWrite, SpinRead, UndoWrite} \<Longrightarrow>
   EnterWriteLock_step (pcs s i) (flag s) = (pc', f') \<Longrightarrow>
   (lock_step N)\<^sup>*\<^sup>* s (s\<lparr>flag := f', pcs := (pcs s)(i := pc')\<rparr>)"
  by (blast intro: lock_step.in_write)

text \<open>Every announced thread can step back or finish without disturbing anyone else: one that lost the race undoes its
  addition, one that won it gets through, since no reader is ever announced, and one that has the lock leaves.\<close>

lemma withdraw_one:
  assumes r: "lock_reachable N s" and i: "i \<in> counted N s"
  shows "\<exists>t pc. (lock_step N)\<^sup>*\<^sup>* s t \<and> pcs t = (pcs s)(i := pc) \<and> pc \<in> {SpinWrite, Outside}"
proof -
  have flag: "flag s = of_nat (card (counted N s)) * LF_WRITE_FLAG"
    using lock_reachable_inv [OF r] by (simp add: lock_inv_def)
  have N: "i < N" using i by (simp add: counted_def)
  have leave: "\<exists>t pc. (lock_step N)\<^sup>*\<^sup>* u t \<and> pcs t = (pcs u)(i := pc) \<and> pc \<in> {SpinWrite, Outside}" if "pcs u i = Locked" for u
    using lock_step.leave_write [OF N that]
    by (intro exI [of _ "u\<lparr>flag := LeaveWriteLock (flag u), pcs := (pcs u)(i := Outside)\<rparr>"] exI [of _ Outside]) auto
  consider "pcs s i = UndoWrite" | "pcs s i = Locked" | "pcs s i = SpinRead" using i by (auto simp: counted_def)
  then show ?thesis
  proof cases
    case 1
    then have "(lock_step N)\<^sup>*\<^sup>* s (s\<lparr>flag := flag s + - LF_WRITE_FLAG, pcs := (pcs s)(i := SpinWrite)\<rparr>)"
      using N by (intro write_step) auto
    then show ?thesis by (intro exI conjI) auto
  next
    case 3
    define u where "u = s\<lparr>flag := flag s, pcs := (pcs s)(i := Locked)\<rparr>"
    have "(lock_step N)\<^sup>*\<^sup>* s u"
      unfolding u_def using 3 N by (intro write_step) (auto simp: flag read_bits_of_count)
    moreover have "pcs u i = Locked" "(pcs u)(i := pc) = (pcs s)(i := pc)" for pc by (simp_all add: u_def)
    ultimately show ?thesis using leave [of u] by (metis rtranclp_trans)
  qed (rule leave)
qed

lemma withdraw_all:
  "lock_reachable N s \<Longrightarrow> \<exists>t. (lock_step N)\<^sup>*\<^sup>* s t \<and> counted N t = {} \<and>
    (\<forall>i. pcs t i = pcs s i \<or> pcs t i \<in> {SpinWrite, Outside})"
proof (induction "card (counted N s)" arbitrary: s)
  case 0
  then have "counted N s = {}" by simp
  then show ?case by blast
next
  case (Suc n)
  then obtain i where i: "i \<in> counted N s" by (metis card.empty ex_in_conv nat.distinct(1))
  from withdraw_one [OF Suc.prems i] obtain t pc where t: "(lock_step N)\<^sup>*\<^sup>* s t" "pcs t = (pcs s)(i := pc)"
    "pc \<in> {SpinWrite, Outside}" by blast
  have "counted N t = counted N s - {i}" using t(2,3) by (auto simp: counted_def)
  then have "n = card (counted N t)" using Suc.hyps(2) i by simp
  from Suc.hyps(1) [OF this lock_reachable_rtranclp [OF t(1) Suc.prems]] obtain u where
    u: "(lock_step N)\<^sup>*\<^sup>* t u" "counted N u = {}" "\<forall>j. pcs u j = pcs t j \<or> pcs u j \<in> {SpinWrite, Outside}" by blast
  have "pcs u j = pcs s j \<or> pcs u j \<in> {SpinWrite, Outside}" for j using u(3) t(2,3) by (metis fun_upd_apply)
  with u t(1) show ?case by (meson rtranclp_trans)
qed

lemma solo_acquire:
  assumes "flag s = 0" and "i < N" and "pcs s i = SpinWrite"
  shows "(lock_step N)\<^sup>*\<^sup>* s (s\<lparr>flag := LF_WRITE_FLAG, pcs := (pcs s)(i := Locked)\<rparr>)"
proof -
  define s1 where "s1 = s\<lparr>flag := 0, pcs := (pcs s)(i := AddWrite)\<rparr>"
  define s2 where "s2 = s1\<lparr>flag := LF_WRITE_FLAG, pcs := (pcs s1)(i := SpinRead)\<rparr>"
  have "(lock_step N)\<^sup>*\<^sup>* s s1"
    unfolding s1_def using assms by (intro write_step) auto
  also have "(lock_step N)\<^sup>*\<^sup>* s1 s2"
    unfolding s2_def using assms by (intro write_step) (auto simp: s1_def write_flag_bits)
  also have "(lock_step N)\<^sup>*\<^sup>* s2 (s2\<lparr>flag := LF_WRITE_FLAG, pcs := (pcs s2)(i := Locked)\<rparr>)"
    using assms by (intro write_step) (auto simp: s2_def write_flag_bits)
  finally show ?thesis by (simp add: s1_def s2_def)
qed

lemma free_acquire:
  assumes "flag s = 0" and "i < N" and "pcs s i \<in> {Outside, SpinWrite, AddWrite}"
  shows "\<exists>t. (lock_step N)\<^sup>*\<^sup>* s t \<and> pcs t i = Locked \<and> flag t = LF_WRITE_FLAG"
proof -
  have spin: "\<exists>t. (lock_step N)\<^sup>*\<^sup>* u t \<and> pcs t i = Locked \<and> flag t = LF_WRITE_FLAG"
    if "flag u = 0" "pcs u i = SpinWrite" for u
    using solo_acquire [OF that(1) assms(2) that(2)]
    by (intro exI [of _ "u\<lparr>flag := LF_WRITE_FLAG, pcs := (pcs u)(i := Locked)\<rparr>"]) simp
  consider "pcs s i = Outside" | "pcs s i = SpinWrite" | "pcs s i = AddWrite" using assms(3) by blast
  then show ?thesis
  proof cases
    case 1
    define u where "u = s\<lparr>pcs := (pcs s)(i := SpinWrite)\<rparr>"
    have "lock_step N s u" unfolding u_def by (rule lock_step.call_write [OF assms(2) 1])
    moreover have "flag u = 0" "pcs u i = SpinWrite" using assms(1) by (simp_all add: u_def)
    ultimately show ?thesis using spin [of u] by (meson converse_rtranclp_into_rtranclp)
  next
    case 2
    then show ?thesis using spin [of s] assms(1) by blast
  next
    case 3
    define u where "u = s\<lparr>flag := LF_WRITE_FLAG, pcs := (pcs s)(i := SpinRead)\<rparr>"
    have "(lock_step N)\<^sup>*\<^sup>* s u"
      unfolding u_def using assms 3 by (intro write_step) (auto simp: write_flag_bits)
    moreover have "(lock_step N)\<^sup>*\<^sup>* u (u\<lparr>flag := LF_WRITE_FLAG, pcs := (pcs u)(i := Locked)\<rparr>)"
      using assms(2) by (intro write_step) (auto simp: u_def write_flag_bits)
    ultimately show ?thesis
      by (intro exI [of _ "u\<lparr>flag := LF_WRITE_FLAG, pcs := (pcs u)(i := Locked)\<rparr>"]) auto
  qed
qed

text \<open>The race that needs one thread too many: everybody reads a clear flag before anybody adds.\<close>

definition race_pcs :: "nat \<Rightarrow> nat \<Rightarrow> nat \<Rightarrow> lock_pc" where
  "race_pcs k N i = (if N \<le> i then Outside else if k \<le> i then AddWrite
     else if i = 0 then SpinRead else UndoWrite)"

lemma race_gather:
  "n \<le> N \<Longrightarrow> lock_reachable N \<lparr>flag = 0, pcs = \<lambda>i. if i < n then AddWrite else Outside\<rparr>"
proof (induction n)
  case 0
  then show ?case
    using lock_reachable.start [of N] by (simp add: lock_init_def FastSpinlock_new_def)
next
  case (Suc n)
  define s where "s = \<lparr>flag = 0, pcs = \<lambda>i. if i < n then AddWrite else Outside\<rparr>"
  define s1 where "s1 = s\<lparr>pcs := (pcs s)(n := SpinWrite)\<rparr>"
  have "lock_step N s s1"
    unfolding s1_def using Suc.prems by (intro lock_step.call_write) (auto simp: s_def)
  moreover have "(lock_step N)\<^sup>*\<^sup>* s1 (s1\<lparr>flag := 0, pcs := (pcs s1)(n := AddWrite)\<rparr>)"
    using Suc.prems by (intro write_step) (auto simp: s1_def s_def)
  moreover have "s1\<lparr>flag := 0, pcs := (pcs s1)(n := AddWrite)\<rparr> =
      \<lparr>flag = 0, pcs = \<lambda>i. if i < Suc n then AddWrite else Outside\<rparr>"
    by (auto simp: s1_def s_def)
  ultimately show ?case
    using Suc lock_reachable.step lock_reachable_rtranclp unfolding s_def by (metis Suc_leD)
qed

lemma AddWrite_count:
  "EnterWriteLock_step AddWrite (of_nat k * LF_WRITE_FLAG) =
     (if Suc k mod 2048 = 1 then SpinRead else UndoWrite, of_nat (Suc k) * LF_WRITE_FLAG)"
  unfolding EnterWriteLock_step.simps count_plus write_bits_eq_flag by (rule if_distrib [symmetric])

lemma race_run:
  "k \<le> N \<Longrightarrow> k \<le> 2048 \<Longrightarrow>
   lock_reachable N \<lparr>flag = of_nat k * LF_WRITE_FLAG, pcs = race_pcs k N\<rparr>"
proof (induction k)
  case 0
  have "race_pcs 0 N = (\<lambda>i. if i < N then AddWrite else Outside)"
    by (auto simp: race_pcs_def)
  with race_gather [of N N] show ?case by simp
next
  case (Suc k)
  define s where "s = \<lparr>flag = of_nat k * LF_WRITE_FLAG, pcs = race_pcs k N\<rparr>"
  define pc where "pc = (if k = 0 then SpinRead else UndoWrite)"
  have "Suc k mod 2048 = 1 \<longleftrightarrow> k = 0" using Suc.prems(2) by (auto simp: mod_Suc)
  then have "EnterWriteLock_step (pcs s k) (flag s) = (pc, of_nat (Suc k) * LF_WRITE_FLAG)"
    using Suc.prems(1) AddWrite_count [of k] by (simp add: s_def pc_def race_pcs_def)
  then have "(lock_step N)\<^sup>*\<^sup>* s (s\<lparr>flag := of_nat (Suc k) * LF_WRITE_FLAG, pcs := (pcs s)(k := pc)\<rparr>)"
    using Suc.prems(1) by (intro write_step) (auto simp: s_def race_pcs_def)
  moreover have "(pcs s)(k := pc) = race_pcs (Suc k) N"
    using Suc.prems(1) by (auto simp: s_def pc_def race_pcs_def)
  moreover have "lock_reachable N s" using Suc by (simp add: s_def)
  ultimately have "lock_reachable N (s\<lparr>flag := of_nat (Suc k) * LF_WRITE_FLAG, pcs := race_pcs (Suc k) N\<rparr>)"
    by (metis lock_reachable_rtranclp)
  then show ?case by (simp add: s_def)
qed

text \<open>Up to 2048 threads, at most one has won the race for the write bits.\<close>

lemma one_owner:
  assumes "lock_reachable N s" and "N \<le> 2048" and "is_owner (pcs s i)" and "is_owner (pcs s j)"
  shows "i = j"
proof -
  have inv: "lock_inv N s" using assms(1) by (rule lock_reachable_inv)
  have "i < N" "j < N" using inv assms(3,4) by (auto simp: lock_inv_def not_le [symmetric])
  then have "{i, j} \<subseteq> owners N s" using assms(3,4) by (simp add: owners_mem)
  then have "card {i, j} \<le> card (owners N s)" by (intro card_mono) simp_all
  with inv assms(2) show ?thesis by (auto simp: lock_inv_def card_insert_if split: if_splits)
qed

section \<open>Properties\<close>

text \<open>C4: Mutual exclusion of \<open>EnterWriteLock\<close>/\<open>LeaveWriteLock\<close>: however up to 2048 threads
  interleave their reads and interlocked additions, two threads are never both past
  \<open>EnterWriteLock\<close>; the flag word always equals the number of announced writers times
  \<open>LF_WRITE_FLAG\<close>.\<close>
theorem write_lock_mutual_exclusion:
  assumes "lock_reachable N s" and "N \<le> 2048"
    and "pcs s i = Locked" and "pcs s j = Locked"
  shows "i = j \<and> flag s = of_nat (card (counted N s)) * LF_WRITE_FLAG"
  using one_owner [OF assms(1,2), of i j] lock_reachable_inv [OF assms(1)] assms(3,4)
  by (simp add: lock_inv_def)

theorem write_lock_mutual_exclusion_witness:
  "\<exists>s. lock_reachable 2 s \<and> (2 :: nat) \<le> 2048 \<and> pcs s 0 = Locked \<and>
     flag s = of_nat (card (counted 2 s)) * LF_WRITE_FLAG"
proof -
  define s where "s = lock_init\<lparr>pcs := (pcs lock_init)(0 := SpinWrite)\<rparr>"
  define t where "t = s\<lparr>flag := LF_WRITE_FLAG, pcs := (pcs s)(0 := Locked)\<rparr>"
  have "lock_reachable 2 s"
    unfolding s_def
    by (rule lock_reachable.step [OF lock_reachable.start])
       (rule lock_step.call_write, simp_all add: lock_init_def)
  moreover have "(lock_step 2)\<^sup>*\<^sup>* s t"
    unfolding t_def by (rule solo_acquire) (simp_all add: s_def lock_init_def FastSpinlock_new_def)
  ultimately have r: "lock_reachable 2 t" by (blast intro: lock_reachable_rtranclp)
  have l: "pcs t 0 = Locked" by (simp add: t_def)
  from write_lock_mutual_exclusion [OF r _ l l] r l show ?thesis by auto
qed

text \<open>C34: The bound on the number of threads of \<open>write_lock_mutual_exclusion\<close> is exact: with any number of threads above 2048
  there is an interleaving after which two different threads hold the write lock. 2049 additions have carried into the sign
  bit of the flag, which no mask covers, and the write bits read as one writer.\<close>
theorem write_lock_bound_is_tight:
  "\<exists>s. lock_reachable (2049 + m) s \<and> pcs s 0 = Locked \<and> pcs s 2048 = Locked \<and>
     sint (flag s) < 0 \<and> flag s AND LF_WRITE_MASK = LF_WRITE_FLAG"
proof -
  let ?N = "2049 + m" and ?f = "of_nat (Suc 2048) * LF_WRITE_FLAG :: LONG"
  define s where "s = \<lparr>flag = of_nat 2048 * LF_WRITE_FLAG, pcs = race_pcs 2048 ?N\<rparr>"
  define s1 where "s1 = s\<lparr>flag := ?f, pcs := (pcs s)(2048 := SpinRead)\<rparr>"
  define s2 where "s2 = s1\<lparr>flag := ?f, pcs := (pcs s1)(2048 := Locked)\<rparr>"
  define s3 where "s3 = s2\<lparr>flag := ?f, pcs := (pcs s2)(0 := Locked)\<rparr>"
  have r: "lock_reachable ?N s" using race_run [of 2048 ?N] by (simp add: s_def)
  have "pcs s 2048 = AddWrite" by (simp add: s_def race_pcs_def)
  then have "EnterWriteLock_step (pcs s 2048) (flag s) = (SpinRead, ?f)"
    using AddWrite_count [of 2048] by (simp add: s_def)
  then have "(lock_step ?N)\<^sup>*\<^sup>* s s1"
    unfolding s1_def by (intro write_step) (auto simp: s_def race_pcs_def)
  also have "(lock_step ?N)\<^sup>*\<^sup>* s1 s2"
    unfolding s2_def using read_bits_of_count [of "Suc 2048"] by (intro write_step) (auto simp: s1_def)
  also have "(lock_step ?N)\<^sup>*\<^sup>* s2 s3"
    unfolding s3_def using read_bits_of_count [of "Suc 2048"]
    by (intro write_step) (auto simp: s2_def s1_def s_def race_pcs_def)
  finally have "lock_reachable ?N s3" using lock_reachable_rtranclp [OF _ r] by blast
  moreover have "pcs s3 0 = Locked" "pcs s3 2048 = Locked" "flag s3 = ?f" by (simp_all add: s3_def s2_def)
  moreover have "sint ?f < 0" by (simp add: LF_WRITE_FLAG_def)
  moreover have "?f AND LF_WRITE_MASK = LF_WRITE_FLAG" by (simp add: LF_WRITE_FLAG_def LF_WRITE_MASK_def)
  ultimately show ?thesis by metis
qed

text \<open>C33: The write lock is never lost: from every reachable state the threads have a continuation after which the lock is free,
  no thread being announced and the flag being 0, and from there every thread that has not asked for the shared mode can get
  the lock, as the only one announced. (A thread that asks for the shared mode never comes back.)\<close>
theorem write_lock_stays_available:
  assumes "lock_reachable N s"
  shows "\<exists>t. (lock_step N)\<^sup>*\<^sup>* s t \<and> flag t = 0 \<and> counted N t = {} \<and>
    (\<forall>i. i < N \<and> pcs s i \<notin> {RSpinWrite, RCheck} \<longrightarrow>
       (\<exists>u. (lock_step N)\<^sup>*\<^sup>* t u \<and> pcs u i = Locked \<and> flag u = LF_WRITE_FLAG))"
proof -
  obtain t where t: "(lock_step N)\<^sup>*\<^sup>* s t" "counted N t = {}" "\<forall>i. pcs t i = pcs s i \<or> pcs t i \<in> {SpinWrite, Outside}"
    using withdraw_all [OF assms] by blast
  have flag: "flag t = 0"
    using lock_reachable_inv [OF lock_reachable_rtranclp [OF t(1) assms]] t(2) by (simp add: lock_inv_def)
  have "\<exists>u. (lock_step N)\<^sup>*\<^sup>* t u \<and> pcs u i = Locked \<and> flag u = LF_WRITE_FLAG"
    if "i < N" "pcs s i \<notin> {RSpinWrite, RCheck}" for i
  proof -
    have "pcs t i \<notin> {SpinRead, UndoWrite, Locked}" using t(2) that(1) by (auto simp: counted_def)
    moreover have "pcs t i \<notin> {RSpinWrite, RCheck}" using spec [OF t(3), of i] that(2) by auto
    ultimately have "pcs t i \<in> {Outside, SpinWrite, AddWrite}" by (cases "pcs t i") simp_all
    from free_acquire [OF flag that(1) this] show ?thesis .
  qed
  with t(1,2) flag show ?thesis by blast
qed

text \<open>Thread 0 has the lock and thread 1 is waiting for it.\<close>

theorem write_lock_stays_available_witness:
  "\<exists>s u. lock_reachable 3 s \<and> pcs s 0 = Locked \<and> (lock_step 3)\<^sup>*\<^sup>* s u \<and> pcs u 1 = Locked \<and> flag u = LF_WRITE_FLAG"
proof -
  define s where "s = lock_init\<lparr>pcs := (pcs lock_init)(0 := SpinWrite)\<rparr>"
  define s1 where "s1 = s\<lparr>flag := LF_WRITE_FLAG, pcs := (pcs s)(0 := Locked)\<rparr>"
  define s2 where "s2 = s1\<lparr>pcs := (pcs s1)(1 := SpinWrite)\<rparr>"
  have "lock_reachable 3 s"
    unfolding s_def
    by (rule lock_reachable.step [OF lock_reachable.start])
       (rule lock_step.call_write, simp_all add: lock_init_def)
  moreover have "(lock_step 3)\<^sup>*\<^sup>* s s1"
    unfolding s1_def by (rule solo_acquire) (simp_all add: s_def lock_init_def FastSpinlock_new_def)
  moreover have "lock_step 3 s1 s2"
    unfolding s2_def by (rule lock_step.call_write) (simp_all add: s1_def s_def lock_init_def)
  ultimately have r: "lock_reachable 3 s2" using lock_reachable.step lock_reachable_rtranclp by blast
  have p: "pcs s2 0 = Locked" "pcs s2 1 = SpinWrite" by (simp_all add: s2_def s1_def)
  have "\<exists>u. (lock_step 3)\<^sup>*\<^sup>* s2 u \<and> pcs u 1 = Locked \<and> flag u = LF_WRITE_FLAG"
  proof -
    obtain t where t: "(lock_step 3)\<^sup>*\<^sup>* s2 t" "\<forall>i. i < 3 \<and> pcs s2 i \<notin> {RSpinWrite, RCheck} \<longrightarrow>
       (\<exists>u. (lock_step 3)\<^sup>*\<^sup>* t u \<and> pcs u i = Locked \<and> flag u = LF_WRITE_FLAG)"
      using write_lock_stays_available [OF r] by blast
    have "\<exists>u. (lock_step 3)\<^sup>*\<^sup>* t u \<and> pcs u 1 = Locked \<and> flag u = LF_WRITE_FLAG"
      using spec [OF t(2), of 1] p(2) by simp
    with t(1) show ?thesis by (meson rtranclp_trans)
  qed
  with r p(1) show ?thesis by blast
qed

text \<open>For a thread that nothing disturbs, \<open>EnterWriteLock\<close> returns exactly when no writer and
  no reader is announced; a write guard then leaves the flag as it found it when it is
  destroyed, and a second guard on the same lock inside the first one never returns (the lock
  is not recursive).\<close>

lemma write_guard_round_trip:
  "((\<exists>f'. FastSpinlockGuard True f = Some f') \<longleftrightarrow> f AND (LF_WRITE_MASK OR LF_READ_MASK) = 0) \<and>
   (f AND (LF_WRITE_MASK OR LF_READ_MASK) = 0 \<longrightarrow>
      map_option (FastSpinlockGuard_end True) (FastSpinlockGuard True f) = Some f) \<and>
   Option.bind (FastSpinlockGuard True f) (FastSpinlockGuard True) = None"
proof -
  have free: "f AND (LF_WRITE_MASK OR LF_READ_MASK) = 0 \<longleftrightarrow> lock_free f"
    by (simp add: lock_free_def bit.conj_disj_distrib or_eq_0_iff)
  have enter: "FastSpinlockGuard True = EnterWriteLock"
    by (simp add: FastSpinlockGuard_def fun_eq_iff)
  have leave: "FastSpinlockGuard_end True = LeaveWriteLock"
    by (simp add: FastSpinlockGuard_end_def fun_eq_iff)
  have "lock_free f \<Longrightarrow> map_option LeaveWriteLock (EnterWriteLock f) = Some f"
    using spin.enter_free [of f] by auto
  with spin.enter_returns_iff [of f] spin.nested_guard_hangs [of f] show ?thesis
    unfolding free enter leave by blast
qed

text \<open>\<open>EnterReadLock\<close> never returns, whatever values its reads of the flag find: the test of
  the read bits has no \<open>return\<close> in either branch, so a read guard hangs its thread.\<close>

lemma EnterReadLock_never_returns:
  "EnterReadLock seen = None \<and> FastSpinlockGuard False f = None"
  by (simp add: EnterReadLock_def FastSpinlockGuard_def EnterReadLock_never)

text \<open>\<open>EnterLock\<close> never returns: its loop has no exit, it sleeps after a successful exchange
  and retries, whatever the exchanges find.\<close>
lemma EnterLock_never_returns: "EnterLock seen nloops slept = None"
proof (rule ccontr)
  assume "EnterLock seen nloops slept \<noteq> None"
  then obtain r where ret: "EnterLock seen nloops slept = Some r" by blast
  show False
    by (rule EnterLock.raw_induct [where P = "\<lambda>seen nloops slept r. False", OF _ ret])
       (auto split: if_splits)
qed

end
