(* ===== verification/Exception.thy ===== *)
theory Exception
  imports Iocp_Prelude
begin

text \<open>
  \<open>Exception.hpp\<close>: the assertion that crashes the process and the unhandled-exception filter that
  writes a minidump. The Win32 calls of the filter are its observable trace; the debugger state
  and the handle \<open>CreateFileA\<close> returns are arguments.
\<close>

definition CRASH_ASSERT :: "bool \<Rightarrow> unit result" where
  "CRASH_ASSERT isOk = (if isOk then Inr () else Inl CrashAssert)"

datatype filter_answer = EXCEPTION_CONTINUE_SEARCH | EXCEPTION_EXECUTE_HANDLER

datatype filter_call = CreateFileA | MiniDumpWriteDump DWORD bool | CloseDump DWORD | LogCreateFailed

definition INVALID_HANDLE_VALUE :: DWORD where "INVALID_HANDLE_VALUE = - 1"

definition ExceptionFilter :: "bool \<Rightarrow> DWORD \<Rightarrow> bool \<Rightarrow> filter_answer \<times> filter_call list" where
  "ExceptionFilter debugger hFile has_info =
     (if debugger then (EXCEPTION_CONTINUE_SEARCH, [])
      else if hFile \<noteq> 0 \<and> hFile \<noteq> INVALID_HANDLE_VALUE then
        (EXCEPTION_EXECUTE_HANDLER, [CreateFileA, MiniDumpWriteDump hFile has_info, CloseDump hFile])
      else (EXCEPTION_EXECUTE_HANDLER, [CreateFileA, LogCreateFailed]))"

lemma CRASH_ASSERT_simps [simp, result_simps]:
  "CRASH_ASSERT True = Inr ()" "CRASH_ASSERT False = Inl CrashAssert"
  by (simp_all add: CRASH_ASSERT_def)

lemma CRASH_ASSERT_Inr [simp]: "CRASH_ASSERT b = Inr u \<longleftrightarrow> b"
  by (cases b) simp_all

lemma bind_CRASH_ASSERT_Inr: "bindR (CRASH_ASSERT b) f = Inr y \<longleftrightarrow> b \<and> f () = Inr y"
  by (cases b) simp_all

end
