(* ===== verification/LockOrderChecker.thy ===== *)
theory LockOrderChecker
  imports FastSpinLock Exception
begin

text \<open>
  \<open>LockOrderChecker.hpp\<close>: the per-thread stack of held locks. A \<open>FastSpinlock*\<close> is an address;
  the slots of the fixed array hold \<open>None\<close> for \<open>nullptr\<close>. \<open>CRASH_ASSERT\<close> is the fault
  \<open>CrashAssert\<close> (\<open>Exception.hpp\<close>).
\<close>

section \<open>The class\<close>

definition MAX_LOCK_DEPTH :: int where "MAX_LOCK_DEPTH = 32"

record LockOrderChecker =
  mWorkerThreadId :: int
  mStackTopPos :: int
  mLockStack :: "nat option list"

definition LockOrderChecker_new :: "int \<Rightarrow> LockOrderChecker" where
  "LockOrderChecker_new tid =
     \<lparr>mWorkerThreadId = tid, mStackTopPos = 0, mLockStack = replicate (nat MAX_LOCK_DEPTH) None\<rparr>"

text \<open>The body of \<open>if (mStackTopPos > 0)\<close> is commented out in the source.\<close>

definition LockOrderChecker_Push :: "nat \<Rightarrow> LockOrderChecker \<Rightarrow> LockOrderChecker result" where
  "LockOrderChecker_Push lock c =
     bindR (CRASH_ASSERT (mStackTopPos c < MAX_LOCK_DEPTH)) (\<lambda>_.
     bindR (store_slot (mStackTopPos c) (Some lock) (mLockStack c)) (\<lambda>st.
     Inr (c\<lparr>mLockStack := st, mStackTopPos := mStackTopPos c + 1\<rparr>)))"

definition LockOrderChecker_Pop :: "nat \<Rightarrow> LockOrderChecker \<Rightarrow> LockOrderChecker result" where
  "LockOrderChecker_Pop lock c =
     bindR (CRASH_ASSERT (mStackTopPos c > 0)) (\<lambda>_.
     bindR (store_slot (mStackTopPos c - 1) None (mLockStack c)) (\<lambda>st.
     Inr (c\<lparr>mLockStack := st, mStackTopPos := mStackTopPos c - 1\<rparr>)))"

section \<open>Specification\<close>

text \<open>The locks held, oldest first, and the shape of the array around them.\<close>

definition held_locks :: "LockOrderChecker \<Rightarrow> nat list" where
  "held_locks c = map the (take (nat (mStackTopPos c)) (mLockStack c))"

definition checker_inv :: "LockOrderChecker \<Rightarrow> bool" where
  "checker_inv c \<longleftrightarrow>
     0 \<le> mStackTopPos c \<and> mStackTopPos c \<le> MAX_LOCK_DEPTH \<and>
     length (mLockStack c) = nat MAX_LOCK_DEPTH \<and>
     mLockStack c = map Some (held_locks c) @ replicate (nat (MAX_LOCK_DEPTH - mStackTopPos c)) None"

lemma length_held_locks: "checker_inv c \<Longrightarrow> length (held_locks c) = nat (mStackTopPos c)"
  by (auto simp: checker_inv_def held_locks_def nat_le_iff nat_mono)

text \<open>A state of the array is determined by the list of held locks.\<close>

definition checker_of :: "int \<Rightarrow> nat list \<Rightarrow> LockOrderChecker" where
  "checker_of tid ls = \<lparr>mWorkerThreadId = tid, mStackTopPos = int (length ls),
     mLockStack = map Some ls @ replicate (nat MAX_LOCK_DEPTH - length ls) None\<rparr>"

lemma checker_inv_of:
  assumes "checker_inv c"
  shows "c = checker_of (mWorkerThreadId c) (held_locks c) \<and> length (held_locks c) \<le> nat MAX_LOCK_DEPTH"
proof -
  note len = length_held_locks [OF assms]
  have inv: "0 \<le> mStackTopPos c" "mStackTopPos c \<le> MAX_LOCK_DEPTH"
    "mLockStack c = map Some (held_locks c) @ replicate (nat (MAX_LOCK_DEPTH - mStackTopPos c)) None"
    using assms unfolding checker_inv_def by blast+
  have "mLockStack c = map Some (held_locks c) @ replicate (nat MAX_LOCK_DEPTH - length (held_locks c)) None"
    using inv(1,2) by (subst inv(3)) (simp add: len nat_diff_distrib)
  moreover have "mStackTopPos c = int (length (held_locks c))" using inv(1) by (simp add: len)
  ultimately show ?thesis
    using inv(2) by (auto simp: checker_of_def intro: LockOrderChecker.equality)
qed

lemma checker_of_inv:
  assumes "length ls \<le> nat MAX_LOCK_DEPTH"
  shows "checker_inv (checker_of tid ls)" and "held_locks (checker_of tid ls) = ls"
  using assms by (simp_all add: checker_inv_def checker_of_def held_locks_def MAX_LOCK_DEPTH_def
      nat_diff_distrib)

lemma LockOrderChecker_Push_of:
  assumes "length ls < nat MAX_LOCK_DEPTH"
  shows "LockOrderChecker_Push l (checker_of tid ls) = Inr (checker_of tid (ls @ [l]))"
proof -
  have "replicate (32 - length ls) (None :: nat option) = None # replicate (31 - length ls) None"
    using assms by (simp add: MAX_LOCK_DEPTH_def Suc_diff_le flip: replicate_Suc)
  then show ?thesis
    using assms
    by (simp add: LockOrderChecker_Push_def checker_of_def store_slot_def MAX_LOCK_DEPTH_def
        CRASH_ASSERT_def list_update_append)
qed

lemma LockOrderChecker_Pop_of:
  assumes "length ls < nat MAX_LOCK_DEPTH"
  shows "LockOrderChecker_Pop l (checker_of tid (ls @ [l'])) = Inr (checker_of tid ls)"
proof -
  have "replicate (32 - length ls) (None :: nat option) = None # replicate (31 - length ls) None"
    using assms by (simp add: MAX_LOCK_DEPTH_def Suc_diff_le flip: replicate_Suc)
  then show ?thesis
    using assms
    by (simp add: LockOrderChecker_Pop_def checker_of_def store_slot_def MAX_LOCK_DEPTH_def
        CRASH_ASSERT_def list_update_append)
qed

section \<open>Properties\<close>

text \<open>C32: The checker is a bounded stack of 32 locks: on a well-formed checker, \<open>Push\<close> appends the
  lock, or crashes when 32 locks are held (never writing outside the array), and \<open>Pop\<close> removes
  the last pushed lock, or crashes on an empty stack. \<open>Pop\<close> ignores its argument: any lock
  pops the top.\<close>
theorem checker_is_bounded_stack:
  assumes "checker_inv c"
  shows "(case LockOrderChecker_Push l c of
            Inl e \<Rightarrow> e = CrashAssert \<and> length (held_locks c) = 32
          | Inr c' \<Rightarrow> checker_inv c' \<and> held_locks c' = held_locks c @ [l]) \<and>
         (case LockOrderChecker_Pop l c of
            Inl e \<Rightarrow> e = CrashAssert \<and> held_locks c = []
          | Inr c' \<Rightarrow> checker_inv c' \<and> held_locks c \<noteq> [] \<and> held_locks c' = butlast (held_locks c))"
proof (rule conjI)
  obtain tid ls where c: "c = checker_of tid ls" and len: "length ls \<le> nat MAX_LOCK_DEPTH"
    using checker_inv_of [OF assms] by blast
  have held: "held_locks c = ls" using checker_of_inv [OF len] c by simp
  show "case LockOrderChecker_Push l c of
      Inl e \<Rightarrow> e = CrashAssert \<and> length (held_locks c) = 32
    | Inr c' \<Rightarrow> checker_inv c' \<and> held_locks c' = held_locks c @ [l]"
  proof (cases "length ls = 32")
    case True
    then have "LockOrderChecker_Push l c = Inl CrashAssert"
      by (simp add: c LockOrderChecker_Push_def checker_of_def MAX_LOCK_DEPTH_def)
    with True held show ?thesis by simp
  next
    case False
    with len have "length ls < nat MAX_LOCK_DEPTH" by (simp add: MAX_LOCK_DEPTH_def)
    with checker_of_inv [of "ls @ [l]"] held show ?thesis
      by (simp add: c LockOrderChecker_Push_of)
  qed
  show "case LockOrderChecker_Pop l c of
      Inl e \<Rightarrow> e = CrashAssert \<and> held_locks c = []
    | Inr c' \<Rightarrow> checker_inv c' \<and> held_locks c \<noteq> [] \<and> held_locks c' = butlast (held_locks c)"
  proof (cases ls rule: rev_cases)
    case Nil
    then have "LockOrderChecker_Pop l c = Inl CrashAssert"
      by (simp add: c LockOrderChecker_Pop_def checker_of_def)
    with Nil held show ?thesis by simp
  next
    case (snoc ls' l')
    with len have "length ls' < nat MAX_LOCK_DEPTH" by simp
    with checker_of_inv [of ls'] held snoc show ?thesis
      by (simp add: c LockOrderChecker_Pop_of)
  qed
qed

theorem checker_is_bounded_stack_witness:
  "checker_inv (checker_of 1 [5]) \<and>
   (case LockOrderChecker_Pop 7 (checker_of 1 [5]) of
      Inl e \<Rightarrow> e = CrashAssert \<and> held_locks (checker_of 1 [5]) = []
    | Inr c' \<Rightarrow> checker_inv c' \<and> held_locks (checker_of 1 [5]) \<noteq> [] \<and>
        held_locks c' = butlast (held_locks (checker_of 1 [5])))"
proof -
  have inv: "checker_inv (checker_of 1 [5])"
    by (rule checker_of_inv) (simp add: MAX_LOCK_DEPTH_def)
  from checker_is_bounded_stack [OF inv, of 7] inv show ?thesis by blast
qed

text \<open>\<open>Pop\<close> after \<open>Push\<close> restores the checker exactly, array contents included, so properly
  nested lock scopes leave no trace.\<close>
lemma push_pop_round_trip:
  assumes "checker_inv c" and "LockOrderChecker_Push l c = Inr c'"
  shows "LockOrderChecker_Pop l' c' = Inr c"
proof -
  obtain tid ls where c: "c = checker_of tid ls" and len: "length ls \<le> nat MAX_LOCK_DEPTH"
    using checker_inv_of [OF assms(1)] by blast
  have lt: "length ls < nat MAX_LOCK_DEPTH"
    using assms(2) len
    by (auto simp: c LockOrderChecker_Push_def checker_of_def CRASH_ASSERT_def MAX_LOCK_DEPTH_def
        split: if_splits)
  with assms(2) show ?thesis
    by (auto simp: c LockOrderChecker_Push_of LockOrderChecker_Pop_of)
qed

end
