(* ===== verification/Allocator.thy ===== *)
theory Allocator
  imports Iocp_Prelude
begin

text \<open>
  What the pools promise their users: an allocation returns an address that nobody holds, a
  deallocation of a held address succeeds and gives it back, and nothing else changes hands.
  Both \<open>MemoryPool\<close> and \<open>ObjectPool\<close> are interpreted here; the pooled containers rest on the
  lemmas about sequences of calls.
\<close>

fun alloc_many :: "('s \<Rightarrow> (nat \<times> 's) result) \<Rightarrow> nat \<Rightarrow> 's \<Rightarrow> (nat list \<times> 's) result" where
  "alloc_many alloc 0 s = Inr ([], s)"
| "alloc_many alloc (Suc n) s =
     bindR (alloc s) (\<lambda>(p, s1). bindR (alloc_many alloc n s1) (\<lambda>(ps, s2). Inr (p # ps, s2)))"

fun free_all :: "(nat \<Rightarrow> 's \<Rightarrow> 's result) \<Rightarrow> nat list \<Rightarrow> 's \<Rightarrow> 's result" where
  "free_all free [] s = Inr s"
| "free_all free (p # ps) s = bindR (free p s) (free_all free ps)"

locale allocator =
  fixes inv :: "'s \<Rightarrow> bool"
    and live :: "'s \<Rightarrow> nat set"
    and alloc :: "'s \<Rightarrow> (nat \<times> 's) result"
    and free :: "nat \<Rightarrow> 's \<Rightarrow> 's result"
  assumes alloc_ok: "inv s \<Longrightarrow> alloc s = Inr (p, s') \<Longrightarrow>
      inv s' \<and> p \<notin> live s \<and> live s' = insert p (live s)"
    and free_ok: "inv s \<Longrightarrow> p \<in> live s \<Longrightarrow>
      \<exists>s'. free p s = Inr s' \<and> inv s' \<and> live s' = live s - {p}"
begin

text \<open>Addresses handed out together are distinct and were not in use.\<close>

lemma alloc_many_fresh:
  assumes "inv s" and "alloc_many alloc n s = Inr (ps, s')"
  shows "inv s' \<and> distinct ps \<and> length ps = n \<and> set ps \<inter> live s = {} \<and> live s' = live s \<union> set ps"
  using assms
proof (induction n arbitrary: s ps)
  case 0
  then show ?case by simp
next
  case (Suc n)
  from Suc.prems(2) obtain p s1 qs where a: "alloc s = Inr (p, s1)"
    and m: "alloc_many alloc n s1 = Inr (qs, s')" and ps: "ps = p # qs"
    by (auto simp: bindR_Inr_iff)
  have s1: "inv s1" "p \<notin> live s" "live s1 = insert p (live s)"
    using alloc_ok [OF Suc.prems(1) a] by auto
  from Suc.IH [OF s1(1) m] s1(2,3) show ?case by (auto simp: ps)
qed

text \<open>Giving back everything one holds, in any order, always succeeds.\<close>

lemma free_all_ok:
  assumes "inv s" and "distinct ps" and "set ps \<subseteq> live s"
  shows "\<exists>s'. free_all free ps s = Inr s' \<and> inv s' \<and> live s' = live s - set ps"
  using assms
proof (induction ps arbitrary: s)
  case Nil
  then show ?case by simp
next
  case (Cons p ps)
  obtain s1 where s1: "free p s = Inr s1" "inv s1" "live s1 = live s - {p}"
    using free_ok [OF Cons.prems(1), of p] Cons.prems(3) by auto
  with Cons.IH [OF s1(2)] Cons.prems(2,3) show ?case by fastforce
qed

lemma alloc_free_round_trip:
  assumes "inv s" and "alloc_many alloc n s = Inr (ps, s1)"
  shows "\<exists>s2. free_all free (rev ps) s1 = Inr s2 \<and> inv s2 \<and> live s2 = live s"
  using alloc_many_fresh [OF assms] free_all_ok [of s1 "rev ps"] by fastforce

end

end
