(* ===== verification/MemoryPool.thy ===== *)
theory MemoryPool
  imports Allocator Exception
begin

text \<open>
  \<open>MemoryPool.hpp\<close> (and its copy in \<open>211110_MemoryPool_test.cpp\<close>): size-class pools behind a
  lookup table, with a header in front of every block. An address is a natural number and
  \<open>nullptr\<close> is \<open>None\<close>; the process heap maps the start of every block obtained from
  \<open>_aligned_malloc\<close> to its size and header. \<open>_aligned_malloc\<close> itself is the parameter
  \<open>malloc\<close>; what the code needs of it is \<open>malloc_ok\<close>. The interlocked list of a pool is
  its stack of addresses.
\<close>

section \<open>Headers and blocks\<close>

record MemAllocInfo =
  hdr_mAllocSize :: LONG
  hdr_mExtraInfo :: LONG

definition MemAllocInfo_new :: "LONG \<Rightarrow> MemAllocInfo" where
  "MemAllocInfo_new sz = \<lparr>hdr_mAllocSize = sz, hdr_mExtraInfo = - 1\<rparr>"

text \<open>Win32: one list pointer and two longs, aligned to eight bytes.\<close>

definition MEMORY_ALLOCATION_ALIGNMENT :: nat where "MEMORY_ALLOCATION_ALIGNMENT = 8"
definition sizeof_MemAllocInfo :: nat where "sizeof_MemAllocInfo = 16"

record block =
  block_size :: nat
  block_header :: MemAllocInfo

type_synonym process_heap = "nat \<rightharpoonup> block"
type_synonym malloc_fn = "process_heap \<Rightarrow> nat \<Rightarrow> (nat \<times> MemAllocInfo) option"

definition aligned_malloc :: "malloc_fn \<Rightarrow> nat \<Rightarrow> process_heap \<Rightarrow> nat option \<times> process_heap" where
  "aligned_malloc malloc n h =
     (case malloc h n of
        None \<Rightarrow> (None, h)
      | Some (a, junk) \<Rightarrow> (Some a, h(a \<mapsto> \<lparr>block_size = n, block_header = junk\<rparr>)))"

definition load_header :: "nat \<Rightarrow> process_heap \<Rightarrow> MemAllocInfo result" where
  "load_header a h = (case h a of None \<Rightarrow> Inl OutOfBounds | Some b \<Rightarrow> Inr (block_header b))"

definition store_header :: "nat \<Rightarrow> MemAllocInfo \<Rightarrow> process_heap \<Rightarrow> process_heap result" where
  "store_header a info h =
     (case h a of
        None \<Rightarrow> Inl OutOfBounds
      | Some b \<Rightarrow> Inr (h(a \<mapsto> b\<lparr>block_header := info\<rparr>)))"

definition AttachMemAllocInfo :: "nat option \<Rightarrow> LONG \<Rightarrow> process_heap \<Rightarrow> (nat \<times> process_heap) result" where
  "AttachMemAllocInfo header sz h =
     (case header of
        None \<Rightarrow> Inl NullDeref
      | Some a \<Rightarrow> bindR (store_header a (MemAllocInfo_new sz) h)
          (\<lambda>h'. Inr (a + sizeof_MemAllocInfo, h')))"

definition DetachMemAllocInfo :: "nat \<Rightarrow> nat" where
  "DetachMemAllocInfo ptr = ptr - sizeof_MemAllocInfo"

section \<open>One size class\<close>

record SmallSizeMemoryPool =
  pool_mFreeList :: "nat list"
  pool_mAllocSize :: DWORD
  pool_mAllocCount :: LONG

definition SmallSizeMemoryPool_new :: "DWORD \<Rightarrow> SmallSizeMemoryPool result" where
  "SmallSizeMemoryPool_new allocSize =
     bindR (CRASH_ASSERT (unat allocSize > MEMORY_ALLOCATION_ALIGNMENT)) (\<lambda>_.
     Inr \<lparr>pool_mFreeList = [], pool_mAllocSize = allocSize, pool_mAllocCount = 0\<rparr>)"

definition SmallSizeMemoryPool_Pop ::
  "malloc_fn \<Rightarrow> SmallSizeMemoryPool \<Rightarrow> process_heap \<Rightarrow>
     (nat option \<times> SmallSizeMemoryPool \<times> process_heap) result" where
  "SmallSizeMemoryPool_Pop malloc pool h =
     (case pool_mFreeList pool of
        [] \<Rightarrow>
          (let (mem, h') = aligned_malloc malloc (unat (pool_mAllocSize pool)) h in
           Inr (mem, pool\<lparr>pool_mAllocCount := pool_mAllocCount pool + 1\<rparr>, h'))
      | mem # rest \<Rightarrow>
          bindR (load_header mem h) (\<lambda>info.
          bindR (CRASH_ASSERT (hdr_mAllocSize info = 0)) (\<lambda>_.
          Inr (Some mem, pool\<lparr>pool_mFreeList := rest,
                 pool_mAllocCount := pool_mAllocCount pool + 1\<rparr>, h))))"

definition SmallSizeMemoryPool_Push :: "nat \<Rightarrow> SmallSizeMemoryPool \<Rightarrow> SmallSizeMemoryPool" where
  "SmallSizeMemoryPool_Push ptr pool =
     pool\<lparr>pool_mFreeList := ptr # pool_mFreeList pool,
          pool_mAllocCount := pool_mAllocCount pool - 1\<rparr>"

section \<open>The pool table\<close>

definition MAX_ALLOC_SIZE :: int where "MAX_ALLOC_SIZE = 4096"
definition MAX_SMALL_POOL_COUNT :: nat where
  "MAX_SMALL_POOL_COUNT = 1024 div 32 + 1024 div 128 + 2048 div 256"

record MemoryPool =
  mSmallSizeMemoryPoolTable :: "nat option list"
  pools :: "SmallSizeMemoryPool list"
  heap :: process_heap

text \<open>The inner loop \<open>for (int j = recent + 1; j <= i; ++j)\<close>.\<close>

function fill_slots :: "nat \<Rightarrow> nat \<Rightarrow> nat \<Rightarrow> nat option list \<Rightarrow> nat option list result" where
  "fill_slots pool j i table =
     (if j \<le> i then bindR (store_slot (int j) (Some pool) table) (fill_slots pool (Suc j) i)
      else Inr table)"
  by pat_completeness auto
termination
  by (relation "measure (\<lambda>(pool, j, i, table). Suc i - j)") auto

declare fill_slots.simps [simp del]

text \<open>The body of the three outer loops, and the values their counter takes.\<close>

definition add_pool :: "nat \<Rightarrow> nat \<times> MemoryPool \<Rightarrow> (nat \<times> MemoryPool) result" where
  "add_pool i st =
     (let (recent, mp) = st in
      bindR (SmallSizeMemoryPool_new (of_nat i)) (\<lambda>pool.
      bindR (fill_slots (length (pools mp)) (recent + 1) i (mSmallSizeMemoryPoolTable mp)) (\<lambda>table.
      Inr (i, mp\<lparr>pools := pools mp @ [pool], mSmallSizeMemoryPoolTable := table\<rparr>))))"

fun add_pools :: "nat list \<Rightarrow> nat \<times> MemoryPool \<Rightarrow> (nat \<times> MemoryPool) result" where
  "add_pools [] st = Inr st"
| "add_pools (i # is) st = bindR (add_pool i st) (add_pools is)"

definition loop_values :: "nat \<Rightarrow> nat \<Rightarrow> nat \<Rightarrow> nat list" where
  "loop_values lo hi step = map (\<lambda>k. lo + step * k) [0..<(hi - lo + step - 1) div step]"

definition MemoryPool_new :: "process_heap \<Rightarrow> MemoryPool result" where
  "MemoryPool_new h =
     bindR (add_pools (loop_values 32 1024 32)
        (0, \<lparr>mSmallSizeMemoryPoolTable = replicate (nat MAX_ALLOC_SIZE + 1) None, pools = [], heap = h\<rparr>))
       (\<lambda>st. bindR (add_pools (loop_values 1024 2048 128) st)
       (\<lambda>st. bindR (add_pools (loop_values 2048 4096 256) st)
       (\<lambda>(recent, mp). Inr mp)))"

section \<open>Allocation and deallocation\<close>

text \<open>Calling a method through a table entry; a null entry is a null dereference.\<close>

definition pool_at :: "LONG \<Rightarrow> MemoryPool \<Rightarrow> nat result" where
  "pool_at realAllocSize mp =
     bindR (load_slot (sint realAllocSize) (mSmallSizeMemoryPoolTable mp)) (\<lambda>entry.
     case entry of None \<Rightarrow> Inl NullDeref | Some p \<Rightarrow> Inr p)"

definition Allocate :: "malloc_fn \<Rightarrow> LONG \<Rightarrow> MemoryPool \<Rightarrow> (nat \<times> MemoryPool) result" where
  "Allocate malloc sz mp =
     (let realAllocSize = sz + of_nat sizeof_MemAllocInfo in
      bindR
        (if sint realAllocSize > MAX_ALLOC_SIZE then
           (let (header, h) = aligned_malloc malloc (unat realAllocSize) (heap mp) in
            Inr (header, mp\<lparr>heap := h\<rparr>))
         else
           bindR (pool_at realAllocSize mp) (\<lambda>p.
           bindR (SmallSizeMemoryPool_Pop malloc (pools mp ! p) (heap mp)) (\<lambda>(header, pool, h).
           Inr (header, mp\<lparr>pools := (pools mp)[p := pool], heap := h\<rparr>))))
        (\<lambda>(header, mp1).
      bindR (AttachMemAllocInfo header realAllocSize (heap mp1)) (\<lambda>(ptr, h).
      Inr (ptr, mp1\<lparr>heap := h\<rparr>))))"

definition Deallocate :: "LONG \<Rightarrow> nat \<Rightarrow> MemoryPool \<Rightarrow> MemoryPool result" where
  "Deallocate extraInfo ptr mp =
     (let header = DetachMemAllocInfo ptr in
      bindR (load_header header (heap mp)) (\<lambda>info.
      let realAllocSize = hdr_mAllocSize info in
      bindR (store_header header \<lparr>hdr_mAllocSize = 0, hdr_mExtraInfo = extraInfo\<rparr> (heap mp)) (\<lambda>h.
      bindR (CRASH_ASSERT (sint realAllocSize > 0)) (\<lambda>_.
      if sint realAllocSize > MAX_ALLOC_SIZE then Inr (mp\<lparr>heap := h(header := None)\<rparr>)
      else bindR (pool_at realAllocSize mp) (\<lambda>p.
        Inr (mp\<lparr>heap := h,
             pools := (pools mp)[p := SmallSizeMemoryPool_Push header (pools mp ! p)]\<rparr>))))))"

text \<open>\<open>xnew\<close> and \<open>xdelete\<close> go through the pool. The constructor and destructor of the
  object, which the templates run on the block, touch only its user bytes, and those are not part
  of the model.\<close>

definition xnew :: "malloc_fn \<Rightarrow> LONG \<Rightarrow> MemoryPool \<Rightarrow> (nat \<times> MemoryPool) result" where
  "xnew malloc sizeof_T mp = Allocate malloc sizeof_T mp"

definition xdelete :: "LONG \<Rightarrow> nat \<Rightarrow> MemoryPool \<Rightarrow> MemoryPool result" where
  "xdelete sizeof_T object mp = Deallocate sizeof_T object mp"

section \<open>Specification\<close>

definition malloc_ok :: "malloc_fn \<Rightarrow> bool" where
  "malloc_ok malloc \<longleftrightarrow>
     (\<forall>h n a junk. malloc h n = Some (a, junk) \<longrightarrow>
        a \<noteq> 0 \<and> h a = None \<and>
        (\<forall>a' b. h a' = Some b \<longrightarrow> a + n \<le> a' \<or> a' + block_size b \<le> a))"

definition live_blocks :: "MemoryPool \<Rightarrow> nat set" where
  "live_blocks mp = {a. \<exists>b. heap mp a = Some b \<and> hdr_mAllocSize (block_header b) \<noteq> 0}"

definition live :: "MemoryPool \<Rightarrow> nat set" where
  "live mp = (\<lambda>a. a + sizeof_MemAllocInfo) ` live_blocks mp"

definition pool_live :: "MemoryPool \<Rightarrow> nat \<Rightarrow> nat set" where
  "pool_live mp p = {a. \<exists>b. heap mp a = Some b \<and> hdr_mAllocSize (block_header b) \<noteq> 0 \<and>
     pool_at (hdr_mAllocSize (block_header b)) mp = Inr p}"

definition size_class :: "nat \<Rightarrow> nat" where
  "size_class n =
     (if n \<le> 1024 then 32 * ((n + 31) div 32)
      else if n \<le> 2048 then 128 * ((n + 127) div 128)
      else 256 * ((n + 255) div 256))"

definition boundaries :: "nat list" where
  "boundaries = loop_values 32 1024 32 @ loop_values 1024 2048 128 @ loop_values 2048 4096 256"

definition class_index :: "nat \<Rightarrow> nat" where
  "class_index n = length (takeWhile (\<lambda>i. i < n) boundaries)"

definition fresh_pool :: "nat \<Rightarrow> SmallSizeMemoryPool" where
  "fresh_pool i = \<lparr>pool_mFreeList = [], pool_mAllocSize = of_nat i, pool_mAllocCount = 0\<rparr>"

section \<open>The table the constructor builds\<close>

lemma fill_slots_ok:
  assumes "i < length table"
  shows "\<exists>t. fill_slots p j i table = Inr t \<and> length t = length table \<and>
    (\<forall>x < length table. t ! x = (if j \<le> x \<and> x \<le> i then Some p else table ! x))"
  using assms
proof (induction p j i table rule: fill_slots.induct)
  case (1 p j i table)
  show ?case
  proof (cases "j \<le> i")
    case False
    then show ?thesis by (auto simp: fill_slots.simps)
  next
    case True
    with 1 have st: "store_slot (int j) (Some p) table = Inr (table[j := Some p])"
      by (simp add: store_slot_def)
    from 1(1) [OF True, of "table[j := Some p]"] 1(2) st
    obtain t where t: "fill_slots p (Suc j) i (table[j := Some p]) = Inr t" "length t = length table"
      "\<forall>x < length table. t ! x = (if Suc j \<le> x \<and> x \<le> i then Some p else table[j := Some p] ! x)"
      by auto
    have "fill_slots p j i table = Inr t"
      using True st t(1) by (simp add: fill_slots.simps [of p j])
    with t(2,3) True 1(2) show ?thesis by (auto simp: nth_list_update)
  qed
qed

lemma add_pool_ok:
  assumes "length (mSmallSizeMemoryPoolTable mp) = 4097" and "8 < i" and "i \<le> 4096"
  shows "\<exists>t. add_pool i (recent, mp) =
      Inr (i, mp\<lparr>pools := pools mp @ [fresh_pool i], mSmallSizeMemoryPoolTable := t\<rparr>) \<and>
    length t = 4097 \<and>
    (\<forall>x \<le> 4096. t ! x = (if recent < x \<and> x \<le> i then Some (length (pools mp))
                       else mSmallSizeMemoryPoolTable mp ! x))"
proof -
  have "unat (of_nat i :: DWORD) = i" using assms(3) by (intro unat_of_nat_small) simp
  then have "SmallSizeMemoryPool_new (of_nat i) = Inr (fresh_pool i)"
    using assms(2) by (simp add: SmallSizeMemoryPool_new_def fresh_pool_def MEMORY_ALLOCATION_ALIGNMENT_def)
  moreover obtain t where
    "fill_slots (length (pools mp)) (recent + 1) i (mSmallSizeMemoryPoolTable mp) = Inr t"
    "length t = 4097"
    "\<forall>x < 4097. t ! x = (if recent + 1 \<le> x \<and> x \<le> i then Some (length (pools mp))
                       else mSmallSizeMemoryPoolTable mp ! x)"
    using fill_slots_ok [of i "mSmallSizeMemoryPoolTable mp"] assms(1,3) by fastforce
  ultimately show ?thesis by (auto simp: add_pool_def Suc_le_eq)
qed

lemma add_pools_ok:
  assumes "length (mSmallSizeMemoryPoolTable mp) = 4097"
    and "sorted_wrt (<) (recent # is)" and "\<forall>i \<in> set is. 8 < i \<and> i \<le> 4096"
  shows "\<exists>mp'. add_pools is (recent, mp) = Inr (last (recent # is), mp') \<and> heap mp' = heap mp \<and>
    length (mSmallSizeMemoryPoolTable mp') = 4097 \<and> pools mp' = pools mp @ map fresh_pool is \<and>
    (\<forall>x \<le> 4096. mSmallSizeMemoryPoolTable mp' ! x =
       (if recent < x \<and> x \<le> last (recent # is)
        then Some (length (pools mp) + length (takeWhile (\<lambda>i. i < x) is))
        else mSmallSizeMemoryPoolTable mp ! x))"
  using assms
proof (induction "is" arbitrary: recent mp)
  case Nil
  then show ?case by auto
next
  case (Cons i "is")
  obtain t where t: "add_pool i (recent, mp) =
      Inr (i, mp\<lparr>pools := pools mp @ [fresh_pool i], mSmallSizeMemoryPoolTable := t\<rparr>)"
    "length t = 4097"
    "\<forall>x \<le> 4096. t ! x = (if recent < x \<and> x \<le> i then Some (length (pools mp))
                       else mSmallSizeMemoryPoolTable mp ! x)"
    using add_pool_ok [OF Cons.prems(1), of i recent] Cons.prems(3) by auto
  define mp1 where "mp1 = mp\<lparr>pools := pools mp @ [fresh_pool i], mSmallSizeMemoryPoolTable := t\<rparr>"
  have "sorted_wrt (<) (i # is)" and "recent < i" using Cons.prems(2) by simp_all
  then have last: "i \<le> last (i # is)"
    by (metis last_in_set list.discI list.set_cases order.refl order.strict_implies_order
        set_ConsD sorted_wrt.simps(2))
  have mp1: "pools mp1 = pools mp @ [fresh_pool i]" "mSmallSizeMemoryPoolTable mp1 = t" "heap mp1 = heap mp"
    by (simp_all add: mp1_def)
  from Cons.IH [of mp1 i] t(2) \<open>sorted_wrt (<) (i # is)\<close> Cons.prems(3)
  obtain mp' where mp': "add_pools is (i, mp1) = Inr (last (i # is), mp')" "heap mp' = heap mp"
    "length (mSmallSizeMemoryPoolTable mp') = 4097"
    "pools mp' = pools mp @ map fresh_pool (i # is)"
    "\<forall>x \<le> 4096. mSmallSizeMemoryPoolTable mp' ! x =
       (if i < x \<and> x \<le> last (i # is)
        then Some (length (pools mp1) + length (takeWhile (\<lambda>i. i < x) is))
        else mSmallSizeMemoryPoolTable mp1 ! x)"
    by (auto simp: mp1)
  have "add_pools (i # is) (recent, mp) = Inr (last (recent # i # is), mp')"
    using t(1) mp'(1) by (simp add: mp1_def)
  with mp'(2,3,4) show ?case
    using mp'(5) t(3) last \<open>recent < i\<close> by (intro exI [of _ mp']) (auto simp: mp1)
qed

lemma add_pools_append: "add_pools (xs @ ys) st = bindR (add_pools xs st) (add_pools ys)"
proof (induction xs arbitrary: st)
  case (Cons x xs)
  then have "add_pools (xs @ ys) = (\<lambda>st. bindR (add_pools xs st) (add_pools ys))" by blast
  then show ?case by (simp add: bindR_assoc)
qed simp

lemma boundaries_eq: "boundaries =
    [32, 64, 96, 128, 160, 192, 224, 256, 288, 320, 352, 384, 416, 448, 480, 512, 544,
     576, 608, 640, 672, 704, 736, 768, 800, 832, 864, 896, 928, 960, 992, 1024, 1152,
     1280, 1408, 1536, 1664, 1792, 1920, 2048, 2304, 2560, 2816, 3072, 3328, 3584, 3840]"
  by (simp add: boundaries_def loop_values_def upt_rec)

lemma boundaries_facts: "sorted_wrt (<) (0 # boundaries)" "length boundaries = 47"
    "last (0 # boundaries) = 3840" "\<forall>i \<in> set boundaries. 8 < i \<and> i \<le> 4096"
  by (simp_all add: boundaries_eq)

definition pool_table :: "nat option list" where
  "pool_table = map (\<lambda>n. if 0 < n \<and> n \<le> 3840 then Some (class_index n) else None) [0..<4097]"

lemma MemoryPool_new_eq:
  "MemoryPool_new h =
     Inr \<lparr>mSmallSizeMemoryPoolTable = pool_table, pools = map fresh_pool boundaries, heap = h\<rparr>"
proof -
  define mp0 where "mp0 = \<lparr>mSmallSizeMemoryPoolTable = replicate 4097 None, pools = [], heap = h\<rparr>"
  obtain mp where mp: "add_pools boundaries (0, mp0) = Inr (3840, mp)" "heap mp = h"
    "length (mSmallSizeMemoryPoolTable mp) = 4097" "pools mp = map fresh_pool boundaries"
    "\<forall>x \<le> 4096. mSmallSizeMemoryPoolTable mp ! x =
       (if 0 < x \<and> x \<le> 3840 then Some (class_index x) else None)"
    using add_pools_ok [of mp0 0 boundaries] boundaries_facts
    by (auto simp: mp0_def class_index_def)
  have "mSmallSizeMemoryPoolTable mp = pool_table"
    by (rule nth_equalityI) (use mp(3,5) in \<open>simp_all add: pool_table_def\<close>)
  with mp(2,4) have "mp = \<lparr>mSmallSizeMemoryPoolTable = pool_table,
      pools = map fresh_pool boundaries, heap = h\<rparr>" by simp
  moreover have "MemoryPool_new h = bindR (add_pools boundaries (0, mp0)) (\<lambda>(recent, mp). Inr mp)"
    by (simp add: MemoryPool_new_def boundaries_def add_pools_append bindR_assoc mp0_def MAX_ALLOC_SIZE_def)
  ultimately show ?thesis by (simp add: mp(1))
qed

text \<open>The class of a size is the least boundary that is not smaller.\<close>

lemma set_boundaries: "set boundaries =
    (\<lambda>k. 32 + 32 * k) ` {..<31} \<union> (\<lambda>k. 1024 + 128 * k) ` {..<8} \<union> (\<lambda>k. 2048 + 256 * k) ` {..<8}"
  by (simp add: boundaries_def loop_values_def atLeast0LessThan Un_assoc)

lemma round_up_least: "0 < c \<Longrightarrow> n \<le> c * m \<Longrightarrow> (n + (c - 1)) div c \<le> m"
  for c n m :: nat
proof -
  assume "0 < c" and "n \<le> c * m"
  then have "n + (c - 1) < Suc m * c" by (simp add: algebra_simps)
  then have "(n + (c - 1)) div c < Suc m" by (rule less_mult_imp_div_less)
  then show ?thesis by simp
qed

lemma round_up_ge: "0 < c \<Longrightarrow> n \<le> c * ((n + (c - 1)) div c)" for c n :: nat
proof -
  assume c: "0 < c"
  have "n + (c - 1) = c * ((n + (c - 1)) div c) + (n + (c - 1)) mod c" by simp
  moreover have "(n + (c - 1)) mod c \<le> c - 1" using c by (simp add: less_Suc_eq_le [symmetric])
  ultimately show ?thesis by linarith
qed

lemmas round_up_numerals = round_up_ge [of 32, simplified] round_up_ge [of 128, simplified]
  round_up_ge [of 256, simplified]

lemma size_class_ge: "n \<le> size_class n"
  by (simp add: size_class_def round_up_numerals)

lemma size_class_cases:
  assumes "0 < n" and "n \<le> 3840"
  obtains k where "k < 31" and "size_class n = 32 + 32 * k"
  | k where "k < 8" and "size_class n = 1024 + 128 * k"
  | k where "k < 8" and "size_class n = 2048 + 256 * k"
proof -
  note ge = round_up_ge [of 32 n] round_up_ge [of 128 n] round_up_ge [of 256 n]
  consider "n \<le> 992" | "992 < n" "n \<le> 1024" | "1024 < n" "n \<le> 1920" | "1920 < n" "n \<le> 2048"
    | "2048 < n" by linarith
  then show thesis
  proof cases
    case 1
    then have "(n + 31) div 32 - 1 < 31" "size_class n = 32 + 32 * ((n + 31) div 32 - 1)"
      using ge(1) assms(1) round_up_least [of 32 n 31] by (auto simp: size_class_def)
    then show thesis using that(1) by blast
  next
    case 2
    then have "(n + 31) div 32 = 32" using ge(1) round_up_least [of 32 n 32] by simp
    with 2 show thesis using that(2) [of 0] by (simp add: size_class_def)
  next
    case 3
    then have "(n + 127) div 128 - 8 < 8" "size_class n = 1024 + 128 * ((n + 127) div 128 - 8)"
      using ge(2) round_up_least [of 128 n 15] by (auto simp: size_class_def)
    then show thesis using that(2) by blast
  next
    case 4
    then have "(n + 127) div 128 = 16" using ge(2) round_up_least [of 128 n 16] by simp
    with 4 show thesis using that(3) [of 0] by (simp add: size_class_def)
  next
    case 5
    then have "(n + 255) div 256 - 8 < 8" "size_class n = 2048 + 256 * ((n + 255) div 256 - 8)"
      using ge(3) assms(2) round_up_least [of 256 n 15] by (auto simp: size_class_def)
    then show thesis using that(3) by blast
  qed
qed

lemma size_class_boundary: "0 < n \<Longrightarrow> n \<le> 3840 \<Longrightarrow> size_class n \<in> set boundaries"
  by (erule (1) size_class_cases) (simp_all add: set_boundaries)

lemma size_class_least:
  assumes "b \<in> set boundaries" and "n \<le> b"
  shows "size_class n \<le> b"
proof -
  have le: "size_class n \<le> 1024" if "n \<le> 1024"
    using that round_up_least [of 32 n 32] by (simp add: size_class_def)
  have le': "size_class n \<le> 2048" if "n \<le> 2048"
    using that le round_up_least [of 128 n 16] by (auto simp: size_class_def)
  have "size_class n \<le> 32 + 32 * k" if "n \<le> 32 + 32 * k" "k < 31" for k
    using that round_up_least [of 32 n "k + 1"] by (simp add: size_class_def)
  moreover have "size_class n \<le> 1024 + 128 * k" if "n \<le> 1024 + 128 * k" "k < 8" for k
    using that le round_up_least [of 128 n "k + 8"] by (cases "n \<le> 1024") (simp_all add: size_class_def)
  moreover have "size_class n \<le> 2048 + 256 * k" if "n \<le> 2048 + 256 * k" "k < 8" for k
    using that le' round_up_least [of 256 n "k + 8"] by (cases "n \<le> 2048") (simp_all add: size_class_def)
  ultimately show ?thesis using assms by (auto simp: set_boundaries)
qed

lemma class_index_size:
  assumes "0 < n" and "n \<le> 3840"
  shows "class_index n < 47 \<and> boundaries ! class_index n = size_class n"
proof -
  have mem: "3840 \<in> set boundaries" by (simp add: boundaries_eq)
  then have "takeWhile (\<lambda>i. i < n) boundaries \<noteq> boundaries"
    using assms(2) by (metis not_le set_takeWhileD)
  then have lt: "class_index n < 47"
    unfolding class_index_def
    by (metis boundaries_facts(2) length_takeWhile_le nat_less_le takeWhile_eq_take take_all_iff order.refl)
  then have ge: "n \<le> boundaries ! class_index n"
    using nth_length_takeWhile [of "\<lambda>i. i < n" boundaries] boundaries_facts(2)
    by (simp add: class_index_def not_less)
  have inset: "boundaries ! class_index n \<in> set boundaries"
    using lt by (simp add: boundaries_facts(2))
  obtain m where m: "m < 47" "boundaries ! m = size_class n"
    using size_class_boundary [OF assms] by (auto simp: in_set_conv_nth boundaries_facts(2))
  have "class_index n \<le> m"
  proof (rule ccontr)
    assume "\<not> class_index n \<le> m"
    then have "boundaries ! m \<in> set (takeWhile (\<lambda>i. i < n) boundaries)"
      unfolding class_index_def by (metis linorder_not_less nth_mem takeWhile_nth)
    then show False using m(2) size_class_ge [of n] by (metis not_le set_takeWhileD)
  qed
  moreover have "sorted_wrt (<) boundaries" using boundaries_facts(1) by simp
  ultimately have "boundaries ! class_index n \<le> size_class n"
    using m sorted_wrt_nth_less [of "(<)" boundaries "class_index n" m]
    by (metis boundaries_facts(2) le_neq_implies_less less_imp_le order.refl)
  with size_class_least [OF inset ge] lt show ?thesis by simp
qed

section \<open>The invariant\<close>

definition free_list :: "MemoryPool \<Rightarrow> nat \<Rightarrow> nat list" where
  "free_list mp p = pool_mFreeList (pools mp ! p)"

definition apart :: "nat \<Rightarrow> nat \<Rightarrow> nat \<Rightarrow> nat \<Rightarrow> bool" where
  "apart a n a' n' \<longleftrightarrow> a + n \<le> a' \<or> a' + n' \<le> a"

definition header_ok :: "LONG \<Rightarrow> nat \<Rightarrow> bool" where
  "header_ok n bs \<longleftrightarrow> 0 < sint n \<and> nat (sint n) \<le> bs \<and>
     (sint n \<le> MAX_ALLOC_SIZE \<longrightarrow> sint n \<le> 3840 \<and> bs = size_class (nat (sint n)))"

definition mp_inv :: "MemoryPool \<Rightarrow> bool" where
  "mp_inv mp \<longleftrightarrow>
     mSmallSizeMemoryPoolTable mp = pool_table \<and>
     map pool_mAllocSize (pools mp) = map of_nat boundaries \<and>
     finite (dom (heap mp)) \<and> heap mp 0 = None \<and>
     (\<forall>a b a' b'. heap mp a = Some b \<and> heap mp a' = Some b' \<and> a \<noteq> a' \<longrightarrow>
        apart a (block_size b) a' (block_size b')) \<and>
     (\<forall>a b. heap mp a = Some b \<and> hdr_mAllocSize (block_header b) \<noteq> 0 \<longrightarrow>
        header_ok (hdr_mAllocSize (block_header b)) (block_size b)) \<and>
     (\<forall>p < 47. distinct (free_list mp p) \<and>
        set (free_list mp p) = {a. \<exists>b. heap mp a = Some b \<and>
          hdr_mAllocSize (block_header b) = 0 \<and> block_size b = boundaries ! p}) \<and>
     (\<forall>a b. heap mp a = Some b \<and> hdr_mAllocSize (block_header b) = 0 \<longrightarrow> block_size b \<in> set boundaries) \<and>
     (\<forall>p < 47. pool_mAllocCount (pools mp ! p) = of_nat (card (pool_live mp p)))"

lemma mp_invD:
  assumes "mp_inv mp"
  shows "mSmallSizeMemoryPoolTable mp = pool_table"
    and "map pool_mAllocSize (pools mp) = map of_nat boundaries"
    and "finite (dom (heap mp))" and "heap mp 0 = None"
    and "\<And>a b a' b'. heap mp a = Some b \<Longrightarrow> heap mp a' = Some b' \<Longrightarrow> a \<noteq> a' \<Longrightarrow>
        apart a (block_size b) a' (block_size b')"
    and "\<And>a b. heap mp a = Some b \<Longrightarrow> hdr_mAllocSize (block_header b) \<noteq> 0 \<Longrightarrow>
        header_ok (hdr_mAllocSize (block_header b)) (block_size b)"
    and "\<And>p. p < 47 \<Longrightarrow> distinct (free_list mp p)"
    and "\<And>p. p < 47 \<Longrightarrow> set (free_list mp p) = {a. \<exists>b. heap mp a = Some b \<and>
          hdr_mAllocSize (block_header b) = 0 \<and> block_size b = boundaries ! p}"
    and "\<And>a b. heap mp a = Some b \<Longrightarrow> hdr_mAllocSize (block_header b) = 0 \<Longrightarrow> block_size b \<in> set boundaries"
    and "\<And>p. p < 47 \<Longrightarrow> pool_mAllocCount (pools mp ! p) = of_nat (card (pool_live mp p))"
  using assms unfolding mp_inv_def by blast+

lemma length_pools: "mp_inv mp \<Longrightarrow> length (pools mp) = 47"
  using mp_invD(2) [of mp] boundaries_facts(2) by (metis length_map)

lemma pool_size:
  assumes "mp_inv mp" and "p < 47"
  shows "unat (pool_mAllocSize (pools mp ! p)) = boundaries ! p"
proof -
  have "pool_mAllocSize (pools mp ! p) = of_nat (boundaries ! p)"
    using mp_invD(2) [OF assms(1)] assms(2) length_pools [OF assms(1)] boundaries_facts(2)
    by (metis nth_map)
  moreover have "boundaries ! p \<le> 4096"
    using assms(2) boundaries_facts(2,4) nth_mem by metis
  ultimately show ?thesis by (simp add: unat_of_nat_small)
qed

lemma pool_at_table:
  assumes "mSmallSizeMemoryPoolTable mp = pool_table"
  shows "pool_at n mp =
    (if sint n < 0 \<or> 4096 < sint n then Inl OutOfBounds
     else if 0 < sint n \<and> sint n \<le> 3840 then Inr (class_index (nat (sint n))) else Inl NullDeref)"
proof (cases "sint n < 0 \<or> 4096 < sint n")
  case False
  then have "load_slot (sint n) pool_table =
      Inr (if 0 < sint n \<and> sint n \<le> 3840 then Some (class_index (nat (sint n))) else None)"
    by (auto simp: load_slot_def pool_table_def nat_le_iff)
  with False assms show ?thesis by (simp add: pool_at_def)
qed (auto simp: pool_at_def assms load_slot_def pool_table_def)

section \<open>Every branch of allocation\<close>

definition request :: "LONG \<Rightarrow> LONG" where
  "request sz = sz + of_nat sizeof_MemAllocInfo"

lemma Allocate_request:
  "Allocate malloc sz mp =
     bindR
       (if sint (request sz) > MAX_ALLOC_SIZE then
          (let (header, h) = aligned_malloc malloc (unat (request sz)) (heap mp) in
           Inr (header, mp\<lparr>heap := h\<rparr>))
        else
          bindR (pool_at (request sz) mp) (\<lambda>p.
          bindR (SmallSizeMemoryPool_Pop malloc (pools mp ! p) (heap mp)) (\<lambda>(header, pool, h).
          Inr (header, mp\<lparr>pools := (pools mp)[p := pool], heap := h\<rparr>))))
       (\<lambda>(header, mp1).
     bindR (AttachMemAllocInfo header (request sz) (heap mp1)) (\<lambda>(ptr, h).
     Inr (ptr, mp1\<lparr>heap := h\<rparr>)))"
  by (simp only: Allocate_def request_def Let_def)

lemma Allocate_faults:
  assumes "mSmallSizeMemoryPoolTable mp = pool_table"
  shows "sint (request sz) < 0 \<Longrightarrow> Allocate malloc sz mp = Inl OutOfBounds"
    and "sint (request sz) = 0 \<Longrightarrow> Allocate malloc sz mp = Inl NullDeref"
    and "3840 < sint (request sz) \<Longrightarrow> sint (request sz) \<le> 4096 \<Longrightarrow> Allocate malloc sz mp = Inl NullDeref"
  by (simp_all add: Allocate_request pool_at_table [OF assms] MAX_ALLOC_SIZE_def)

definition grant :: "nat \<Rightarrow> nat \<Rightarrow> LONG \<Rightarrow> MemoryPool \<Rightarrow> MemoryPool" where
  "grant a bs n mp =
     mp\<lparr>heap := (heap mp)(a \<mapsto> \<lparr>block_size = bs, block_header = MemAllocInfo_new n\<rparr>)\<rparr>"

lemma Allocate_large:
  assumes "4096 < sint (request sz)"
  shows "Allocate malloc sz mp =
    (case malloc (heap mp) (unat (request sz)) of
       None \<Rightarrow> Inl NullDeref
     | Some (a, junk) \<Rightarrow> Inr (a + 16, grant a (unat (request sz)) (request sz) mp))"
  using assms
  by (auto simp: Allocate_request MAX_ALLOC_SIZE_def aligned_malloc_def AttachMemAllocInfo_def
      store_header_def grant_def sizeof_MemAllocInfo_def split: option.splits)

lemma pool_empty_update: "pool_mFreeList q = [] \<Longrightarrow> q\<lparr>pool_mFreeList := [], pool_mAllocCount := c\<rparr> = q\<lparr>pool_mAllocCount := c\<rparr>"
  by (cases q) simp

definition take_from_pool :: "nat \<Rightarrow> nat list \<Rightarrow> MemoryPool \<Rightarrow> MemoryPool" where
  "take_from_pool p rest mp =
     mp\<lparr>pools := (pools mp)[p := (pools mp ! p)\<lparr>pool_mFreeList := rest,
          pool_mAllocCount := pool_mAllocCount (pools mp ! p) + 1\<rparr>]\<rparr>"

lemma Allocate_small:
  assumes inv: "mp_inv mp" and n: "0 < sint (request sz)" "sint (request sz) \<le> 3840"
    and p: "p = class_index (nat (sint (request sz)))"
  shows "Allocate malloc sz mp =
    (case free_list mp p of
       [] \<Rightarrow> (case malloc (heap mp) (boundaries ! p) of
          None \<Rightarrow> Inl NullDeref
        | Some (a, junk) \<Rightarrow>
            Inr (a + 16, grant a (boundaries ! p) (request sz) (take_from_pool p [] mp)))
     | a # rest \<Rightarrow>
            Inr (a + 16, grant a (boundaries ! p) (request sz) (take_from_pool p rest mp)))"
proof -
  have p47: "p < 47" using class_index_size [of "nat (sint (request sz))"] n p by auto
  have at: "pool_at (request sz) mp = Inr p"
    using n p by (simp add: pool_at_table [OF mp_invD(1) [OF inv]])
  show ?thesis
  proof (cases "free_list mp p")
    case Nil
    then show ?thesis
      using n at pool_size [OF inv p47]
      by (auto simp: Allocate_request MAX_ALLOC_SIZE_def SmallSizeMemoryPool_Pop_def free_list_def
          aligned_malloc_def AttachMemAllocInfo_def store_header_def grant_def take_from_pool_def
          pool_empty_update
          sizeof_MemAllocInfo_def split: option.splits)
  next
    case (Cons a rest)
    then have "a \<in> set (free_list mp p)" by simp
    then obtain b where b: "heap mp a = Some b" "hdr_mAllocSize (block_header b) = 0"
      "block_size b = boundaries ! p"
      unfolding mp_invD(8) [OF inv p47] by blast
    then show ?thesis
      using n at Cons
      by (cases b) (auto simp: Allocate_request MAX_ALLOC_SIZE_def SmallSizeMemoryPool_Pop_def free_list_def
          load_header_def AttachMemAllocInfo_def store_header_def grant_def take_from_pool_def
          sizeof_MemAllocInfo_def MemAllocInfo_new_def)
  qed
qed

section \<open>Changing one block\<close>

definition is_free :: "nat \<Rightarrow> block option \<Rightarrow> bool" where
  "is_free p ob \<longleftrightarrow>
     (case ob of None \<Rightarrow> False
      | Some b \<Rightarrow> hdr_mAllocSize (block_header b) = 0 \<and> block_size b = boundaries ! p)"

definition is_live :: "nat \<Rightarrow> block option \<Rightarrow> bool" where
  "is_live p ob \<longleftrightarrow>
     (case ob of None \<Rightarrow> False
      | Some b \<Rightarrow> 0 < sint (hdr_mAllocSize (block_header b)) \<and>
          sint (hdr_mAllocSize (block_header b)) \<le> 3840 \<and>
          class_index (nat (sint (hdr_mAllocSize (block_header b)))) = p)"

definition block_ok :: "nat \<Rightarrow> block \<Rightarrow> MemoryPool \<Rightarrow> bool" where
  "block_ok a b mp \<longleftrightarrow> a \<noteq> 0 \<and>
     (\<forall>a' b'. heap mp a' = Some b' \<and> a' \<noteq> a \<longrightarrow> apart a (block_size b) a' (block_size b')) \<and>
     (if hdr_mAllocSize (block_header b) = 0 then block_size b \<in> set boundaries
      else header_ok (hdr_mAllocSize (block_header b)) (block_size b))"

lemma apart_sym: "apart a n a' n' \<Longrightarrow> apart a' n' a n"
  by (auto simp: apart_def)

lemma pool_live_is_live:
  assumes "mSmallSizeMemoryPoolTable mp = pool_table"
  shows "pool_live mp p = {a. is_live p (heap mp a)}"
  by (auto simp: pool_live_def is_live_def pool_at_table [OF assms] split: option.splits if_splits)

lemma free_list_is_free: "mp_inv mp \<Longrightarrow> p < 47 \<Longrightarrow> set (free_list mp p) = {a. is_free p (heap mp a)}"
  by (auto simp: mp_invD(8) is_free_def split: option.splits)

lemma finite_pool_live: "mp_inv mp \<Longrightarrow> finite (pool_live mp p)"
  by (rule finite_subset [OF _ mp_invD(3)]) (auto simp: pool_live_def)

lemma change_block_inv:
  assumes inv: "mp_inv mp" and table: "mSmallSizeMemoryPoolTable mp' = pool_table"
    and sizes: "map pool_mAllocSize (pools mp') = map pool_mAllocSize (pools mp)"
    and heap: "heap mp' = (heap mp)(a := ob)"
    and ok: "\<And>b. ob = Some b \<Longrightarrow> block_ok a b mp"
    and fl: "\<And>p. p < 47 \<Longrightarrow> distinct (free_list mp' p) \<and>
        set (free_list mp' p) = {x. is_free p (heap mp' x)}"
    and cnt: "\<And>p. p < 47 \<Longrightarrow> pool_mAllocCount (pools mp' ! p) = of_nat (card (pool_live mp' p))"
  shows "mp_inv mp'"
  unfolding mp_inv_def
proof (intro conjI allI impI)
  show "finite (dom (heap mp'))" 
    by (rule finite_subset [of _ "insert a (dom (heap mp))"])
      (use mp_invD(3) [OF inv] in \<open>auto simp: heap split: if_splits\<close>)
  show "heap mp' 0 = None" using mp_invD(4) [OF inv] ok by (cases ob) (auto simp: heap block_ok_def)
  show "apart x (block_size b) y (block_size c)"
    if "heap mp' x = Some b \<and> heap mp' y = Some c \<and> x \<noteq> y" for x b y c
    using that ok mp_invD(5) [OF inv] by (auto simp: heap block_ok_def split: if_splits intro: apart_sym)
  show "header_ok (hdr_mAllocSize (block_header b)) (block_size b)"
    if "heap mp' x = Some b \<and> hdr_mAllocSize (block_header b) \<noteq> 0" for x b
    using that ok mp_invD(6) [OF inv] by (auto simp: heap block_ok_def split: if_splits)
  show "block_size b \<in> set boundaries"
    if "heap mp' x = Some b \<and> hdr_mAllocSize (block_header b) = 0" for x b
    using that ok mp_invD(9) [OF inv] by (auto simp: heap block_ok_def split: if_splits)
  show "set (free_list mp' p) = {a. \<exists>b. heap mp' a = Some b \<and>
          hdr_mAllocSize (block_header b) = 0 \<and> block_size b = boundaries ! p}" if "p < 47" for p
    using fl [OF that] by (auto simp: is_free_def split: option.splits)
qed (use assms mp_invD(2) [OF inv] in auto)

lemma is_None [simp]: "\<not> is_free p None" "\<not> is_live p None"
  by (simp_all add: is_free_def is_live_def)

lemma boundaries_inj: "p < 47 \<Longrightarrow> q < 47 \<Longrightarrow> boundaries ! p = boundaries ! q \<Longrightarrow> p = q"
  using boundaries_facts(1,2) by (metis nth_eq_iff_index_eq sorted_wrt.simps(2) strict_sorted_iff)

lemma is_free_inj: "is_free p ob \<Longrightarrow> is_free q ob \<Longrightarrow> p < 47 \<Longrightarrow> q < 47 \<Longrightarrow> p = q"
  by (auto simp: is_free_def boundaries_inj split: option.splits)

lemma free_not_live: "is_free p ob \<Longrightarrow> \<not> is_live q ob"
  by (auto simp: is_free_def is_live_def split: option.splits)

definition granted :: "nat \<Rightarrow> LONG \<Rightarrow> block" where
  "granted bs n = \<lparr>block_size = bs, block_header = MemAllocInfo_new n\<rparr>"

lemma granted_simps [simp]: "block_size (granted bs n) = bs"
  "hdr_mAllocSize (block_header (granted bs n)) = n"
  by (simp_all add: granted_def MemAllocInfo_new_def)

lemma grant_heap [simp]: "heap (grant a bs n mp) = (heap mp)(a \<mapsto> granted bs n)"
  "pools (grant a bs n mp) = pools mp"
  "mSmallSizeMemoryPoolTable (grant a bs n mp) = mSmallSizeMemoryPoolTable mp"
  "free_list (grant a bs n mp) p = free_list mp p"
  by (simp_all add: grant_def granted_def free_list_def)

lemma grant_large_inv:
  assumes inv: "mp_inv mp" and n: "4096 < sint n" and new: "heap mp a = None"
    and ok: "block_ok a (granted bs n) mp"
  shows "mp_inv (grant a bs n mp)"
proof (rule change_block_inv [OF inv, where a = a and ob = "Some (granted bs n)"])
  note table = mp_invD(1) [OF inv]
  have "n \<noteq> 0" using n by auto
  fix p :: nat assume p: "p < 47"
  have "{x. is_free p (heap (grant a bs n mp) x)} = {x. is_free p (heap mp x)}"
    using new \<open>n \<noteq> 0\<close> by (auto simp: is_free_def)
  then show "distinct (free_list (grant a bs n mp) p) \<and>
      set (free_list (grant a bs n mp) p) = {x. is_free p (heap (grant a bs n mp) x)}"
    using mp_invD(7) [OF inv p] free_list_is_free [OF inv p] by simp
  have "{x. is_live p (heap (grant a bs n mp) x)} = {x. is_live p (heap mp x)}"
    using new n by (auto simp: is_live_def)
  then show "pool_mAllocCount (pools (grant a bs n mp) ! p) = of_nat (card (pool_live (grant a bs n mp) p))"
    using mp_invD(10) [OF inv p] table by (simp add: pool_live_is_live)
qed (use ok mp_invD(1) [OF inv] in auto)

lemma map_update_same: "f y = f (xs ! p) \<Longrightarrow> map f (xs[p := y]) = map f xs"
  by (cases "p < length xs") (simp_all add: map_update list_update_same_conv list_update_beyond)

lemma take_from_pool_simps [simp]:
  "heap (take_from_pool p rest mp) = heap mp"
  "mSmallSizeMemoryPoolTable (take_from_pool p rest mp) = mSmallSizeMemoryPoolTable mp"
  "map pool_mAllocSize (pools (take_from_pool p rest mp)) = map pool_mAllocSize (pools mp)"
  by (simp_all add: take_from_pool_def map_update_same)

lemma take_from_pool_nth:
  assumes "length (pools mp) = 47" and "p < 47"
  shows "free_list (take_from_pool p rest mp) q = (if q = p then rest else free_list mp q)"
    and "pool_mAllocCount (pools (take_from_pool p rest mp) ! q) =
      pool_mAllocCount (pools mp ! q) + (if q = p then 1 else 0)"
  using assms by (simp_all add: take_from_pool_def free_list_def)

lemma grant_small_inv:
  assumes inv: "mp_inv mp" and n: "0 < sint n" "sint n \<le> 3840" and p: "p = class_index (nat (sint n))"
    and src: "heap mp a = None \<and> free_list mp p = [] \<and> rest = [] \<or> free_list mp p = a # rest"
    and ok: "block_ok a (granted bs n) mp"
  shows "mp_inv (grant a bs n (take_from_pool p rest mp))" (is "mp_inv ?mp")
proof (rule change_block_inv [OF inv, where a = a and ob = "Some (granted bs n)"])
  note table = mp_invD(1) [OF inv]
  have p47: "p < 47" using class_index_size [of "nat (sint n)"] n p by auto
  note nths = take_from_pool_nth [OF length_pools [OF inv] p47]
  have "n \<noteq> 0" using n by auto
  have a_free: "is_free p (heap mp a)" if "heap mp a \<noteq> None"
    using that src free_list_is_free [OF inv p47] by auto
  have not_live: "\<not> is_live q (heap mp a)" for q
    using a_free free_not_live by (cases "heap mp a") auto
  fix q :: nat assume q: "q < 47"
  have dist: "distinct (free_list mp q)" and set: "set (free_list mp q) = {x. is_free q (heap mp x)}"
    using mp_invD(7) [OF inv q] free_list_is_free [OF inv q] by simp_all
  have "a \<notin> set (free_list mp q)" if "q \<noteq> p"
    using that a_free set is_free_inj [OF _ _ p47 q] by (cases "heap mp a") auto
  then have "set (free_list ?mp q) = set (free_list mp q) - {a}"
    using src dist by (auto simp: nths)
  also have "\<dots> = {x. is_free q (heap ?mp x)}"
    using \<open>n \<noteq> 0\<close> by (auto simp: set is_free_def)
  finally show "distinct (free_list ?mp q) \<and> set (free_list ?mp q) = {x. is_free q (heap ?mp x)}"
    using dist src by (auto simp: nths)
  have "pool_live ?mp q = (if q = p then insert a (pool_live mp q) else pool_live mp q)"
    using n p not_live by (auto simp: table pool_live_is_live is_live_def)
  moreover have "a \<notin> pool_live mp q" using not_live by (simp add: table pool_live_is_live)
  ultimately show "pool_mAllocCount (pools ?mp ! q) = of_nat (card (pool_live ?mp q))"
    using mp_invD(10) [OF inv q] finite_pool_live [OF inv, of p] by (auto simp: nths)
qed (use ok mp_invD(1) [OF inv] in auto)

section \<open>Allocation keeps the invariant\<close>

text \<open>What a caller may rely on: the block is as long as requested behind its header, it lies apart
  from every other block, and nothing else in the heap changes.\<close>

lemma block_ok_reuse:
  assumes "mp_inv mp" and "heap mp a = Some b" and "header_ok n (block_size b)"
  shows "block_ok a (granted (block_size b) n) mp"
proof -
  have "a \<noteq> 0" using assms(2) mp_invD(4) [OF assms(1)] by (cases "a = 0") simp_all
  moreover have "n \<noteq> 0" using assms(3) by (auto simp: header_ok_def)
  ultimately show ?thesis
    using assms mp_invD(5) [OF assms(1,2)] by (auto simp: block_ok_def)
qed

lemma block_ok_fresh:
  assumes "malloc_ok malloc" and "malloc (heap mp) bs = Some (a, junk)" and "header_ok n bs"
  shows "block_ok a (granted bs n) mp \<and> heap mp a = None"
proof -
  have "n \<noteq> 0" using assms(3) by (auto simp: header_ok_def)
  moreover have "a \<noteq> 0" "heap mp a = None"
    "\<And>a' b'. heap mp a' = Some b' \<Longrightarrow> a + bs \<le> a' \<or> a' + block_size b' \<le> a"
    using assms(1,2) unfolding malloc_ok_def by blast+
  ultimately show ?thesis using assms(3) by (simp add: block_ok_def apart_def)
qed

lemma header_ok_small: "0 < sint n \<Longrightarrow> sint n \<le> 3840 \<Longrightarrow> header_ok n (size_class (nat (sint n)))"
  by (simp add: header_ok_def size_class_ge)

lemma header_ok_large: "4096 < sint n \<Longrightarrow> header_ok n (unat n)"
  using sint_le_unat [of n] by (simp add: header_ok_def MAX_ALLOC_SIZE_def)

lemma Allocate_cases:
  assumes inv: "mp_inv mp" and mal: "malloc_ok malloc" and res: "Allocate malloc sz mp = Inr (ptr, mp')"
  obtains a bs where "ptr = a + 16" and "block_ok a (granted bs (request sz)) mp"
    and "header_ok (request sz) bs" and "heap mp' = (heap mp)(a \<mapsto> granted bs (request sz))"
    and "mp_inv mp'" and "heap mp a = None \<or> (\<exists>p < 47. is_free p (heap mp a))"
proof -
  note table = mp_invD(1) [OF inv]
  consider "4096 < sint (request sz)" | "0 < sint (request sz)" "sint (request sz) \<le> 3840"
    using Allocate_faults [OF table, of sz malloc] res by fastforce
  then show thesis
  proof cases
    case 1
    then obtain a junk where m: "malloc (heap mp) (unat (request sz)) = Some (a, junk)"
      "ptr = a + 16" "mp' = grant a (unat (request sz)) (request sz) mp"
      using res by (auto simp: Allocate_large split: option.splits)
    note ok = block_ok_fresh [OF mal m(1) header_ok_large [OF 1]]
    with m 1 header_ok_large [OF 1] show thesis
      by (intro that [of a "unat (request sz)"]) (auto intro: grant_large_inv [OF inv])
  next
    case 2
    define p where "p = class_index (nat (sint (request sz)))"
    have p: "p < 47" "boundaries ! p = size_class (nat (sint (request sz)))"
      using class_index_size [of "nat (sint (request sz))"] 2 by (auto simp: p_def)
    note hok = header_ok_small [OF 2, folded p(2)]
    show thesis
    proof (cases "free_list mp p")
      case Nil
      then obtain a junk where m: "malloc (heap mp) (boundaries ! p) = Some (a, junk)"
        "ptr = a + 16" "mp' = grant a (boundaries ! p) (request sz) (take_from_pool p [] mp)"
        using res by (auto simp: Allocate_small [OF inv 2 p_def] split: option.splits)
      note ok = block_ok_fresh [OF mal m(1) hok]
      with m Nil hok show thesis
        by (intro that [of a "boundaries ! p"]) (auto intro: grant_small_inv [OF inv 2 p_def])
    next
      case (Cons a rest)
      then have m: "ptr = a + 16"
        "mp' = grant a (boundaries ! p) (request sz) (take_from_pool p rest mp)"
        using res by (auto simp: Allocate_small [OF inv 2 p_def])
      have "is_free p (heap mp a)" using Cons free_list_is_free [OF inv p(1)] by auto
      then obtain b where b: "heap mp a = Some b" "block_size b = boundaries ! p"
        by (auto simp: is_free_def split: option.splits)
      have ok: "block_ok a (granted (boundaries ! p) (request sz)) mp"
        using block_ok_reuse [OF inv b(1)] hok b(2) by simp
      with m Cons hok p(1) \<open>is_free p (heap mp a)\<close> show thesis
        by (intro that [of a "boundaries ! p"]) (auto intro: grant_small_inv [OF inv 2 p_def])
    qed
  qed
qed

section \<open>Deallocation\<close>

definition released :: "LONG \<Rightarrow> block \<Rightarrow> block" where
  "released extraInfo b = b\<lparr>block_header := \<lparr>hdr_mAllocSize = 0, hdr_mExtraInfo = extraInfo\<rparr>\<rparr>"

lemma released_simps [simp]: "block_size (released x b) = block_size b"
  "hdr_mAllocSize (block_header (released x b)) = 0"
  by (simp_all add: released_def)

definition give_back :: "LONG \<Rightarrow> nat \<Rightarrow> block \<Rightarrow> nat \<Rightarrow> MemoryPool \<Rightarrow> MemoryPool" where
  "give_back extraInfo a b p mp =
     mp\<lparr>heap := (heap mp)(a \<mapsto> released extraInfo b),
        pools := (pools mp)[p := SmallSizeMemoryPool_Push a (pools mp ! p)]\<rparr>"

lemma give_back_simps [simp]:
  "heap (give_back x a b p mp) = (heap mp)(a \<mapsto> released x b)"
  "mSmallSizeMemoryPoolTable (give_back x a b p mp) = mSmallSizeMemoryPoolTable mp"
  "map pool_mAllocSize (pools (give_back x a b p mp)) = map pool_mAllocSize (pools mp)"
  by (simp_all add: give_back_def map_update_same SmallSizeMemoryPool_Push_def)

lemma give_back_nth:
  assumes "length (pools mp) = 47" and "p < 47"
  shows "free_list (give_back x a b p mp) q = (if q = p then a # free_list mp q else free_list mp q)"
    and "pool_mAllocCount (pools (give_back x a b p mp) ! q) =
      pool_mAllocCount (pools mp ! q) - (if q = p then 1 else 0)"
  using assms by (simp_all add: give_back_def free_list_def SmallSizeMemoryPool_Push_def)

lemma Deallocate_branches:
  assumes inv: "mp_inv mp" and b: "heap mp a = Some b" "hdr_mAllocSize (block_header b) = n"
  shows "n = 0 \<Longrightarrow> Deallocate x (a + 16) mp = Inl CrashAssert"
    and "n \<noteq> 0 \<Longrightarrow> Deallocate x (a + 16) mp =
      Inr (if sint n > 4096 then mp\<lparr>heap := (heap mp)(a := None)\<rparr>
           else give_back x a b (class_index (nat (sint n))) mp)"
proof -
  show "Deallocate x (a + 16) mp = Inl CrashAssert" if "n = 0"
    using b that by (simp add: Deallocate_def DetachMemAllocInfo_def sizeof_MemAllocInfo_def
        load_header_def store_header_def)
  assume "n \<noteq> 0"
  with mp_invD(6) [OF inv b(1)] b(2) have "header_ok n (block_size b)" by simp
  then have "0 < sint n" "sint n \<le> 4096 \<Longrightarrow> pool_at n mp = Inr (class_index (nat (sint n)))"
    by (auto simp: header_ok_def MAX_ALLOC_SIZE_def pool_at_table [OF mp_invD(1) [OF inv]])
  then show "Deallocate x (a + 16) mp =
      Inr (if sint n > 4096 then mp\<lparr>heap := (heap mp)(a := None)\<rparr>
           else give_back x a b (class_index (nat (sint n))) mp)"
    using b by (simp add: Deallocate_def DetachMemAllocInfo_def sizeof_MemAllocInfo_def Let_def
        load_header_def store_header_def MAX_ALLOC_SIZE_def give_back_def released_def)
qed

lemma unmap_large_inv:
  assumes inv: "mp_inv mp" and b: "heap mp a = Some b" "4096 < sint (hdr_mAllocSize (block_header b))"
  shows "mp_inv (mp\<lparr>heap := (heap mp)(a := None)\<rparr>)" (is "mp_inv ?mp")
proof (rule change_block_inv [OF inv, where a = a and ob = None])
  note table = mp_invD(1) [OF inv]
  have fl: "free_list ?mp p = free_list mp p" for p by (simp add: free_list_def)
  fix p :: nat assume p: "p < 47"
  have "{x. is_free p (heap ?mp x)} = {x. is_free p (heap mp x)}"
    using b by (auto simp: is_free_def)
  then show "distinct (free_list ?mp p) \<and> set (free_list ?mp p) = {x. is_free p (heap ?mp x)}"
    using mp_invD(7) [OF inv p] free_list_is_free [OF inv p] by (simp add: fl)
  have "{x. is_live p (heap ?mp x)} = {x. is_live p (heap mp x)}"
    using b by (auto simp: is_live_def)
  then show "pool_mAllocCount (pools ?mp ! p) = of_nat (card (pool_live ?mp p))"
    using mp_invD(10) [OF inv p] table by (simp add: pool_live_is_live)
qed (use mp_invD(1) [OF inv] in auto)

lemma give_back_inv:
  assumes inv: "mp_inv mp" and b: "heap mp a = Some b" and n: "hdr_mAllocSize (block_header b) = n"
    and small: "n \<noteq> 0" "sint n \<le> 4096" and p: "p = class_index (nat (sint n))"
  shows "mp_inv (give_back x a b p mp)" (is "mp_inv ?mp")
proof (rule change_block_inv [OF inv, where a = a and ob = "Some (released x b)"])
  note table = mp_invD(1) [OF inv]
  have hok: "header_ok n (block_size b)" using mp_invD(6) [OF inv b] n small by simp
  then have s: "0 < sint n" "sint n \<le> 3840" "block_size b = size_class (nat (sint n))"
    using small(2) by (auto simp: header_ok_def MAX_ALLOC_SIZE_def)
  then have p47: "p < 47" and bs: "block_size b = boundaries ! p"
    using class_index_size [of "nat (sint n)"] p by auto
  note nths = give_back_nth [OF length_pools [OF inv] p47]
  have live_a: "is_live q (heap mp a) \<longleftrightarrow> q = p" for q using b n s p by (auto simp: is_live_def)
  show "block_ok a c mp" if "Some (released x b) = Some c" for c
  proof -
    have "a \<noteq> 0" using b mp_invD(4) [OF inv] by (cases "a = 0") simp_all
    then show ?thesis
      using that mp_invD(5) [OF inv b] size_class_boundary [of "nat (sint n)"] s
      by (auto simp: block_ok_def)
  qed
  fix q :: nat assume q: "q < 47"
  have dist: "distinct (free_list mp q)" and set: "set (free_list mp q) = {x. is_free q (heap mp x)}"
    using mp_invD(7) [OF inv q] free_list_is_free [OF inv q] by simp_all
  have a_notin: "a \<notin> set (free_list mp q)" using set live_a [of p] free_not_live by auto
  have "is_free q (Some (released x b)) \<longleftrightarrow> q = p"
    using bs boundaries_inj [OF q p47] by (auto simp: is_free_def)
  then show "distinct (free_list ?mp q) \<and> set (free_list ?mp q) = {x. is_free q (heap ?mp x)}"
    using dist set a_notin by (auto simp: nths)
  have "pool_live ?mp q = pool_live mp q - {a}"
    by (auto simp: table pool_live_is_live is_live_def)
  moreover have "a \<in> pool_live mp q \<longleftrightarrow> q = p" by (simp add: table pool_live_is_live live_a)
  ultimately show "pool_mAllocCount (pools ?mp ! q) = of_nat (card (pool_live ?mp q))"
    using mp_invD(10) [OF inv q] finite_pool_live [OF inv, of q]
    by (simp add: nths of_nat_card_remove)
qed (use mp_invD(1) [OF inv] in auto)

lemma live_iff: "ptr \<in> live mp \<longleftrightarrow>
    (\<exists>a b. ptr = a + 16 \<and> heap mp a = Some b \<and> hdr_mAllocSize (block_header b) \<noteq> 0)"
  by (auto simp: live_def live_blocks_def sizeof_MemAllocInfo_def)

definition in_use :: "block option \<Rightarrow> bool" where
  "in_use ob \<longleftrightarrow> (case ob of None \<Rightarrow> False | Some b \<Rightarrow> hdr_mAllocSize (block_header b) \<noteq> 0)"

lemma live_in_use: "ptr \<in> live mp \<longleftrightarrow> 16 \<le> ptr \<and> in_use (heap mp (ptr - 16))"
  by (auto simp: live_iff in_use_def split: option.splits intro!: exI [of _ "ptr - 16"])

lemma live_update:
  assumes "heap mp' = (heap mp)(a := ob)"
  shows "live mp' = (if in_use ob then insert (a + 16) (live mp) else live mp - {a + 16})"
proof (rule set_eqI)
  fix x
  have "x = a + 16 \<longleftrightarrow> 16 \<le> x \<and> x - 16 = a" by auto
  then show "x \<in> live mp' \<longleftrightarrow> x \<in> (if in_use ob then insert (a + 16) (live mp) else live mp - {a + 16})"
    by (auto simp: live_in_use assms)
qed

lemma Deallocate_live:
  assumes inv: "mp_inv mp" and ptr: "ptr \<in> live mp"
  shows "\<exists>mp'. Deallocate x ptr mp = Inr mp' \<and> mp_inv mp' \<and> live mp' = live mp - {ptr}"
proof -
  obtain a b where b: "ptr = a + 16" "heap mp a = Some b" "hdr_mAllocSize (block_header b) \<noteq> 0"
    using ptr by (auto simp: live_iff)
  define n where "n = hdr_mAllocSize (block_header b)"
  have n: "hdr_mAllocSize (block_header b) = n" "n \<noteq> 0" using b(3) by (simp_all add: n_def)
  note res = Deallocate_branches(2) [OF inv b(2) n, of x]
  show ?thesis
  proof (cases "4096 < sint n")
    case True
    moreover have "live (mp\<lparr>heap := (heap mp)(a := None)\<rparr>) = live mp - {ptr}"
      by (subst live_update [where mp = mp and a = a]) (auto simp: b(1) in_use_def)
    ultimately show ?thesis
      using res b(1) unmap_large_inv [OF inv b(2)] n(1) by auto
  next
    case False
    moreover have "live (give_back x a b (class_index (nat (sint n))) mp) = live mp - {ptr}"
      by (subst live_update [where mp = mp and a = a]) (auto simp: b(1) in_use_def)
    ultimately show ?thesis
      using res b(1) give_back_inv [OF inv b(2) n] by auto
  qed
qed

lemma Allocate_live:
  assumes "mp_inv mp" and "malloc_ok malloc" and "Allocate malloc sz mp = Inr (ptr, mp')"
  shows "mp_inv mp' \<and> ptr \<notin> live mp \<and> live mp' = insert ptr (live mp)"
proof (rule Allocate_cases [OF assms])
  fix a bs
  assume a: "ptr = a + 16" "block_ok a (granted bs (request sz)) mp" "header_ok (request sz) bs"
    "heap mp' = (heap mp)(a \<mapsto> granted bs (request sz))" "mp_inv mp'"
    "heap mp a = None \<or> (\<exists>p < 47. is_free p (heap mp a))"
  have "request sz \<noteq> 0" using a(3) by (auto simp: header_ok_def)
  moreover have "ptr \<notin> live mp" using a(1,6) by (auto simp: live_iff is_free_def)
  ultimately show ?thesis using a(1,5) live_update [OF a(4)] by (simp add: in_use_def)
qed

text \<open>The pool together with its backing allocator is an allocator of blocks of any size.\<close>

interpretation mpool: allocator "\<lambda>(malloc, mp). malloc_ok malloc \<and> mp_inv mp" "\<lambda>(malloc, mp). live mp"
  "\<lambda>(malloc, mp). bindR (Allocate malloc sz mp) (\<lambda>(p, mp'). Inr (p, (malloc, mp')))"
  "\<lambda>p (malloc, mp). bindR (Deallocate x p mp) (\<lambda>mp'. Inr (malloc, mp'))" for sz x
proof
  fix s p s'
  assume "case s of (malloc, mp) \<Rightarrow> malloc_ok malloc \<and> mp_inv mp"
    "(case s of (malloc, mp) \<Rightarrow> bindR (Allocate malloc sz mp) (\<lambda>(p, mp'). Inr (p, (malloc, mp')))) = Inr (p, s')"
  then show "(case s' of (malloc, mp) \<Rightarrow> malloc_ok malloc \<and> mp_inv mp) \<and>
      p \<notin> (case s of (malloc, mp) \<Rightarrow> live mp) \<and>
      (case s' of (malloc, mp) \<Rightarrow> live mp) = insert p (case s of (malloc, mp) \<Rightarrow> live mp)"
    using Allocate_live by (auto simp: bindR_Inr_iff split: prod.splits)
next
  fix s p
  assume "case s of (malloc, mp) \<Rightarrow> malloc_ok malloc \<and> mp_inv mp" "p \<in> (case s of (malloc, mp) \<Rightarrow> live mp)"
  then show "\<exists>s'. (case s of (malloc, mp) \<Rightarrow> bindR (Deallocate x p mp) (\<lambda>mp'. Inr (malloc, mp'))) = Inr s' \<and>
      (case s' of (malloc, mp) \<Rightarrow> malloc_ok malloc \<and> mp_inv mp) \<and>
      (case s' of (malloc, mp) \<Rightarrow> live mp) = (case s of (malloc, mp) \<Rightarrow> live mp) - {p}"
    using Deallocate_live [of _ p x] by (fastforce split: prod.splits)
qed

section \<open>States the pool can reach\<close>

inductive pool_reachable :: "malloc_fn \<Rightarrow> MemoryPool \<Rightarrow> bool" for malloc where
  init: "MemoryPool_new Map.empty = Inr mp \<Longrightarrow> pool_reachable malloc mp"
| allocate: "pool_reachable malloc mp \<Longrightarrow> Allocate malloc sz mp = Inr (ptr, mp') \<Longrightarrow> pool_reachable malloc mp'"
| deallocate: "pool_reachable malloc mp \<Longrightarrow> ptr \<in> live mp \<Longrightarrow> Deallocate x ptr mp = Inr mp' \<Longrightarrow>
    pool_reachable malloc mp'"

lemma MemoryPool_new_inv: "MemoryPool_new Map.empty = Inr mp \<Longrightarrow> mp_inv mp \<and> live mp = {}"
proof -
  assume "MemoryPool_new Map.empty = Inr mp"
  then have mp: "mp = \<lparr>mSmallSizeMemoryPoolTable = pool_table, pools = map fresh_pool boundaries,
      heap = Map.empty\<rparr>" by (simp add: MemoryPool_new_eq)
  have "pool_live mp p = {}" for p by (simp add: pool_live_def mp)
  moreover have "free_list mp p = [] \<and> pool_mAllocCount (pools mp ! p) = 0" if "p < 47" for p
    using that by (simp add: mp free_list_def boundaries_facts(2) fresh_pool_def)
  moreover have "map pool_mAllocSize (pools mp) = map of_nat boundaries"
    by (simp add: mp fresh_pool_def)
  ultimately show ?thesis by (simp add: mp_inv_def mp live_def live_blocks_def)
qed

lemma pool_reachable_inv: "pool_reachable malloc mp \<Longrightarrow> malloc_ok malloc \<Longrightarrow> mp_inv mp"
proof (induction rule: pool_reachable.induct)
  case (init mp)
  then show ?case using MemoryPool_new_inv by blast
next
  case (allocate mp sz ptr mp')
  then show ?case using Allocate_live by blast
next
  case (deallocate mp ptr x mp')
  then show ?case using Deallocate_live [of mp ptr x] by auto
qed

text \<open>A concrete backing allocator, for examples: four regions of 8192 bytes, one block each.\<close>

definition region_free :: "process_heap \<Rightarrow> nat \<Rightarrow> bool" where
  "region_free h i \<longleftrightarrow>
     (\<forall>a < 8192 * (i + 1). case h a of None \<Rightarrow> True
        | Some b \<Rightarrow> a < 8192 * i + 8 \<and> a + block_size b \<le> 8192 * i + 8)"

definition region_malloc :: malloc_fn where
  "region_malloc h n =
     (if n \<le> 8184 then map_option (\<lambda>i. (8192 * i + 8, MemAllocInfo_new 77)) (find (region_free h) [0, 1, 2, 3])
      else None)"

lemma region_malloc_ok: "malloc_ok region_malloc"
  unfolding malloc_ok_def
proof (intro allI impI)
  fix h n a junk
  assume "region_malloc h n = Some (a, junk)"
  then obtain i where i: "a = 8192 * i + 8" "n \<le> 8184" "region_free h i"
    by (auto simp: region_malloc_def find_Some_iff split: if_splits)
  have "h a = None" using i(1,3) by (cases "h a") (auto simp: region_free_def dest!: spec [of _ a])
  moreover have "a + n \<le> a' \<or> a' + block_size b \<le> a" if "h a' = Some b" for a' b
  proof (cases "a' < 8192 * (i + 1)")
    case True
    then show ?thesis using i(1,3) that by (fastforce simp: region_free_def)
  qed (use i in auto)
  ultimately show "a \<noteq> 0 \<and> h a = None \<and> (\<forall>a' b. h a' = Some b \<longrightarrow> a + n \<le> a' \<or> a' + block_size b \<le> a)"
    using i(1) by auto
qed

lemma region_malloc_empty: "n \<le> 8184 \<Longrightarrow> region_malloc Map.empty n = Some (8, MemAllocInfo_new 77)"
  by (simp add: region_malloc_def region_free_def)

definition fresh_mp :: MemoryPool where
  "fresh_mp = \<lparr>mSmallSizeMemoryPoolTable = pool_table, pools = map fresh_pool boundaries, heap = Map.empty\<rparr>"

lemma fresh_mp: "MemoryPool_new Map.empty = Inr fresh_mp" "mp_inv fresh_mp" "live fresh_mp = {}"
  "pool_reachable malloc fresh_mp"
  using MemoryPool_new_eq [of Map.empty] MemoryPool_new_inv [of fresh_mp] pool_reachable.init [of fresh_mp]
  by (simp_all add: fresh_mp_def)

lemma class_index_116: "class_index 116 = 3" "boundaries ! 3 = 128"
  by (simp_all add: class_index_def boundaries_eq)

definition one_block_mp :: MemoryPool where
  "one_block_mp = grant 8 128 116 (take_from_pool 3 [] fresh_mp)"

lemma Allocate_first: "Allocate region_malloc 100 fresh_mp = Inr (24, one_block_mp)"
proof -
  have "free_list fresh_mp 3 = []"
    by (simp add: free_list_def fresh_mp_def boundaries_facts(2) fresh_pool_def)
  moreover have "request 100 = 116" by (simp add: request_def sizeof_MemAllocInfo_def)
  moreover have "heap fresh_mp = Map.empty" by (simp add: fresh_mp_def)
  ultimately show ?thesis
    using Allocate_small [OF fresh_mp(2), of 100 3 region_malloc] region_malloc_empty [of 128]
    by (simp add: class_index_116 one_block_mp_def)
qed

lemma one_block_mp: "mp_inv one_block_mp" "live one_block_mp = {24}" "pool_reachable region_malloc one_block_mp"
  using Allocate_live [OF fresh_mp(2) region_malloc_ok Allocate_first] fresh_mp(3)
    pool_reachable.allocate [OF fresh_mp(4) Allocate_first] by simp_all

section \<open>Properties of the memory pool\<close>

lemma sint_request: "sint (request sz) = signed_take_bit 31 (sint sz + 16)"
  by (simp add: request_def sizeof_MemAllocInfo_def sint_word_add)

lemma request_no_wrap: "0 < sint (request sz) \<Longrightarrow> sint sz + 16 = sint (request sz)"
  using signed_take_bit_int_less_eq [of 31 "sint sz + 16"] sint_range [of sz]
  by (cases "sint sz + 16 < 2 ^ 31") (simp_all add: sint_request signed_take_bit_int_eq_self)

text \<open>C7: Whenever \<open>Allocate\<close> returns, the block behind the pointer is at least the requested size
  beyond its header, was not in use, overlaps no other block of the heap, and becomes the only
  additional block in use.\<close>

theorem Allocate_gives_private_block:
  assumes "pool_reachable malloc mp" and "malloc_ok malloc" and "Allocate malloc sz mp = Inr (ptr, mp')"
  shows "\<exists>b. heap mp' (DetachMemAllocInfo ptr) = Some b \<and>
    sint sz + int sizeof_MemAllocInfo \<le> int (block_size b) \<and> ptr \<notin> live mp \<and> live mp' = insert ptr (live mp) \<and>
    (\<forall>a' b'. heap mp' a' = Some b' \<and> a' \<noteq> DetachMemAllocInfo ptr \<longrightarrow>
       apart (DetachMemAllocInfo ptr) (block_size b) a' (block_size b'))"
proof -
  note inv = pool_reachable_inv [OF assms(1,2)]
  obtain a bs where a: "ptr = a + 16" "block_ok a (granted bs (request sz)) mp" "header_ok (request sz) bs"
    "heap mp' = (heap mp)(a \<mapsto> granted bs (request sz))"
    using Allocate_cases [OF inv assms(2,3)] by metis
  have "sint sz + 16 \<le> int bs"
    using a(3) request_no_wrap [of sz] by (auto simp: header_ok_def)
  then show ?thesis
    using a Allocate_live [OF inv assms(2,3)]
    by (intro exI [of _ "granted bs (request sz)"])
      (auto simp: DetachMemAllocInfo_def sizeof_MemAllocInfo_def block_ok_def)
qed

theorem Allocate_gives_private_block_witness:
  "\<exists>b. heap one_block_mp (DetachMemAllocInfo 24) = Some b \<and> 116 \<le> block_size b \<and>
     live one_block_mp = insert 24 (live fresh_mp)"
  using Allocate_gives_private_block [OF fresh_mp(4) region_malloc_ok Allocate_first]
  by (auto simp: sizeof_MemAllocInfo_def)

lemma request_cases:
  "- 16 \<le> sint sz \<Longrightarrow> sint sz < 2 ^ 31 - 16 \<Longrightarrow> sint (request sz) = sint sz + 16"
  "sint sz < - 16 \<or> 2 ^ 31 - 16 \<le> sint sz \<Longrightarrow> sint (request sz) < 0"
proof -
  show "sint (request sz) = sint sz + 16" if "- 16 \<le> sint sz" "sint sz < 2 ^ 31 - 16"
    using that by (simp add: sint_request signed_take_bit_int_eq_self)
  have "sint (request sz) = sint sz + 16" if "sint sz < - 16"
    using that sint_range [of sz] by (simp add: sint_request signed_take_bit_int_eq_self)
  moreover have "sint (request sz) = sint sz + 16 - 2 ^ 32" if big: "2 ^ 31 - 16 \<le> sint sz"
  proof -
    have "(2147483664 + sint sz) mod 4294967296 = (sint sz - 2147483632) mod 4294967296"
      using mod_add_self2 [of "sint sz - 2147483632" 4294967296] by (simp add: add.commute)
    also have "\<dots> = sint sz - 2147483632" using big sint_range [of sz] by (intro mod_pos_pos_trivial) simp_all
    finally show ?thesis by (simp add: sint_request signed_take_bit_eq_take_bit_shift take_bit_eq_mod)
  qed
  ultimately show "sint (request sz) < 0" if "sint sz < - 16 \<or> 2 ^ 31 - 16 \<le> sint sz"
    using that sint_range [of sz] by auto
qed

text \<open>C22: For every 32-bit size, with memory to spare, what \<open>Allocate\<close> does is decided by the size alone. Adding the header makes the
  sizes below -16 and, by overflow, those above 2147483631 negative: the table is read out of bounds. For -16 and
  for 3825 to 4080 the table entry was never filled by the constructor, and a null pool is dereferenced. For every
  other size (also -15 to -1) a block is returned.\<close>

theorem Allocate_returns_unless_unpooled:
  assumes "pool_reachable malloc mp" and "malloc_ok malloc"
    and "malloc (heap mp) (unat (request sz)) \<noteq> None"
    and "malloc (heap mp) (size_class (nat (sint (request sz)))) \<noteq> None"
  shows "if sint sz < - 16 \<or> 2 ^ 31 - 16 \<le> sint sz then Allocate malloc sz mp = Inl OutOfBounds
    else if sint sz = - 16 \<or> 3825 \<le> sint sz \<and> sint sz \<le> 4080 then Allocate malloc sz mp = Inl NullDeref
    else \<exists>ptr mp'. Allocate malloc sz mp = Inr (ptr, mp')"
proof -
  note inv = pool_reachable_inv [OF assms(1,2)]
  note faults = Allocate_faults [OF mp_invD(1) [OF inv], of sz]
  consider "sint sz < - 16 \<or> 2 ^ 31 - 16 \<le> sint sz"
    | "sint sz = - 16 \<or> 3825 \<le> sint sz \<and> sint sz \<le> 4080" | "4080 < sint sz" "sint sz < 2 ^ 31 - 16"
    | "- 16 < sint sz" "sint sz \<le> 3824" by linarith
  then show ?thesis
  proof cases
    case 1
    then show ?thesis using faults(1) request_cases(2) [OF 1] by simp
  next
    case 2
    then show ?thesis using faults(2,3) request_cases(1) [of sz] by auto
  next
    case 3
    then have "4096 < sint (request sz)" using request_cases(1) [of sz] by simp
    then show ?thesis using 3 assms(3) by (auto simp: Allocate_large)
  next
    case 4
    then have n: "0 < sint (request sz)" "sint (request sz) \<le> 3840" using request_cases(1) [of sz] by simp_all
    then show ?thesis
      using 4 assms(4) class_index_size [of "nat (sint (request sz))"]
      by (auto simp: Allocate_small [OF inv n refl] split: list.splits)
  qed
qed

theorem Allocate_returns_unless_unpooled_witness:
  "Allocate region_malloc 4000 fresh_mp = Inl NullDeref \<and>
   (\<exists>ptr mp'. Allocate region_malloc 3000 fresh_mp = Inr (ptr, mp'))"
proof -
  have h: "heap fresh_mp = Map.empty" by (simp add: fresh_mp_def)
  show ?thesis
    using Allocate_returns_unless_unpooled [OF fresh_mp(4) region_malloc_ok, of 4000]
      Allocate_returns_unless_unpooled [OF fresh_mp(4) region_malloc_ok, of 3000]
    by (simp add: h region_malloc_empty request_def sizeof_MemAllocInfo_def size_class_def)
qed

text \<open>C15: Deallocating a block in use succeeds, gives up exactly that block, and touches no other block's header. What a second
  deallocation of the same pointer does depends on the size: a pooled block keeps its header, whose size is now 0, and
  the assertion catches it; a block above 4096 bytes has been returned to the system, and the second call reads memory that is
  no longer there.\<close>

theorem Deallocate_gives_up_block:
  assumes "pool_reachable malloc mp" and "malloc_ok malloc" and "ptr \<in> live mp"
  shows "\<exists>mp' b. Deallocate x ptr mp = Inr mp' \<and> pool_reachable malloc mp' \<and> live mp' = live mp - {ptr} \<and>
    (\<forall>a. a \<noteq> DetachMemAllocInfo ptr \<longrightarrow> heap mp' a = heap mp a) \<and> heap mp (DetachMemAllocInfo ptr) = Some b \<and>
    Deallocate y ptr mp' = Inl (if sint (hdr_mAllocSize (block_header b)) > MAX_ALLOC_SIZE then OutOfBounds else CrashAssert)"
proof -
  note inv = pool_reachable_inv [OF assms(1,2)]
  obtain a b where b: "ptr = a + 16" "heap mp a = Some b" "hdr_mAllocSize (block_header b) \<noteq> 0"
    using assms(3) by (auto simp: live_iff)
  define n where "n = sint (hdr_mAllocSize (block_header b))"
  obtain mp' where mp': "Deallocate x ptr mp = Inr mp'" "mp_inv mp'" "live mp' = live mp - {ptr}"
    using Deallocate_live [OF inv assms(3)] by blast
  have heap': "heap mp' = (if n > 4096 then (heap mp)(a := None) else (heap mp)(a := Some (released x b)))"
    using Deallocate_branches(2) [OF inv b(2) refl b(3), of x] mp'(1) b(1) by (auto simp: n_def)
  have det: "DetachMemAllocInfo ptr = a" by (simp add: b(1) DetachMemAllocInfo_def sizeof_MemAllocInfo_def)
  have "Deallocate y ptr mp' = Inl (if n > MAX_ALLOC_SIZE then OutOfBounds else CrashAssert)"
  proof (cases "n > 4096")
    case True
    then show ?thesis using heap' by (simp add: Deallocate_def det load_header_def MAX_ALLOC_SIZE_def)
  next
    case False
    then show ?thesis
      using Deallocate_branches(1) [OF mp'(2), of a "released x b" 0 y] b(1) heap' by (simp add: MAX_ALLOC_SIZE_def)
  qed
  moreover have "\<forall>a'. a' \<noteq> a \<longrightarrow> heap mp' a' = heap mp a'" using heap' by auto
  ultimately show ?thesis
    using mp' pool_reachable.deallocate [OF assms(1,3) mp'(1)] b(2)
    by (intro exI [of _ mp'] exI [of _ b]) (simp add: det n_def)
qed

theorem Deallocate_gives_up_block_witness:
  "\<exists>mp'. Deallocate 84 24 one_block_mp = Inr mp' \<and> live mp' = {} \<and> Deallocate 84 24 mp' = Inl CrashAssert"
proof -
  have b: "heap one_block_mp (DetachMemAllocInfo 24) = Some (granted 128 116)"
    by (simp add: one_block_mp_def DetachMemAllocInfo_def sizeof_MemAllocInfo_def)
  obtain mp' b where "Deallocate 84 24 one_block_mp = Inr mp'" "live mp' = live one_block_mp - {24}"
    "heap one_block_mp (DetachMemAllocInfo 24) = Some b"
    "Deallocate 84 24 mp' = Inl (if sint (hdr_mAllocSize (block_header b)) > MAX_ALLOC_SIZE then OutOfBounds else CrashAssert)"
    using Deallocate_gives_up_block [OF one_block_mp(3) region_malloc_ok, of 24 84 84] one_block_mp(2) by auto
  with b show ?thesis using one_block_mp(2) by (auto simp: MAX_ALLOC_SIZE_def MemAllocInfo_new_def)
qed

text \<open>C30: A pooled block that was just given back is what the next request of its size class
  gets, whatever the backing allocator would do.\<close>

theorem freed_block_is_reused:
  assumes "pool_reachable malloc mp" and "malloc_ok malloc"
    and "heap mp a = Some b" and "hdr_mAllocSize (block_header b) = n" and "0 < sint n" and "sint n \<le> 3840"
    and "Deallocate x (a + sizeof_MemAllocInfo) mp = Inr mp1"
    and "0 < sint (request sz)" and "sint (request sz) \<le> 3840"
    and "size_class (nat (sint (request sz))) = size_class (nat (sint n))"
  shows "\<exists>mp2. Allocate malloc' sz mp1 = Inr (a + sizeof_MemAllocInfo, mp2) \<and> live mp2 = live mp"
proof -
  note inv = pool_reachable_inv [OF assms(1,2)]
  define p where "p = class_index (nat (sint n))"
  have n0: "n \<noteq> 0" using assms(5) by auto
  have p47: "p < 47" using class_index_size [of "nat (sint n)"] assms(5,6) by (simp add: p_def)
  have p: "p = class_index (nat (sint (request sz)))"
    using class_index_size [of "nat (sint n)"] class_index_size [of "nat (sint (request sz))"]
      assms(5,6,8,9,10) boundaries_inj by (simp add: p_def)
  have mp1: "mp1 = give_back x a b p mp"
    using Deallocate_branches(2) [OF inv assms(3,4) n0, of x] assms(6,7)
    by (simp add: sizeof_MemAllocInfo_def p_def)
  have inv1: "mp_inv mp1"
    using give_back_inv [OF inv assms(3,4) n0 _ p_def] assms(6) by (simp add: mp1)
  have "free_list mp1 p = a # free_list mp p"
    using give_back_nth(1) [OF length_pools [OF inv] p47] by (simp add: mp1)
  then have al: "Allocate malloc' sz mp1 =
      Inr (a + 16, grant a (boundaries ! p) (request sz) (take_from_pool p (free_list mp p) mp1))"
    by (simp add: Allocate_small [OF inv1 assms(8,9) p])
  have "request sz \<noteq> 0" using assms(8) by auto
  moreover have "heap (grant a (boundaries ! p) (request sz) (take_from_pool p (free_list mp p) mp1)) =
      (heap mp)(a := Some (granted (boundaries ! p) (request sz)))" by (simp add: mp1)
  ultimately have "live (grant a (boundaries ! p) (request sz) (take_from_pool p (free_list mp p) mp1)) =
      insert (a + 16) (live mp)" by (subst live_update) (auto simp: in_use_def)
  moreover have "a + 16 \<in> live mp" using assms(3,4) n0 by (simp add: live_iff)
  ultimately show ?thesis using al by (auto simp: sizeof_MemAllocInfo_def)
qed

theorem freed_block_is_reused_witness:
  "\<exists>mp1 mp2. Deallocate 84 24 one_block_mp = Inr mp1 \<and>
     Allocate (\<lambda>h n. None) 90 mp1 = Inr (24, mp2) \<and> live mp2 = {24}"
proof -
  have h: "heap one_block_mp 8 = Some (granted 128 116)" by (simp add: one_block_mp_def)
  then obtain mp1 where d: "Deallocate 84 24 one_block_mp = Inr mp1"
    using Deallocate_branches(2) [OF one_block_mp(1), of 8 "granted 128 116" 116 84] by auto
  have "\<exists>mp2. Allocate (\<lambda>h n. None) 90 mp1 = Inr (8 + sizeof_MemAllocInfo, mp2) \<and> live mp2 = live one_block_mp"
    by (rule freed_block_is_reused [OF one_block_mp(3) region_malloc_ok h, where n = 116 and x = 84])
      (use d in \<open>simp_all add: request_def sizeof_MemAllocInfo_def size_class_def\<close>)
  then show ?thesis using d one_block_mp(2) by (auto simp: sizeof_MemAllocInfo_def)
qed

text \<open>C31: The constructor succeeds and builds a table in which the entry of every size from 1 to 3840
  leads to the pool of the least size class that fits; it makes 47 pools, one fewer than
  \<open>MAX_SMALL_POOL_COUNT\<close>, and leaves the entries from 3841 to 4096 null.\<close>

theorem MemoryPool_table_rounds_up:
  "\<exists>mp. MemoryPool_new h = Inr mp \<and> heap mp = h \<and> length (pools mp) + 1 = MAX_SMALL_POOL_COUNT \<and>
     (\<forall>n \<le> 4096. case mSmallSizeMemoryPoolTable mp ! n of
        None \<Rightarrow> n = 0 \<or> 3840 < n
      | Some p \<Rightarrow> p < length (pools mp) \<and> n \<le> unat (pool_mAllocSize (pools mp ! p)) \<and>
          unat (pool_mAllocSize (pools mp ! p)) = size_class n \<and>
          (\<forall>q < p. unat (pool_mAllocSize (pools mp ! q)) < n))"
proof -
  define mp where "mp = \<lparr>mSmallSizeMemoryPoolTable = pool_table, pools = map fresh_pool boundaries, heap = h\<rparr>"
  have size: "unat (pool_mAllocSize (pools mp ! q)) = boundaries ! q" if "q < 47" for q
  proof -
    have "boundaries ! q \<le> 4096" using that boundaries_facts(2,4) nth_mem by metis
    then have "unat (of_nat (boundaries ! q) :: DWORD) = boundaries ! q" by (intro unat_of_nat_small) simp
    then show ?thesis using that boundaries_facts(2) by (simp add: mp_def fresh_pool_def)
  qed
  have "boundaries ! q < n" if "q < class_index n" for q n
    using that unfolding class_index_def by (metis nth_mem set_takeWhileD takeWhile_nth)
  then have small: "unat (pool_mAllocSize (pools mp ! q)) < n" if "q < class_index n" "class_index n < 47" for q n
    using that size by auto
  have "case mSmallSizeMemoryPoolTable mp ! n of None \<Rightarrow> n = 0 \<or> 3840 < n
      | Some p \<Rightarrow> p < length (pools mp) \<and> n \<le> unat (pool_mAllocSize (pools mp ! p)) \<and>
          unat (pool_mAllocSize (pools mp ! p)) = size_class n \<and>
          (\<forall>q < p. unat (pool_mAllocSize (pools mp ! q)) < n)" if n: "n \<le> 4096" for n
  proof (cases "0 < n \<and> n \<le> 3840")
    case True
    then have "mSmallSizeMemoryPoolTable mp ! n = Some (class_index n)"
      using n by (simp add: mp_def pool_table_def)
    moreover have "length (pools mp) = 47" by (simp add: mp_def boundaries_facts(2))
    ultimately show ?thesis
      using True class_index_size [of n] size small size_class_ge [of n] by simp
  next
    case False
    then have "mSmallSizeMemoryPoolTable mp ! n = None"
      using n by (auto simp: mp_def pool_table_def)
    with False show ?thesis by auto
  qed
  then show ?thesis
    by (intro exI [of _ mp]) (simp add: MemoryPool_new_eq mp_def boundaries_facts(2) MAX_SMALL_POOL_COUNT_def)
qed

theorem MemoryPool_table_rounds_up_witness:
  "\<exists>mp p. MemoryPool_new Map.empty = Inr mp \<and> mSmallSizeMemoryPoolTable mp ! 1000 = Some p \<and>
     unat (pool_mAllocSize (pools mp ! p)) = 1024"
proof -
  obtain mp where mp: "MemoryPool_new Map.empty = Inr mp"
    "\<forall>n \<le> 4096. case mSmallSizeMemoryPoolTable mp ! n of None \<Rightarrow> n = 0 \<or> 3840 < n
      | Some p \<Rightarrow> p < length (pools mp) \<and> n \<le> unat (pool_mAllocSize (pools mp ! p)) \<and>
          unat (pool_mAllocSize (pools mp ! p)) = size_class n \<and>
          (\<forall>q < p. unat (pool_mAllocSize (pools mp ! q)) < n)"
    using MemoryPool_table_rounds_up [of Map.empty] by blast
  from mp(2) [rule_format, of 1000] mp(1) show ?thesis
    by (auto simp: size_class_def split: option.splits)
qed

text \<open>C21: In every reachable state the counter of a size class is the number of its blocks in use
  (modulo the width of the counter), and its free list holds exactly its idle blocks, each once.\<close>

theorem pool_counts_blocks_in_use:
  assumes "pool_reachable malloc mp" and "malloc_ok malloc" and "p < length (pools mp)"
  shows "pool_mAllocCount (pools mp ! p) = of_nat (card (pool_live mp p)) \<and>
    distinct (pool_mFreeList (pools mp ! p)) \<and>
    set (pool_mFreeList (pools mp ! p)) = {a. \<exists>b. heap mp a = Some b \<and>
      hdr_mAllocSize (block_header b) = 0 \<and> block_size b = unat (pool_mAllocSize (pools mp ! p))}"
proof -
  note inv = pool_reachable_inv [OF assms(1,2)]
  have p: "p < 47" using assms(3) length_pools [OF inv] by simp
  show ?thesis
    using mp_invD(7,8,10) [OF inv p] pool_size [OF inv p] by (simp add: free_list_def)
qed

theorem pool_counts_blocks_in_use_witness:
  "pool_mAllocCount (pools one_block_mp ! 3) = 1 \<and> card (pool_live one_block_mp 3) = 1 \<and>
   pool_mAllocCount (pools one_block_mp ! 3) = of_nat (card (pool_live one_block_mp 3))"
proof -
  have "pool_live one_block_mp 3 = {8}"
    unfolding pool_live_is_live [OF mp_invD(1) [OF one_block_mp(1)]]
    by (auto simp: is_live_def one_block_mp_def class_index_116 fresh_mp_def)
  then show ?thesis
    using pool_counts_blocks_in_use [OF one_block_mp(3) region_malloc_ok, of 3]
      length_pools [OF one_block_mp(1)] by simp
qed

end
