(* ===== verification/MemoryPool_Threads.thy ===== *)
theory MemoryPool_Threads
  imports MemoryPool
begin

text \<open>
  The memory pool called by several threads. The pool has no lock: a size class keeps its free blocks in an
  interlocked list and counts with interlocked operations, so each interlocked call, each call of
  the C library and each access to a header is one step here, and the steps of the threads
  interleave. The theory shows that a thread that runs alone computes \<open>Allocate\<close> and
  \<open>Deallocate\<close>, and that under any interleaving a block belongs to one owner at a time.
\<close>

section \<open>The operations step by step\<close>

text \<open>Program points, with the local variables that are still needed: \<open>A...\<close> in \<open>Allocate\<close>, \<open>D...\<close> in
  \<open>Deallocate\<close>. \<open>ADone\<close> returns.\<close>

datatype mp_pc =
    MpIdle
  | AStart LONG | APop LONG | AFresh LONG nat | AAssert LONG nat nat | ACount LONG nat "nat option"
  | ALarge LONG | AAttach LONG "nat option" | ADone nat
  | DStart LONG nat | DSwap nat | DAssert LONG nat | DFree nat | DPush nat nat | DCount nat

definition set_free_list :: "nat \<Rightarrow> nat list \<Rightarrow> MemoryPool \<Rightarrow> MemoryPool" where
  "set_free_list p xs mp = mp\<lparr>pools := (pools mp)[p := (pools mp ! p)\<lparr>pool_mFreeList := xs\<rparr>]\<rparr>"

definition add_count :: "nat \<Rightarrow> LONG \<Rightarrow> MemoryPool \<Rightarrow> MemoryPool" where
  "add_count p d mp =
     mp\<lparr>pools := (pools mp)[p := (pools mp ! p)\<lparr>pool_mAllocCount := pool_mAllocCount (pools mp ! p) + d\<rparr>]\<rparr>"

fun mp_exec :: "malloc_fn \<Rightarrow> mp_pc \<Rightarrow> MemoryPool \<Rightarrow> (mp_pc \<times> MemoryPool) result" where
  "mp_exec malloc (AStart sz) mp =
     (let realAllocSize = sz + of_nat sizeof_MemAllocInfo in
      Inr (if sint realAllocSize > MAX_ALLOC_SIZE then ALarge realAllocSize else APop realAllocSize, mp))"
| "mp_exec malloc (ALarge r) mp =
     (let (header, h) = aligned_malloc malloc (unat r) (heap mp) in Inr (AAttach r header, mp\<lparr>heap := h\<rparr>))"
| "mp_exec malloc (APop r) mp =
     bindR (pool_at r mp) (\<lambda>p.
     case pool_mFreeList (pools mp ! p) of
       [] \<Rightarrow> Inr (AFresh r p, mp)
     | mem # rest \<Rightarrow> Inr (AAssert r p mem, set_free_list p rest mp))"
| "mp_exec malloc (AFresh r p) mp =
     (let (mem, h) = aligned_malloc malloc (unat (pool_mAllocSize (pools mp ! p))) (heap mp) in
      Inr (ACount r p mem, mp\<lparr>heap := h\<rparr>))"
| "mp_exec malloc (AAssert r p mem) mp =
     bindR (load_header mem (heap mp)) (\<lambda>info.
     bindR (CRASH_ASSERT (hdr_mAllocSize info = 0)) (\<lambda>_. Inr (ACount r p (Some mem), mp)))"
| "mp_exec malloc (ACount r p mem) mp = Inr (AAttach r mem, add_count p 1 mp)"
| "mp_exec malloc (AAttach r header) mp =
     bindR (AttachMemAllocInfo header r (heap mp)) (\<lambda>(ptr, h). Inr (ADone ptr, mp\<lparr>heap := h\<rparr>))"
| "mp_exec malloc (DStart extraInfo ptr) mp =
     (let header = DetachMemAllocInfo ptr in
      bindR (load_header header (heap mp)) (\<lambda>info.
      bindR (store_header header (info\<lparr>hdr_mExtraInfo := extraInfo\<rparr>) (heap mp)) (\<lambda>h.
      Inr (DSwap header, mp\<lparr>heap := h\<rparr>))))"
| "mp_exec malloc (DSwap header) mp =
     bindR (load_header header (heap mp)) (\<lambda>info.
     bindR (store_header header (info\<lparr>hdr_mAllocSize := 0\<rparr>) (heap mp)) (\<lambda>h.
     Inr (DAssert (hdr_mAllocSize info) header, mp\<lparr>heap := h\<rparr>)))"
| "mp_exec malloc (DAssert r header) mp =
     bindR (CRASH_ASSERT (sint r > 0)) (\<lambda>_.
     if sint r > MAX_ALLOC_SIZE then Inr (DFree header, mp)
     else bindR (pool_at r mp) (\<lambda>p. Inr (DPush p header, mp)))"
| "mp_exec malloc (DFree header) mp = Inr (MpIdle, mp\<lparr>heap := (heap mp)(header := None)\<rparr>)"
| "mp_exec malloc (DPush p header) mp =
     Inr (DCount p, set_free_list p (header # pool_mFreeList (pools mp ! p)) mp)"
| "mp_exec malloc (DCount p) mp = Inr (MpIdle, add_count p (- 1) mp)"
| "mp_exec malloc pc mp = Inr (pc, mp)"

section \<open>A thread alone\<close>

fun mp_alone :: "malloc_fn \<Rightarrow> nat \<Rightarrow> mp_pc \<Rightarrow> MemoryPool \<Rightarrow> (mp_pc \<times> MemoryPool) result" where
  "mp_alone malloc 0 pc mp = Inr (pc, mp)"
| "mp_alone malloc (Suc k) pc mp = bindR (mp_exec malloc pc mp) (\<lambda>(pc', mp'). mp_alone malloc k pc' mp')"

lemma mp_alone_done: "mp_alone malloc k (ADone ptr) mp = Inr (ADone ptr, mp)" "mp_alone malloc k MpIdle mp = Inr (MpIdle, mp)"
  by (induction k) simp_all

lemma mp_alone_Suc: "0 < k \<Longrightarrow>
    mp_alone malloc k pc mp = bindR (mp_exec malloc pc mp) (\<lambda>(pc', mp'). mp_alone malloc (k - 1) pc' mp')"
  by (cases k) simp_all

lemma pool_update_sel [simp]:
  "heap (set_free_list p xs mp) = heap mp" "heap (add_count p d mp) = heap mp"
  "mSmallSizeMemoryPoolTable (set_free_list p xs mp) = mSmallSizeMemoryPoolTable mp"
  "mSmallSizeMemoryPoolTable (add_count p d mp) = mSmallSizeMemoryPoolTable mp"
  "length (pools (set_free_list p xs mp)) = length (pools mp)" "length (pools (add_count p d mp)) = length (pools mp)"
  by (simp_all add: set_free_list_def add_count_def)

lemma set_free_list_add_count:
  "p < length (pools mp) \<Longrightarrow> add_count p d (set_free_list p xs mp) =
     mp\<lparr>pools := (pools mp)[p := (pools mp ! p)\<lparr>pool_mFreeList := xs, pool_mAllocCount := pool_mAllocCount (pools mp ! p) + d\<rparr>]\<rparr>"
  by (simp add: add_count_def set_free_list_def)

text \<open>Five steps suffice for either operation, faults included.\<close>

lemma attach_alone:
  "mp_alone malloc (Suc k) (AAttach r header) mp =
     bindR (AttachMemAllocInfo header r (heap mp)) (\<lambda>(ptr, h). Inr (ADone ptr, mp\<lparr>heap := h\<rparr>))"
  by (cases "AttachMemAllocInfo header r (heap mp)") (auto simp: mp_alone_done)

definition table_ok :: "MemoryPool \<Rightarrow> bool" where
  "table_ok mp \<longleftrightarrow> (\<forall>r p. pool_at r mp = Inr p \<longrightarrow> p < length (pools mp))"

lemma small_alone:
  assumes "table_ok mp" and "\<not> sint r > MAX_ALLOC_SIZE"
  shows "mp_alone malloc 4 (APop r) mp =
    bindR (bindR (pool_at r mp) (\<lambda>p.
        bindR (SmallSizeMemoryPool_Pop malloc (pools mp ! p) (heap mp)) (\<lambda>(header, pool, h).
        Inr (header, mp\<lparr>pools := (pools mp)[p := pool], heap := h\<rparr>))))
      (\<lambda>(header, mp1). bindR (AttachMemAllocInfo header r (heap mp1)) (\<lambda>(ptr, h). Inr (ADone ptr, mp1\<lparr>heap := h\<rparr>)))"
proof (cases "pool_at r mp")
  case (Inl e)
  then show ?thesis by (simp add: mp_alone_Suc [of 4])
next
  case (Inr p)
  with assms(1) have p: "p < length (pools mp)" by (simp add: table_ok_def)
  show ?thesis
  proof (cases "pool_mFreeList (pools mp ! p)")
    case Nil
    then show ?thesis
      using Inr p
      by (simp add: eval_nat_numeral SmallSizeMemoryPool_Pop_def aligned_malloc_def add_count_def bindR_assoc Let_def
          case_prod_unfold split: option.splits)
  next
    case (Cons mem rest)
    then show ?thesis
      using Inr p
      by (cases "load_header mem (heap mp)")
        (simp_all add: eval_nat_numeral SmallSizeMemoryPool_Pop_def CRASH_ASSERT_def set_free_list_add_count bindR_assoc
          case_prod_unfold)
  qed
qed

lemma Allocate_alone:
  assumes "table_ok mp"
  shows "mp_alone malloc 5 (AStart sz) mp = bindR (Allocate malloc sz mp) (\<lambda>(ptr, mp'). Inr (ADone ptr, mp'))"
proof -
  define r where "r = sz + of_nat sizeof_MemAllocInfo"
  have start: "mp_alone malloc 5 (AStart sz) mp =
      mp_alone malloc 4 (if sint r > MAX_ALLOC_SIZE then ALarge r else APop r) mp"
    by (simp add: mp_alone_Suc [of 5] r_def Let_def)
  show ?thesis
  proof (cases "sint r > MAX_ALLOC_SIZE")
    case True
    have "mp_alone malloc 4 (ALarge r) mp =
        (let (header, h) = aligned_malloc malloc (unat r) (heap mp) in
         bindR (AttachMemAllocInfo header r h) (\<lambda>(ptr, h). Inr (ADone ptr, mp\<lparr>heap := h\<rparr>)))"
      using attach_alone [of malloc 2]
      by (simp add: mp_alone_Suc [of 4] numeral_3_eq_3 numeral_2_eq_2 Let_def split: prod.splits)
    then show ?thesis
      unfolding start using True
      by (simp add: Allocate_def r_def [symmetric] bindR_assoc Let_def case_prod_unfold)
  next
    case False
    then show ?thesis
      unfolding start using small_alone [OF assms False, of malloc]
      by (simp add: Allocate_def r_def [symmetric] bindR_assoc Let_def case_prod_unfold)
  qed
qed

lemma Deallocate_alone:
  assumes "table_ok mp"
  shows "mp_alone malloc 5 (DStart x ptr) mp = bindR (Deallocate x ptr mp) (\<lambda>mp'. Inr (MpIdle, mp'))"
proof (cases "heap mp (DetachMemAllocInfo ptr)")
  case None
  then show ?thesis by (simp add: mp_alone_Suc [of 5] Deallocate_def load_header_def Let_def)
next
  case (Some b)
  define h where "h = (heap mp)(DetachMemAllocInfo ptr \<mapsto> b\<lparr>block_header := \<lparr>hdr_mAllocSize = 0, hdr_mExtraInfo = x\<rparr>\<rparr>)"
  define r where "r = hdr_mAllocSize (block_header b)"
  have two: "mp_alone malloc 5 (DStart x ptr) mp = mp_alone malloc 3 (DAssert r (DetachMemAllocInfo ptr)) (mp\<lparr>heap := h\<rparr>)"
    using Some by (cases "block_header b") (simp add: mp_alone_Suc [of 5] mp_alone_Suc [of 4] load_header_def store_header_def
        h_def r_def Let_def)
  have pat: "pool_at r (mp\<lparr>heap := h\<rparr>) = pool_at r mp" by (simp add: pool_at_def)
  have dea: "Deallocate x ptr mp = bindR (CRASH_ASSERT (sint r > 0)) (\<lambda>_.
      if sint r > MAX_ALLOC_SIZE then Inr (mp\<lparr>heap := h(DetachMemAllocInfo ptr := None)\<rparr>)
      else bindR (pool_at r mp) (\<lambda>p. Inr (mp\<lparr>heap := h,
             pools := (pools mp)[p := SmallSizeMemoryPool_Push (DetachMemAllocInfo ptr) (pools mp ! p)]\<rparr>)))"
    using Some by (simp add: Deallocate_def load_header_def store_header_def h_def r_def Let_def)
  show ?thesis
  proof (cases "0 < sint r \<and> sint r \<le> MAX_ALLOC_SIZE")
    case False
    then show ?thesis unfolding two dea
      by (auto simp: mp_alone_Suc [of 3] mp_alone_Suc [of 2] CRASH_ASSERT_def mp_alone_done)
  next
    case True
    then show ?thesis unfolding two dea
      using assms by (cases "pool_at r mp")
        (auto simp: mp_alone_Suc [of 3] mp_alone_Suc [of 2] CRASH_ASSERT_def mp_alone_done pat table_ok_def
          add_count_def set_free_list_def SmallSizeMemoryPool_Push_def)
  qed
qed

section \<open>Threads\<close>

record mp_sys =
  mp_pool :: MemoryPool
  mp_pcs :: "nat \<Rightarrow> mp_pc"
  held :: "nat set"

text \<open>A program frees only pointers it holds; calling \<open>Deallocate\<close> gives the pointer up, returning from
  \<open>Allocate\<close> adds one.\<close>

datatype mp_action = CallAllocate nat LONG | CallDeallocate nat LONG nat | MpStep nat

fun mp_act :: "malloc_fn \<Rightarrow> mp_action \<Rightarrow> mp_sys \<Rightarrow> mp_sys option" where
  "mp_act malloc (CallAllocate i sz) s =
     (if mp_pcs s i = MpIdle then Some (s\<lparr>mp_pcs := (mp_pcs s)(i := AStart sz)\<rparr>) else None)"
| "mp_act malloc (CallDeallocate i x ptr) s =
     (if mp_pcs s i = MpIdle \<and> ptr \<in> held s
      then Some (s\<lparr>mp_pcs := (mp_pcs s)(i := DStart x ptr), held := held s - {ptr}\<rparr>) else None)"
| "mp_act malloc (MpStep i) s =
     (case mp_pcs s i of
        ADone ptr \<Rightarrow> Some (s\<lparr>mp_pcs := (mp_pcs s)(i := MpIdle), held := insert ptr (held s)\<rparr>)
      | pc \<Rightarrow> (case mp_exec malloc pc (mp_pool s) of
           Inl e \<Rightarrow> None
         | Inr (pc', mp) \<Rightarrow> Some (s\<lparr>mp_pool := mp, mp_pcs := (mp_pcs s)(i := pc')\<rparr>)))"

inductive mp_reachable :: "malloc_fn \<Rightarrow> mp_sys \<Rightarrow> bool" for malloc :: malloc_fn where
  start: "MemoryPool_new Map.empty = Inr mp \<Longrightarrow>
     mp_reachable malloc \<lparr>mp_pool = mp, mp_pcs = (\<lambda>_. MpIdle), held = {}\<rparr>"
| act: "mp_reachable malloc s \<Longrightarrow> mp_act malloc a s = Some s' \<Longrightarrow> mp_reachable malloc s'"

section \<open>Where a block is\<close>

fun hand :: "mp_pc \<Rightarrow> nat option" where
  "hand (AAssert r p a) = Some a"
| "hand (ACount r p header) = header"
| "hand (AAttach r header) = header"
| "hand (ADone ptr) = Some (ptr - 16)"
| "hand (DStart x ptr) = Some (ptr - 16)"
| "hand (DSwap a) = Some a"
| "hand (DAssert r a) = Some a"
| "hand (DFree a) = Some a"
| "hand (DPush p a) = Some a"
| "hand pc = None"

datatype place = Free nat | Hand nat | Held

definition places :: "mp_sys \<Rightarrow> nat \<Rightarrow> place set" where
  "places s a = {Free p | p. p < 47 \<and> a \<in> set (free_list (mp_pool s) p)} \<union> {Hand i | i. hand (mp_pcs s i) = Some a} \<union>
     (if a + 16 \<in> held s then {Held} else {})"

text \<open>What is known of a block in each place, and of the local variables of a thread.\<close>

fun pc_block :: "mp_pc \<Rightarrow> block \<Rightarrow> bool" where
  "pc_block (AAssert r p a) b \<longleftrightarrow> hdr_mAllocSize (block_header b) = 0 \<and> block_size b = boundaries ! p"
| "pc_block (ACount r p header) b \<longleftrightarrow> block_size b = boundaries ! p"
| "pc_block (AAttach r header) b \<longleftrightarrow> header_ok r (block_size b)"
| "pc_block (ADone ptr) b \<longleftrightarrow> header_ok (hdr_mAllocSize (block_header b)) (block_size b)"
| "pc_block (DStart x ptr) b \<longleftrightarrow> header_ok (hdr_mAllocSize (block_header b)) (block_size b)"
| "pc_block (DSwap a) b \<longleftrightarrow> header_ok (hdr_mAllocSize (block_header b)) (block_size b)"
| "pc_block (DAssert r a) b \<longleftrightarrow> hdr_mAllocSize (block_header b) = 0 \<and> header_ok r (block_size b)"
| "pc_block (DPush p a) b \<longleftrightarrow> hdr_mAllocSize (block_header b) = 0 \<and> block_size b = boundaries ! p"
| "pc_block pc b \<longleftrightarrow> True"

definition class_of :: "LONG \<Rightarrow> nat \<Rightarrow> bool" where
  "class_of r p \<longleftrightarrow> 0 < sint r \<and> sint r \<le> 3840 \<and> p = class_index (nat (sint r))"

fun pc_local :: "mp_pc \<Rightarrow> bool" where
  "pc_local (ALarge r) \<longleftrightarrow> sint r > MAX_ALLOC_SIZE"
| "pc_local (AFresh r p) \<longleftrightarrow> class_of r p"
| "pc_local (AAssert r p a) \<longleftrightarrow> class_of r p"
| "pc_local (ACount r p header) \<longleftrightarrow> class_of r p"
| "pc_local (ADone ptr) \<longleftrightarrow> 16 \<le> ptr"
| "pc_local (DStart x ptr) \<longleftrightarrow> 16 \<le> ptr"
| "pc_local (DPush p a) \<longleftrightarrow> p < 47"
| "pc_local (DCount p) \<longleftrightarrow> p < 47"
| "pc_local pc \<longleftrightarrow> True"

fun place_block :: "mp_sys \<Rightarrow> place \<Rightarrow> block \<Rightarrow> bool" where
  "place_block s (Free p) b \<longleftrightarrow> hdr_mAllocSize (block_header b) = 0 \<and> block_size b = boundaries ! p"
| "place_block s (Hand i) b \<longleftrightarrow> pc_block (mp_pcs s i) b"
| "place_block s Held b \<longleftrightarrow> header_ok (hdr_mAllocSize (block_header b)) (block_size b)"

definition tables_ok :: "MemoryPool \<Rightarrow> bool" where
  "tables_ok mp \<longleftrightarrow> mSmallSizeMemoryPoolTable mp = pool_table \<and> map pool_mAllocSize (pools mp) = map of_nat boundaries \<and>
     (\<forall>p < 47. distinct (free_list mp p))"

definition blocks_ok :: "MemoryPool \<Rightarrow> bool" where
  "blocks_ok mp \<longleftrightarrow> (\<forall>a b a' b'. heap mp a = Some b \<and> heap mp a' = Some b' \<and> a \<noteq> a' \<longrightarrow>
     apart a (block_size b) a' (block_size b'))"

definition owner_inv :: "mp_sys \<Rightarrow> bool" where
  "owner_inv s \<longleftrightarrow> (\<forall>a x y. x \<in> places s a \<longrightarrow> y \<in> places s a \<longrightarrow> x = y) \<and>
     (\<forall>a x. x \<in> places s a \<longrightarrow> (\<exists>b. heap (mp_pool s) a = Some b \<and> place_block s x b))"

definition threads_inv :: "mp_sys \<Rightarrow> bool" where
  "threads_inv s \<longleftrightarrow> tables_ok (mp_pool s) \<and> blocks_ok (mp_pool s) \<and> (\<forall>ptr \<in> held s. 16 \<le> ptr) \<and>
     (\<forall>i. pc_local (mp_pcs s i)) \<and> owner_inv s"

section \<open>How a step moves a block\<close>

lemma places_iff:
  "x \<in> places s a \<longleftrightarrow> (case x of Free p \<Rightarrow> p < 47 \<and> a \<in> set (free_list (mp_pool s) p)
     | Hand i \<Rightarrow> hand (mp_pcs s i) = Some a | Held \<Rightarrow> a + 16 \<in> held s)"
  by (auto simp: places_def split: place.splits)

lemma ownerD:
  assumes "owner_inv s" and "x \<in> places s a"
  shows "y \<in> places s a \<Longrightarrow> y = x" and "\<exists>b. heap (mp_pool s) a = Some b \<and> place_block s x b"
  using assms unfolding owner_inv_def by blast+

text \<open>A step of thread \<open>i\<close> concerns the block at \<open>a\<close> only and leaves it in the place \<open>x\<close>, or nowhere.\<close>

lemma owner_move:
  assumes inv: "owner_inv s" and pcs: "mp_pcs s' = (mp_pcs s)(i := pc')"
    and hand: "hand (mp_pcs s i) \<in> {None, Some a}" "hand pc' \<in> {None, Some a}"
    and free: "\<And>p c. p < 47 \<Longrightarrow> c \<noteq> a \<Longrightarrow> c \<in> set (free_list (mp_pool s') p) \<longleftrightarrow> c \<in> set (free_list (mp_pool s) p)"
    and held: "\<And>c. c \<noteq> a + 16 \<Longrightarrow> c \<in> held s' \<longleftrightarrow> c \<in> held s"
    and heap: "\<And>c. c \<noteq> a \<Longrightarrow> heap (mp_pool s') c = heap (mp_pool s) c"
    and here: "\<And>y. y \<in> places s' a \<Longrightarrow> y = x" "x \<in> places s' a \<Longrightarrow> \<exists>b. heap (mp_pool s') a = Some b \<and> place_block s' x b"
  shows "owner_inv s'"
proof -
  have same: "y \<in> places s' c \<longleftrightarrow> y \<in> places s c" if "c \<noteq> a" for y c
    using that hand free [of _ c] held [of "c + 16"] by (auto simp: places_iff pcs split: place.splits)
  have other: "place_block s' y b" if "c \<noteq> a" "y \<in> places s c" "place_block s y b" for y c b
    using that hand(1) by (cases y) (auto simp: places_iff pcs)
  show ?thesis
    unfolding owner_inv_def
  proof (intro conjI allI impI)
    fix c y z assume "y \<in> places s' c" "z \<in> places s' c"
    then show "y = z" using here(1) same [of c] inv unfolding owner_inv_def by (cases "c = a") blast+
  next
    fix c y assume y: "y \<in> places s' c"
    show "\<exists>b. heap (mp_pool s') c = Some b \<and> place_block s' y b"
    proof (cases "c = a")
      case True
      then show ?thesis using y here by blast
    next
      case False
      then have "y \<in> places s c" using y same by blast
      with ownerD(2) [OF inv this] other [OF False this] heap [OF False] show ?thesis by auto
    qed
  qed
qed

text \<open>The thread has no block in its hand before or after the step.\<close>

lemma owner_quiet:
  assumes inv: "owner_inv s" and pcs: "mp_pcs s' = (mp_pcs s)(i := pc')"
    and hand: "hand (mp_pcs s i) = None" "hand pc' = None"
    and free: "\<And>p. p < 47 \<Longrightarrow> set (free_list (mp_pool s') p) = set (free_list (mp_pool s) p)"
    and same: "held s' = held s" "heap (mp_pool s') = heap (mp_pool s)"
  shows "owner_inv s'"
proof -
  have places: "y \<in> places s' c \<longleftrightarrow> y \<in> places s c" for y c
    using hand free same(1) by (auto simp: places_iff pcs split: place.splits)
  have "place_block s' y b" if "y \<in> places s c" "place_block s y b" for y c b
    using that hand by (cases y) (auto simp: places_iff pcs)
  then show ?thesis using inv unfolding owner_inv_def places same(2) by blast
qed

text \<open>The thread keeps the block it has in its hand.\<close>

lemma owner_keep:
  assumes inv: "owner_inv s" and pcs: "mp_pcs s' = (mp_pcs s)(i := pc')"
    and hand: "hand (mp_pcs s i) = Some a" "hand pc' = Some a"
    and free: "\<And>p. p < 47 \<Longrightarrow> set (free_list (mp_pool s') p) = set (free_list (mp_pool s) p)"
    and same: "held s' = held s" "\<And>c. c \<noteq> a \<Longrightarrow> heap (mp_pool s') c = heap (mp_pool s) c"
    and block: "\<And>b. heap (mp_pool s) a = Some b \<Longrightarrow> pc_block (mp_pcs s i) b \<Longrightarrow>
      \<exists>b'. heap (mp_pool s') a = Some b' \<and> pc_block pc' b'"
  shows "owner_inv s'"
proof (rule owner_move [where a = a and x = "Hand i", OF inv pcs])
  have i: "Hand i \<in> places s a" using hand(1) by (simp add: places_iff)
  show "y = Hand i" if "y \<in> places s' a" for y
  proof -
    have "y \<in> places s a" using that hand free same(1) by (auto simp: places_iff pcs split: place.splits if_splits)
    then show ?thesis by (rule ownerD(1) [OF inv i])
  qed
  show "\<exists>b. heap (mp_pool s') a = Some b \<and> place_block s' (Hand i) b"
    using ownerD(2) [OF inv i] block by (auto simp: pcs)
qed (use hand free same in auto)

section \<open>Every step keeps the invariant\<close>

lemma free_list_set_free_list:
  "p < length (pools mp) \<Longrightarrow> free_list (set_free_list p xs mp) q = (if q = p then xs else free_list mp q)"
  by (simp add: free_list_def set_free_list_def nth_list_update)

lemma free_list_add_count [simp]: "free_list (add_count p d mp) q = free_list mp q"
  by (cases "p < length (pools mp)") (simp_all add: free_list_def add_count_def nth_list_update list_update_beyond)

lemma free_list_heap [simp]: "free_list (mp\<lparr>heap := h\<rparr>) q = free_list mp q"
  by (simp add: free_list_def)

lemma tables_ok_length: "tables_ok mp \<Longrightarrow> length (pools mp) = 47"
  unfolding tables_ok_def using boundaries_facts(2) by (metis length_map)

lemma alloc_sizes_update [simp]:
  "map pool_mAllocSize (pools (set_free_list p xs mp)) = map pool_mAllocSize (pools mp)"
  "map pool_mAllocSize (pools (add_count p d mp)) = map pool_mAllocSize (pools mp)"
  by (simp_all add: set_free_list_def add_count_def map_update_same)

lemma tables_ok_update:
  "tables_ok (mp\<lparr>heap := h\<rparr>) = tables_ok mp" "tables_ok (add_count p d mp) = tables_ok mp"
  "tables_ok mp \<Longrightarrow> p < 47 \<Longrightarrow> distinct xs \<Longrightarrow> tables_ok (set_free_list p xs mp)"
  using tables_ok_length [of mp]
  by (simp_all add: tables_ok_def free_list_set_free_list)

lemma pool_at_class: "tables_ok mp \<Longrightarrow> pool_at r mp = Inr p \<Longrightarrow> class_of r p"
  by (auto simp: tables_ok_def pool_at_table class_of_def split: if_splits)

lemma class_of_size: "class_of r p \<Longrightarrow> p < 47 \<and> boundaries ! p = size_class (nat (sint r)) \<and> header_ok r (boundaries ! p)"
  using class_index_size [of "nat (sint r)"] header_ok_small [of r] by (auto simp: class_of_def)

lemma tables_ok_pool_size:
  assumes "tables_ok mp" and "p < 47"
  shows "unat (pool_mAllocSize (pools mp ! p)) = boundaries ! p"
proof -
  have "pool_mAllocSize (pools mp ! p) = of_nat (boundaries ! p)"
    using assms tables_ok_length [OF assms(1)] boundaries_facts(2) unfolding tables_ok_def by (metis nth_map)
  moreover have "boundaries ! p \<le> 4096"
    using assms(2) boundaries_facts(2,4) nth_mem by metis
  ultimately show ?thesis by (simp add: unat_of_nat_small)
qed

text \<open>A block from \<open>_aligned_malloc\<close> is in no place and apart from every other.\<close>

lemma malloc_fresh:
  assumes "malloc_ok malloc" and "aligned_malloc malloc n (heap mp) = (Some a, h)" and "blocks_ok mp"
  shows "heap mp a = None" and "\<exists>junk. h = (heap mp)(a \<mapsto> \<lparr>block_size = n, block_header = junk\<rparr>)"
    and "blocks_ok (mp\<lparr>heap := h\<rparr>)"
proof -
  obtain junk where m: "malloc (heap mp) n = Some (a, junk)" "h = (heap mp)(a \<mapsto> \<lparr>block_size = n, block_header = junk\<rparr>)"
    using assms(2) by (auto simp: aligned_malloc_def split: option.splits)
  have f: "heap mp a = None" "\<And>a' b. heap mp a' = Some b \<Longrightarrow> a + n \<le> a' \<or> a' + block_size b \<le> a"
    using assms(1) m(1) unfolding malloc_ok_def by blast+
  show "heap mp a = None" by (rule f)
  show "\<exists>junk. h = (heap mp)(a \<mapsto> \<lparr>block_size = n, block_header = junk\<rparr>)" using m(2) by blast
  show "blocks_ok (mp\<lparr>heap := h\<rparr>)"
    using assms(3) f(2) by (auto simp: blocks_ok_def m(2) apart_def dest!: f(2))
qed

lemma blocks_ok_same_sizes:
  assumes "blocks_ok mp" and "\<And>a b. h a = Some b \<Longrightarrow> \<exists>b'. heap mp a = Some b' \<and> block_size b' = block_size b"
  shows "blocks_ok (mp\<lparr>heap := h\<rparr>)"
  using assms unfolding blocks_ok_def by simp metis

lemma aligned_malloc_None: "aligned_malloc malloc n h = (None, h') \<Longrightarrow> h' = h"
  by (auto simp: aligned_malloc_def split: option.splits)

lemma no_place: "owner_inv s \<Longrightarrow> heap (mp_pool s) a = None \<Longrightarrow> places s a = {}"
  using ownerD(2) [of s] by fastforce

definition advance :: "nat \<Rightarrow> mp_pc \<Rightarrow> MemoryPool \<Rightarrow> mp_sys \<Rightarrow> mp_sys" where
  "advance i pc mp s = s\<lparr>mp_pool := mp, mp_pcs := (mp_pcs s)(i := pc)\<rparr>"

lemma advance_sel [simp]:
  "mp_pool (advance i pc mp s) = mp" "mp_pcs (advance i pc mp s) = (mp_pcs s)(i := pc)" "held (advance i pc mp s) = held s"
  by (simp_all add: advance_def)

lemma threads_invI:
  assumes "threads_inv s" and "tables_ok mp" and "blocks_ok mp" and "pc_local pc" and "owner_inv (advance i pc mp s)"
  shows "threads_inv (advance i pc mp s)"
  using assms by (auto simp: threads_inv_def)

lemma threads_invD:
  assumes "threads_inv s"
  shows "tables_ok (mp_pool s)" "blocks_ok (mp_pool s)" "pc_local (mp_pcs s i)" "owner_inv s" "\<And>ptr. ptr \<in> held s \<Longrightarrow> 16 \<le> ptr"
  using assms by (auto simp: threads_inv_def)

text \<open>Steps on local variables, and counting.\<close>

lemma local_step:
  assumes "threads_inv s" and "hand pc = hand (mp_pcs s i)" and "pc_local pc"
    and "\<And>b. pc_block (mp_pcs s i) b \<Longrightarrow> pc_block pc b" and "mp = mp_pool s \<or> (\<exists>p d. mp = add_count p d (mp_pool s))"
  shows "threads_inv (advance i pc mp s)"
proof (rule threads_invI [OF assms(1)])
  note D = threads_invD [OF assms(1)]
  have mp: "free_list mp q = free_list (mp_pool s) q" "heap mp = heap (mp_pool s)" for q using assms(5) by auto
  show "tables_ok mp" using assms(5) D(1) by (auto simp: tables_ok_update)
  show "blocks_ok mp" using D(2) by (simp add: blocks_ok_def mp)
  show "owner_inv (advance i pc mp s)"
  proof (cases "hand pc")
    case None
    then show ?thesis using assms(2) by (intro owner_quiet [OF D(4), of _ i pc]) (simp_all add: mp)
  next
    case (Some a)
    then show ?thesis using assms(2,4) by (intro owner_keep [OF D(4), of _ i pc a]) (auto simp: mp)
  qed
qed (rule assms(3))

text \<open>Changing the header of the block in the hand.\<close>

lemma header_step:
  assumes "threads_inv s" and "hand (mp_pcs s i) = Some a" and "hand pc = Some a" and "pc_local pc"
    and "store_header a info (heap (mp_pool s)) = Inr h"
    and "\<And>b. heap (mp_pool s) a = Some b \<Longrightarrow> pc_block (mp_pcs s i) b \<Longrightarrow> pc_block pc (b\<lparr>block_header := info\<rparr>)"
  shows "threads_inv (advance i pc ((mp_pool s)\<lparr>heap := h\<rparr>) s)"
proof (rule threads_invI [OF assms(1)])
  note D = threads_invD [OF assms(1)]
  obtain b where b: "heap (mp_pool s) a = Some b" "h = (heap (mp_pool s))(a \<mapsto> b\<lparr>block_header := info\<rparr>)"
    using assms(5) by (auto simp: store_header_def split: option.splits)
  show "tables_ok ((mp_pool s)\<lparr>heap := h\<rparr>)" using D(1) by (simp add: tables_ok_update)
  show "blocks_ok ((mp_pool s)\<lparr>heap := h\<rparr>)"
    by (rule blocks_ok_same_sizes [OF D(2)]) (auto simp: b split: if_splits)
  show "owner_inv (advance i pc ((mp_pool s)\<lparr>heap := h\<rparr>) s)"
    using assms(2,3,6) b by (intro owner_keep [OF D(4), of _ i pc a]) auto
qed (rule assms(4))

text \<open>Taking a block from \<open>_aligned_malloc\<close>.\<close>

lemma malloc_step:
  assumes "threads_inv s" and "malloc_ok malloc" and "hand (mp_pcs s i) = None"
    and "aligned_malloc malloc n (heap (mp_pool s)) = (header, h)" and "hand pc = header" and "pc_local pc"
    and "\<And>junk. pc_block pc \<lparr>block_size = n, block_header = junk\<rparr>"
  shows "threads_inv (advance i pc ((mp_pool s)\<lparr>heap := h\<rparr>) s)"
proof (cases header)
  case None
  then have "h = heap (mp_pool s)" using assms(4) aligned_malloc_None by metis
  then have "(mp_pool s)\<lparr>heap := h\<rparr> = mp_pool s" by simp
  moreover have "hand pc = None" using None assms(5) by simp
  ultimately show ?thesis
    using threads_invD(1,2) [OF assms(1)] assms(3,6)
    by (intro threads_invI [OF assms(1)] owner_quiet [OF threads_invD(4) [OF assms(1)], of _ i pc]) simp_all
next
  case (Some a)
  note D = threads_invD [OF assms(1)]
  note fresh = malloc_fresh [OF assms(2) assms(4) [unfolded Some] D(2)]
  obtain junk where h: "h = (heap (mp_pool s))(a \<mapsto> \<lparr>block_size = n, block_header = junk\<rparr>)" using fresh(2) by blast
  have none: "x \<notin> places s a" for x using no_place [OF D(4) fresh(1)] by simp
  show ?thesis
  proof (rule threads_invI [OF assms(1)])
    show "tables_ok ((mp_pool s)\<lparr>heap := h\<rparr>)" using D(1) by (simp add: tables_ok_update)
    show "owner_inv (advance i pc ((mp_pool s)\<lparr>heap := h\<rparr>) s)"
    proof (rule owner_move [where a = a and x = "Hand i" and i = i, OF D(4)])
      show "y = Hand i" if "y \<in> places (advance i pc ((mp_pool s)\<lparr>heap := h\<rparr>) s) a" for y
        using that none [of y] by (auto simp: places_iff split: place.splits if_splits)
    qed (use assms(3,5,7) Some in \<open>auto simp: h\<close>)
  qed (use fresh assms(6) in auto)
qed

text \<open>Taking a block from a free list, and giving one to it.\<close>

lemma pop_step:
  assumes "threads_inv s" and "hand (mp_pcs s i) = None" and "p < 47" and "free_list (mp_pool s) p = a # rest"
    and "hand pc = Some a" and "pc_local pc"
    and "\<And>b. hdr_mAllocSize (block_header b) = 0 \<Longrightarrow> block_size b = boundaries ! p \<Longrightarrow> pc_block pc b"
  shows "threads_inv (advance i pc (set_free_list p rest (mp_pool s)) s)"
proof (rule threads_invI [OF assms(1)])
  note D = threads_invD [OF assms(1)]
  have len: "length (pools (mp_pool s)) = 47" by (rule tables_ok_length [OF D(1)])
  have dist: "distinct (a # rest)" using D(1) assms(3,4) unfolding tables_ok_def by metis
  show "tables_ok (set_free_list p rest (mp_pool s))" using D(1) assms(3) dist by (simp add: tables_ok_update)
  show "blocks_ok (set_free_list p rest (mp_pool s))" using D(2) by (simp add: blocks_ok_def)
  have here: "Free p \<in> places s a" using assms(3,4) by (simp add: places_iff)
  show "owner_inv (advance i pc (set_free_list p rest (mp_pool s)) s)"
  proof (rule owner_move [where a = a and x = "Hand i" and i = i, OF D(4)])
    show "y = Hand i" if "y \<in> places (advance i pc (set_free_list p rest (mp_pool s)) s) a" for y
    proof (rule ccontr)
      assume "y \<noteq> Hand i"
      with that dist assms(3,4) len have "y \<in> places s a" "y \<noteq> Free p"
        by (auto simp: places_iff free_list_set_free_list split: place.splits if_splits)
      then show False using ownerD(1) [OF D(4) here] by blast
    qed
    show "\<exists>b. heap (mp_pool (advance i pc (set_free_list p rest (mp_pool s)) s)) a = Some b \<and>
        place_block (advance i pc (set_free_list p rest (mp_pool s)) s) (Hand i) b"
      using ownerD(2) [OF D(4) here] assms(7) by auto
  qed (use assms(2-5) len in \<open>auto simp: free_list_set_free_list\<close>)
qed (rule assms(6))

lemma push_step:
  assumes "threads_inv s" and "mp_pcs s i = DPush p a"
  shows "threads_inv (advance i (DCount p) (set_free_list p (a # free_list (mp_pool s) p) (mp_pool s)) s)"
proof (rule threads_invI [OF assms(1)])
  note D = threads_invD [OF assms(1)]
  have p: "p < 47" using D(3) [of i] assms(2) by simp
  have len: "length (pools (mp_pool s)) = 47" by (rule tables_ok_length [OF D(1)])
  have here: "Hand i \<in> places s a" using assms(2) by (simp add: places_iff)
  have "Free p \<notin> places s a" using ownerD(1) [OF D(4) here] by blast
  then have "a \<notin> set (free_list (mp_pool s) p)" using p by (simp add: places_iff)
  then show "tables_ok (set_free_list p (a # free_list (mp_pool s) p) (mp_pool s))"
    using D(1) p by (intro tables_ok_update(3)) (simp_all add: tables_ok_def)
  show "blocks_ok (set_free_list p (a # free_list (mp_pool s) p) (mp_pool s))" using D(2) by (simp add: blocks_ok_def)
  show "owner_inv (advance i (DCount p) (set_free_list p (a # free_list (mp_pool s) p) (mp_pool s)) s)" (is "owner_inv ?s'")
  proof (rule owner_move [where a = a and x = "Free p" and i = i, OF D(4)])
    show "y = Free p" if "y \<in> places ?s' a" for y
    proof (rule ccontr)
      assume "y \<noteq> Free p"
      with that len p have "y \<in> places s a" "y \<noteq> Hand i"
        by (auto simp: places_iff free_list_set_free_list split: place.splits if_splits)
      then show False using ownerD(1) [OF D(4) here] by blast
    qed
    show "\<exists>b. heap (mp_pool ?s') a = Some b \<and> place_block ?s' (Free p) b"
      using ownerD(2) [OF D(4) here] assms(2) by auto
  qed (use assms(2) len p in \<open>auto simp: free_list_set_free_list\<close>)
qed (use threads_invD(3) [OF assms(1), of i] assms(2) in simp)

text \<open>Giving a large block back to the C library.\<close>

lemma unmap_step:
  assumes "threads_inv s" and "mp_pcs s i = DFree a"
  shows "threads_inv (advance i MpIdle ((mp_pool s)\<lparr>heap := (heap (mp_pool s))(a := None)\<rparr>) s)" (is "threads_inv ?s'")
proof (rule threads_invI [OF assms(1)])
  note D = threads_invD [OF assms(1)]
  show "tables_ok ((mp_pool s)\<lparr>heap := (heap (mp_pool s))(a := None)\<rparr>)" using D(1) by (simp add: tables_ok_update)
  show "blocks_ok ((mp_pool s)\<lparr>heap := (heap (mp_pool s))(a := None)\<rparr>)" using D(2) by (simp add: blocks_ok_def)
  have here: "Hand i \<in> places s a" using assms(2) by (simp add: places_iff)
  have gone: "y \<notin> places ?s' a" for y
  proof
    assume "y \<in> places ?s' a"
    then have "y \<in> places s a" "y \<noteq> Hand i" by (auto simp: places_iff split: place.splits if_splits)
    then show False using ownerD(1) [OF D(4) here] by blast
  qed
  show "owner_inv ?s'"
    by (rule owner_move [where a = a and x = Held and i = i, OF D(4)]) (use assms(2) gone in auto)
qed simp

lemma hand_block:
  assumes "threads_inv s" and "hand (mp_pcs s i) = Some a"
  shows "\<exists>b. heap (mp_pool s) a = Some b \<and> pc_block (mp_pcs s i) b"
  using ownerD(2) [OF threads_invD(4) [OF assms(1)], of "Hand i" a] assms(2) by (simp add: places_iff)

lemma attach_step:
  assumes inv: "threads_inv s" and pc: "mp_pcs s i = AAttach r header"
    and run: "mp_exec malloc (AAttach r header) (mp_pool s) = Inr (pc', mp)"
  shows "threads_inv (advance i pc' mp s)"
proof -
  obtain a h where a: "header = Some a" "store_header a (MemAllocInfo_new r) (heap (mp_pool s)) = Inr h"
    "pc' = ADone (a + 16)" "mp = (mp_pool s)\<lparr>heap := h\<rparr>"
    using run by (auto simp: AttachMemAllocInfo_def bindR_Inr_iff sizeof_MemAllocInfo_def split: option.splits)
  show ?thesis
    unfolding a(3,4) using a(1) pc by (intro header_step [OF inv _ _ _ a(2)]) (simp_all add: MemAllocInfo_new_def)
qed

lemma mark_step:
  assumes inv: "threads_inv s" and pc: "mp_pcs s i = DStart x ptr \<or> mp_pcs s i = DSwap (ptr - 16)"
    and run: "mp_exec malloc (mp_pcs s i) (mp_pool s) = Inr (pc', mp)"
  shows "threads_inv (advance i pc' mp s)"
proof -
  obtain b where b: "heap (mp_pool s) (ptr - 16) = Some b" "header_ok (hdr_mAllocSize (block_header b)) (block_size b)"
    using hand_block [OF inv, of i "ptr - 16"] pc by auto
  have detach: "DetachMemAllocInfo ptr = ptr - 16" by (simp add: DetachMemAllocInfo_def sizeof_MemAllocInfo_def)
  from pc show ?thesis
  proof
    assume pc: "mp_pcs s i = DStart x ptr"
    then obtain h where h: "store_header (ptr - 16) ((block_header b)\<lparr>hdr_mExtraInfo := x\<rparr>) (heap (mp_pool s)) = Inr h"
      "pc' = DSwap (ptr - 16)" "mp = (mp_pool s)\<lparr>heap := h\<rparr>"
      using run b(1) by (auto simp: detach load_header_def bindR_Inr_iff Let_def)
    show ?thesis unfolding h(2,3) using b pc by (intro header_step [OF inv _ _ _ h(1)]) simp_all
  next
    assume pc: "mp_pcs s i = DSwap (ptr - 16)"
    then obtain h where h: "store_header (ptr - 16) ((block_header b)\<lparr>hdr_mAllocSize := 0\<rparr>) (heap (mp_pool s)) = Inr h"
      "pc' = DAssert (hdr_mAllocSize (block_header b)) (ptr - 16)" "mp = (mp_pool s)\<lparr>heap := h\<rparr>"
      using run b(1) by (auto simp: load_header_def bindR_Inr_iff Let_def)
    show ?thesis unfolding h(2,3) using b pc by (intro header_step [OF inv _ _ _ h(1)]) simp_all
  qed
qed

lemma header_ok_class: "header_ok r bs \<Longrightarrow> class_of r p \<Longrightarrow> bs = boundaries ! p"
  using class_of_size [of r p] by (auto simp: header_ok_def class_of_def MAX_ALLOC_SIZE_def)

lemma malloc_large_step:
  assumes inv: "threads_inv s" and mal: "malloc_ok malloc" and pc: "mp_pcs s i = ALarge r"
    and run: "mp_exec malloc (ALarge r) (mp_pool s) = Inr (pc', mp)"
  shows "threads_inv (advance i pc' mp s)"
proof -
  obtain header h where m: "aligned_malloc malloc (unat r) (heap (mp_pool s)) = (header, h)"
    "pc' = AAttach r header" "mp = (mp_pool s)\<lparr>heap := h\<rparr>" using run by (auto split: prod.splits)
  have "sint r > MAX_ALLOC_SIZE" using threads_invD(3) [OF inv, of i] pc by simp
  then have "header_ok r (unat r)" by (simp add: header_ok_large MAX_ALLOC_SIZE_def)
  then show ?thesis unfolding m(2,3) using pc by (intro malloc_step [OF inv mal _ m(1)]) simp_all
qed

lemma malloc_pool_step:
  assumes inv: "threads_inv s" and mal: "malloc_ok malloc" and pc: "mp_pcs s i = AFresh r p"
    and run: "mp_exec malloc (AFresh r p) (mp_pool s) = Inr (pc', mp)"
  shows "threads_inv (advance i pc' mp s)"
proof -
  have c: "class_of r p" using threads_invD(3) [OF inv, of i] pc by simp
  have sz: "unat (pool_mAllocSize (pools (mp_pool s) ! p)) = boundaries ! p"
    using tables_ok_pool_size [OF threads_invD(1) [OF inv]] class_of_size [OF c] by blast
  obtain header h where m: "aligned_malloc malloc (boundaries ! p) (heap (mp_pool s)) = (header, h)"
    "pc' = ACount r p header" "mp = (mp_pool s)\<lparr>heap := h\<rparr>" using run by (auto simp: sz split: prod.splits)
  show ?thesis unfolding m(2,3) using pc c by (intro malloc_step [OF inv mal _ m(1)]) simp_all
qed

lemma try_pop_step:
  assumes inv: "threads_inv s" and pc: "mp_pcs s i = APop r"
    and run: "mp_exec malloc (APop r) (mp_pool s) = Inr (pc', mp)"
  shows "threads_inv (advance i pc' mp s)"
proof -
  obtain p where p: "pool_at r (mp_pool s) = Inr p" using run by (auto simp: bindR_Inr_iff)
  then have c: "class_of r p" by (rule pool_at_class [OF threads_invD(1) [OF inv]])
  show ?thesis
  proof (cases "free_list (mp_pool s) p")
    case Nil
    then show ?thesis using run pc p c by (intro local_step [OF inv]) (auto simp: free_list_def)
  next
    case (Cons a rest)
    then have "pc' = AAssert r p a" "mp = set_free_list p rest (mp_pool s)"
      using run p by (auto simp: free_list_def)
    then show ?thesis using pc c class_of_size [OF c] Cons by (auto intro!: pop_step [OF inv _ _ Cons])
  qed
qed

lemma choose_pool_step:
  assumes inv: "threads_inv s" and pc: "mp_pcs s i = DAssert r a"
    and run: "mp_exec malloc (DAssert r a) (mp_pool s) = Inr (pc', mp)"
  shows "threads_inv (advance i pc' mp s)"
proof (cases "sint r > MAX_ALLOC_SIZE")
  case True
  obtain b where "heap (mp_pool s) a = Some b" "header_ok r (block_size b)" "hdr_mAllocSize (block_header b) = 0"
    using hand_block [OF inv, of i a] pc by auto
  then show ?thesis using run pc True by (intro local_step [OF inv]) (auto simp: bindR_Inr_iff)
next
  case False
  then obtain p where p: "pool_at r (mp_pool s) = Inr p" "pc' = DPush p a" "mp = mp_pool s"
    using run by (auto simp: bindR_Inr_iff)
  have c: "class_of r p" by (rule pool_at_class [OF threads_invD(1) [OF inv] p(1)])
  show ?thesis
    using pc p class_of_size [OF c] header_ok_class [OF _ c] by (intro local_step [OF inv]) auto
qed

lemma exec_inv:
  assumes inv: "threads_inv s" and mal: "malloc_ok malloc"
    and run: "mp_exec malloc (mp_pcs s i) (mp_pool s) = Inr (pc', mp)"
  shows "threads_inv (advance i pc' mp s)"
proof (cases "mp_pcs s i")
  case (ALarge r)
  then show ?thesis using malloc_large_step [OF inv mal ALarge] run by simp
next
  case (APop r)
  then show ?thesis using try_pop_step [OF inv APop] run by simp
next
  case (AFresh r p)
  then show ?thesis using malloc_pool_step [OF inv mal AFresh] run by simp
next
  case (AAssert r p a)
  then show ?thesis using run threads_invD(3) [OF inv, of i] by (intro local_step [OF inv]) (auto simp: bindR_Inr_iff)
next
  case (ACount r p header)
  have c: "class_of r p" using threads_invD(3) [OF inv, of i] ACount by simp
  show ?thesis using run ACount class_of_size [OF c] by (intro local_step [OF inv]) auto
next
  case (AAttach r header)
  show ?thesis by (rule attach_step [OF inv AAttach run [unfolded AAttach]])
next
  case (DStart x ptr)
  then show ?thesis using mark_step [OF inv _ run] by blast
next
  case (DSwap a)
  then show ?thesis using mark_step [OF inv _ run, of _ "a + 16"] by simp
next
  case (DAssert r a)
  then show ?thesis using choose_pool_step [OF inv DAssert] run by simp
next
  case (DFree a)
  then show ?thesis using run unmap_step [OF inv DFree] by auto
next
  case (DPush p a)
  then show ?thesis using run push_step [OF inv DPush] by (auto simp: free_list_def)
qed (use run threads_invD(3) [OF inv, of i] in \<open>(intro local_step [OF inv]; auto simp: Let_def)+\<close>)

lemma exec_no_crash:
  assumes inv: "threads_inv s"
  shows "mp_exec malloc (mp_pcs s i) (mp_pool s) \<noteq> Inl CrashAssert"
proof
  assume crash: "mp_exec malloc (mp_pcs s i) (mp_pool s) = Inl CrashAssert"
  have table: "pool_at r (mp_pool s) \<noteq> Inl CrashAssert" for r
    using pool_at_table [of "mp_pool s" r] threads_invD(1) [OF inv] by (simp add: tables_ok_def)
  show False
  proof (cases "mp_pcs s i")
    case (APop r)
    show ?thesis
    proof (cases "pool_at r (mp_pool s)")
      case (Inr p)
      then show ?thesis using crash APop by (cases "pool_mFreeList (pools (mp_pool s) ! p)") simp_all
    qed (use crash APop table in simp)
  next
    case (AAssert r p a)
    then show ?thesis using crash hand_block [OF inv, of i a] by (auto simp: load_header_def)
  next
    case (DAssert r a)
    then show ?thesis
      using crash hand_block [OF inv, of i a] table [of r]
      by (auto simp: header_ok_def bindR_Inl_iff CRASH_ASSERT_def split: if_splits)
  qed (use crash table in \<open>auto simp: bindR_Inl_iff load_header_def store_header_def AttachMemAllocInfo_def Let_def
        split: option.splits list.splits prod.splits\<close>)
qed

lemma return_step:
  assumes inv: "threads_inv s" and pc: "mp_pcs s i = ADone ptr"
  shows "threads_inv (s\<lparr>mp_pcs := (mp_pcs s)(i := MpIdle), held := insert ptr (held s)\<rparr>)" (is "threads_inv ?s'")
proof -
  note D = threads_invD [OF inv]
  have ptr: "16 \<le> ptr" using D(3) [of i] pc by simp
  have here: "Hand i \<in> places s (ptr - 16)" using pc by (simp add: places_iff)
  have "owner_inv ?s'"
  proof (rule owner_move [where a = "ptr - 16" and x = Held and i = i and pc' = MpIdle, OF D(4)])
    show "y = Held" if "y \<in> places ?s' (ptr - 16)" for y
    proof (rule ccontr)
      assume "y \<noteq> Held"
      with that have "y \<in> places s (ptr - 16)" "y \<noteq> Hand i" by (auto simp: places_iff split: place.splits if_splits)
      then show False using ownerD(1) [OF D(4) here] by blast
    qed
    show "\<exists>b. heap (mp_pool ?s') (ptr - 16) = Some b \<and> place_block ?s' Held b"
      using hand_block [OF inv, of i "ptr - 16"] pc by simp
  qed (use pc ptr in auto)
  with inv ptr show ?thesis by (simp add: threads_inv_def)
qed

lemma call_free_step:
  assumes inv: "threads_inv s" and pc: "mp_pcs s i = MpIdle" and ptr: "ptr \<in> held s"
  shows "threads_inv (s\<lparr>mp_pcs := (mp_pcs s)(i := DStart x ptr), held := held s - {ptr}\<rparr>)" (is "threads_inv ?s'")
proof -
  note D = threads_invD [OF inv]
  have le: "16 \<le> ptr" by (rule D(5) [OF ptr])
  have here: "Held \<in> places s (ptr - 16)" using ptr le by (simp add: places_iff)
  have "owner_inv ?s'"
  proof (rule owner_move [where a = "ptr - 16" and x = "Hand i" and i = i and pc' = "DStart x ptr", OF D(4)])
    show "y = Hand i" if "y \<in> places ?s' (ptr - 16)" for y
    proof (rule ccontr)
      assume "y \<noteq> Hand i"
      with that le have "y \<in> places s (ptr - 16)" "y \<noteq> Held" by (auto simp: places_iff split: place.splits if_splits)
      then show False using ownerD(1) [OF D(4) here] by blast
    qed
    show "\<exists>b. heap (mp_pool ?s') (ptr - 16) = Some b \<and> place_block ?s' (Hand i) b"
      using ownerD(2) [OF D(4) here] by simp
  qed (use pc le in auto)
  with inv le show ?thesis by (auto simp: threads_inv_def)
qed

lemma mp_act_inv:
  assumes "threads_inv s" and "malloc_ok malloc" and "mp_act malloc a s = Some s'"
  shows "threads_inv s'"
proof (cases a)
  case (CallAllocate i sz)
  then have pc: "mp_pcs s i = MpIdle" and s': "s' = advance i (AStart sz) (mp_pool s) s"
    using assms(3) by (auto simp: advance_def split: if_splits)
  show ?thesis unfolding s' using pc by (intro local_step [OF assms(1)]) auto
next
  case (CallDeallocate i x ptr)
  then show ?thesis using assms(3) call_free_step [OF assms(1)] by (auto split: if_splits)
next
  case (MpStep i)
  show ?thesis
  proof (cases "\<exists>ptr. mp_pcs s i = ADone ptr")
    case True
    then show ?thesis using MpStep assms(3) return_step [OF assms(1)] by auto
  next
    case False
    then have "(case mp_exec malloc (mp_pcs s i) (mp_pool s) of Inl e \<Rightarrow> None
       | Inr (pc', mp) \<Rightarrow> Some (s\<lparr>mp_pool := mp, mp_pcs := (mp_pcs s)(i := pc')\<rparr>)) = Some s'"
      using MpStep assms(3) by (cases "mp_pcs s i") simp_all
    then obtain pc' mp where "mp_exec malloc (mp_pcs s i) (mp_pool s) = Inr (pc', mp)" "s' = advance i pc' mp s"
      by (auto simp: advance_def split: sum.splits)
    then show ?thesis using exec_inv [OF assms(1,2)] by blast
  qed
qed

lemma mp_reachable_inv: "mp_reachable malloc s \<Longrightarrow> malloc_ok malloc \<Longrightarrow> threads_inv s"
proof (induction rule: mp_reachable.induct)
  case (start mp)
  then have "mp_inv mp" "mp = \<lparr>mSmallSizeMemoryPoolTable = pool_table, pools = map fresh_pool boundaries, heap = Map.empty\<rparr>"
    using MemoryPool_new_inv by (simp_all add: MemoryPool_new_eq)
  moreover have "free_list mp p = []" if "p < 47" for p
    using that calculation(2) by (simp add: free_list_def boundaries_facts(2) fresh_pool_def)
  ultimately show ?case
    using mp_invD(1,2,7) [of mp]
    by (auto simp: threads_inv_def tables_ok_def blocks_ok_def owner_inv_def places_iff split: place.splits)
next
  case (act s a s')
  then show ?case using mp_act_inv by blast
qed

section \<open>Properties of the pool under threads\<close>

lemma mp_inv_table_ok: "mp_inv mp \<Longrightarrow> table_ok mp"
  using class_index_size length_pools [of mp]
  by (auto simp: table_ok_def pool_at_table mp_invD(1) split: if_splits)

lemma advance_same: "advance i (mp_pcs s i) (mp_pool s) s = s"
  by (simp add: advance_def)

lemma alone_reachable:
  "mp_reachable malloc s \<Longrightarrow> mp_alone malloc k (mp_pcs s i) (mp_pool s) = Inr (pc', mp) \<Longrightarrow>
    mp_reachable malloc (advance i pc' mp s)"
proof (induction k arbitrary: s)
  case 0
  then show ?case by (auto simp: advance_same)
next
  case (Suc k)
  show ?case
  proof (cases "\<exists>ptr. mp_pcs s i = ADone ptr")
    case True
    then have "pc' = mp_pcs s i \<and> mp = mp_pool s"
      using Suc.prems(2) by (auto simp: mp_alone_done simp del: mp_alone.simps)
    then show ?thesis using Suc.prems(1) by (simp add: advance_same)
  next
    case False
    obtain pc1 mp1 where e: "mp_exec malloc (mp_pcs s i) (mp_pool s) = Inr (pc1, mp1)" "mp_alone malloc k pc1 mp1 = Inr (pc', mp)"
      using Suc.prems(2) by (auto simp: bindR_Inr_iff)
    have "mp_act malloc (MpStep i) s = Some (advance i pc1 mp1 s)"
    proof (cases "mp_pcs s i")
      case (ADone x)
      then show ?thesis using False by blast
    qed (use e(1) in \<open>simp_all add: advance_def\<close>)
    then have r: "mp_reachable malloc (advance i pc1 mp1 s)" by (rule mp_reachable.act [OF Suc.prems(1)])
    have "mp_reachable malloc (advance i pc' mp (advance i pc1 mp1 s))" by (rule Suc.IH [OF r]) (simp add: e(2))
    then show ?thesis by (simp add: advance_def)
  qed
qed

text \<open>C5: However the atomic steps of the threads interleave, no assertion of the pool fails in any thread, and a block that
  \<open>Allocate\<close> is about to return belongs to the caller alone: the pointer is held by nobody, no
  other thread has the block in hand, it is on no free list, it is large enough for its header
  and the request, and it does not overlap any block that is held.\<close>

theorem threads_get_private_blocks:
  assumes "mp_reachable malloc s" and "malloc_ok malloc"
  shows "(\<forall>k. mp_exec malloc (mp_pcs s k) (mp_pool s) \<noteq> Inl CrashAssert) \<and> (mp_pcs s i = ADone ptr \<longrightarrow>
    ptr \<notin> held s \<and> (j \<noteq> i \<longrightarrow> hand (mp_pcs s j) \<noteq> Some (ptr - 16)) \<and> (p < 47 \<longrightarrow> ptr - 16 \<notin> set (free_list (mp_pool s) p)) \<and>
    (\<exists>b. heap (mp_pool s) (ptr - 16) = Some b \<and> 0 < sint (hdr_mAllocSize (block_header b)) \<and>
      nat (sint (hdr_mAllocSize (block_header b))) \<le> block_size b \<and>
      (\<forall>q \<in> held s. \<exists>b'. heap (mp_pool s) (q - 16) = Some b' \<and> apart (ptr - 16) (block_size b) (q - 16) (block_size b'))))"
  (is "_ \<and> (_ \<longrightarrow> ?own)")
proof -
  have inv: "threads_inv s" by (rule mp_reachable_inv [OF assms])
  have ?own if adone: "mp_pcs s i = ADone ptr"
  proof -
    note D = threads_invD [OF inv]
    have le: "16 \<le> ptr" using D(3) [of i] adone by simp
    have here: "Hand i \<in> places s (ptr - 16)" using adone by (simp add: places_iff)
    have only: "y \<in> places s (ptr - 16) \<Longrightarrow> y = Hand i" for y by (rule ownerD(1) [OF D(4) here])
    have "ptr \<notin> held s" using only [of Held] le by (auto simp: places_iff)
    moreover have other: "j \<noteq> i \<longrightarrow> hand (mp_pcs s j) \<noteq> Some (ptr - 16)" using only [of "Hand j"] by (auto simp: places_iff)
    moreover have "p < 47 \<longrightarrow> ptr - 16 \<notin> set (free_list (mp_pool s) p)" using only [of "Free p"] by (auto simp: places_iff)
    moreover obtain b where b: "heap (mp_pool s) (ptr - 16) = Some b" "header_ok (hdr_mAllocSize (block_header b)) (block_size b)"
      using hand_block [OF inv, of i "ptr - 16"] adone by auto
    moreover have "\<exists>b'. heap (mp_pool s) (q - 16) = Some b' \<and> apart (ptr - 16) (block_size b) (q - 16) (block_size b')"
      if q: "q \<in> held s" for q
    proof -
      have "Held \<in> places s (q - 16)" using q D(5) [OF q] by (simp add: places_iff)
      then obtain b' where "heap (mp_pool s) (q - 16) = Some b'" using ownerD(2) [OF D(4)] by blast
      moreover have "q - 16 \<noteq> ptr - 16" using q D(5) [OF q] le \<open>ptr \<notin> held s\<close> by (metis le_add_diff_inverse)
      ultimately show ?thesis using D(2) b(1) unfolding blocks_ok_def by metis
    qed
    ultimately show ?thesis by (auto simp: header_ok_def)
  qed
  then show ?thesis using exec_no_crash [OF inv] by blast
qed

text \<open>A thread that nobody disturbs computes the sequential operations: five steps lead from the call of
  \<open>Allocate\<close> or \<open>Deallocate\<close> to its return, with the same result, the same pool and the same faults.\<close>

lemma thread_alone_is_sequential:
  assumes "mp_inv mp"
  shows "mp_alone malloc 5 (AStart sz) mp = bindR (Allocate malloc sz mp) (\<lambda>(ptr, mp'). Inr (ADone ptr, mp')) \<and>
    mp_alone malloc 5 (DStart x ptr) mp = bindR (Deallocate x ptr mp) (\<lambda>mp'. Inr (MpIdle, mp'))"
  using Allocate_alone Deallocate_alone mp_inv_table_ok [OF assms] by blast

definition returning_sys :: mp_sys where
  "returning_sys = \<lparr>mp_pool = one_block_mp, mp_pcs = (\<lambda>_. MpIdle)(2 := ADone 24, 5 := AStart 7), held = {}\<rparr>"

lemma returning_sys: "mp_reachable region_malloc returning_sys"
proof -
  define s0 where "s0 = \<lparr>mp_pool = fresh_mp, mp_pcs = (\<lambda>_. MpIdle), held = {}\<rparr>"
  define s1 where "s1 = s0\<lparr>mp_pcs := (mp_pcs s0)(2 := AStart 100)\<rparr>"
  have "mp_reachable region_malloc s0" unfolding s0_def by (rule mp_reachable.start [OF fresh_mp(1)])
  then have "mp_reachable region_malloc s1"
    by (rule mp_reachable.act [of _ _ "CallAllocate 2 100"]) (simp add: s1_def s0_def)
  then have "mp_reachable region_malloc (advance 2 (ADone 24) one_block_mp s1)"
    by (rule alone_reachable [where k = 5])
      (use Allocate_alone [OF mp_inv_table_ok [OF fresh_mp(2)], of region_malloc 100] Allocate_first in \<open>simp add: s1_def s0_def\<close>)
  then show ?thesis
    by (rule mp_reachable.act [of _ _ "CallAllocate 5 7"])
      (simp add: s1_def s0_def advance_def returning_sys_def fun_upd_twist)
qed

theorem threads_get_private_blocks_witness:
  "mp_exec region_malloc (mp_pcs returning_sys 5) (mp_pool returning_sys) \<noteq> Inl CrashAssert \<and>
   24 \<notin> held returning_sys \<and> 8 \<notin> set (free_list (mp_pool returning_sys) 3)"
proof -
  have at: "mp_pcs returning_sys 2 = ADone 24" "(3 :: nat) < 47" by (simp_all add: returning_sys_def)
  note own = threads_get_private_blocks [OF returning_sys region_malloc_ok, of 2 24 5 3]
  have "24 \<notin> held returning_sys" "24 - 16 \<notin> set (free_list (mp_pool returning_sys) 3)" using own at by blast+
  moreover have "mp_exec region_malloc (mp_pcs returning_sys 5) (mp_pool returning_sys) \<noteq> Inl CrashAssert" using own by blast
  ultimately show ?thesis by simp
qed

end
