(* ===== verification/XTL.thy ===== *)
theory XTL
  imports MemoryPool
begin

text \<open>
  \<open>XTL.hpp\<close>: the allocator of the standard containers over the memory pool. \<open>n\<close> and \<open>sizeof(T)\<close> are
  \<open>size_t\<close>; their product wraps and is passed on as the \<open>int\<close> that \<open>MemoryPool::Allocate\<close> takes.
  \<open>deallocate\<close> names a variable \<open>ptr\<close> that does not exist; it is read as its parameter \<open>p\<close>.
\<close>

definition STLAllocator_allocate ::
  "malloc_fn \<Rightarrow> size_t \<Rightarrow> size_t \<Rightarrow> MemoryPool \<Rightarrow> (nat \<times> MemoryPool) result" where
  "STLAllocator_allocate malloc sizeof_T n mp = Allocate malloc (n * sizeof_T) mp"

definition STLAllocator_deallocate :: "nat \<Rightarrow> size_t \<Rightarrow> MemoryPool \<Rightarrow> MemoryPool result" where
  "STLAllocator_deallocate p n mp = Deallocate (- 1599) p mp"

text \<open>The objects of the element type, by address. \<open>construct\<close> makes a copy of \<open>t\<close> at \<open>p\<close> and \<open>destroy\<close> ends the
  object there; what the element's own constructor and destructor do besides is theirs.\<close>

type_synonym 't objects = "nat \<rightharpoonup> 't"

definition STLAllocator_construct :: "nat \<Rightarrow> 't \<Rightarrow> 't objects \<Rightarrow> 't objects" where
  "STLAllocator_construct p t objs = objs(p \<mapsto> t)"

definition STLAllocator_destroy :: "nat \<Rightarrow> 't objects \<Rightarrow> 't objects" where
  "STLAllocator_destroy p objs = objs(p := None)"

text \<open>A container fills a block with the elements it was asked to hold, and empties it before it gives it back.\<close>

primrec construct_all :: "nat \<Rightarrow> nat \<Rightarrow> 't list \<Rightarrow> 't objects \<Rightarrow> 't objects" where
  "construct_all w p [] objs = objs"
| "construct_all w p (t # ts) objs = construct_all w (p + w) ts (STLAllocator_construct p t objs)"

primrec destroy_all :: "nat \<Rightarrow> nat \<Rightarrow> nat \<Rightarrow> 't objects \<Rightarrow> 't objects" where
  "destroy_all w p 0 objs = objs"
| "destroy_all w p (Suc n) objs = destroy_all w (p + w) n (STLAllocator_destroy p objs)"

section \<open>The container aliases\<close>

text \<open>Types as the aliases write them, and the parameters of the standard templates: those an alias leaves out
  have the standard's defaults.\<close>

datatype type_expr = TParam string | PairOf type_expr type_expr | ConstOf type_expr
  | STLAllocatorOf type_expr | StdAllocatorOf type_expr
  | LessOf type_expr | HashOf type_expr | HashCompareOf type_expr | EqualToOf type_expr | CharTraitsOf type_expr

datatype std_template = std_vector | std_deque | std_list | std_map | std_set | std_unordered_map
  | std_unordered_set | std_basic_string

datatype role = Key | Mapped | Compare | Hash | KeyEqual | Traits | Alloc

record container =
  tmpl :: std_template
  targs :: "type_expr list"

fun roles :: "std_template \<Rightarrow> role list" where
  "roles std_vector = [Key, Alloc]"
| "roles std_deque = [Key, Alloc]"
| "roles std_list = [Key, Alloc]"
| "roles std_map = [Key, Mapped, Compare, Alloc]"
| "roles std_set = [Key, Compare, Alloc]"
| "roles std_unordered_map = [Key, Mapped, Hash, KeyEqual, Alloc]"
| "roles std_unordered_set = [Key, Hash, KeyEqual, Alloc]"
| "roles std_basic_string = [Key, Traits, Alloc]"

text \<open>\<open>Key\<close> stands for the element type of a container without keys.\<close>

definition element :: "container \<Rightarrow> type_expr" where
  "element c = (if tmpl c = std_map \<or> tmpl c = std_unordered_map
     then PairOf (ConstOf (targs c ! 0)) (targs c ! 1) else targs c ! 0)"

fun default_arg :: "container \<Rightarrow> role \<Rightarrow> type_expr" where
  "default_arg c Compare = LessOf (targs c ! 0)"
| "default_arg c Hash = HashOf (targs c ! 0)"
| "default_arg c KeyEqual = EqualToOf (targs c ! 0)"
| "default_arg c Traits = CharTraitsOf (targs c ! 0)"
| "default_arg c r = StdAllocatorOf (element c)"

definition role_arg :: "container \<Rightarrow> role \<Rightarrow> type_expr option" where
  "role_arg c r =
     (case map_of (zip (roles (tmpl c)) (map Some (targs c) @ replicate (length (roles (tmpl c))) None)) r of
        None \<Rightarrow> None
      | Some None \<Rightarrow> Some (default_arg c r)
      | Some (Some t) \<Rightarrow> Some t)"

definition xvector :: "type_expr \<Rightarrow> container" where
  "xvector T = \<lparr>tmpl = std_vector, targs = [T, STLAllocatorOf T]\<rparr>"

definition xdeque :: "type_expr \<Rightarrow> container" where
  "xdeque T = \<lparr>tmpl = std_deque, targs = [T, STLAllocatorOf T]\<rparr>"

definition xlist :: "type_expr \<Rightarrow> container" where
  "xlist T = \<lparr>tmpl = std_list, targs = [T]\<rparr>"

definition xmap :: "type_expr \<Rightarrow> type_expr \<Rightarrow> type_expr \<Rightarrow> container" where
  "xmap K T C = \<lparr>tmpl = std_map, targs = [K, T, STLAllocatorOf (PairOf K T)]\<rparr>"

definition xset :: "type_expr \<Rightarrow> type_expr \<Rightarrow> container" where
  "xset T C = \<lparr>tmpl = std_set, targs = [T, C, STLAllocatorOf T]\<rparr>"

definition xunordered_map :: "type_expr \<Rightarrow> type_expr \<Rightarrow> type_expr \<Rightarrow> container" where
  "xunordered_map K T C = \<lparr>tmpl = std_unordered_map, targs = [K, T, C, STLAllocatorOf (PairOf K T)]\<rparr>"

definition xunordered_set :: "type_expr \<Rightarrow> type_expr \<Rightarrow> container" where
  "xunordered_set T C = \<lparr>tmpl = std_unordered_set, targs = [T, C, STLAllocatorOf T]\<rparr>"

definition xstring :: container where
  "xstring = \<lparr>tmpl = std_basic_string,
     targs = [TParam ''wchar_t'', CharTraitsOf (TParam ''wchar_t''), STLAllocatorOf (TParam ''wchar_t'')]\<rparr>"

text \<open>A container takes its memory from the pool when its allocator is \<open>STLAllocator\<close> of its elements.\<close>

definition pooled :: "container \<Rightarrow> bool" where
  "pooled c \<longleftrightarrow> role_arg c Alloc = Some (STLAllocatorOf (element c))"

text \<open>An allocator can be called neither as an order nor as an equality.\<close>

fun is_allocator :: "type_expr \<Rightarrow> bool" where
  "is_allocator (STLAllocatorOf t) \<longleftrightarrow> True"
| "is_allocator (StdAllocatorOf t) \<longleftrightarrow> True"
| "is_allocator t \<longleftrightarrow> False"

definition misplaced_allocator :: "container \<Rightarrow> role option" where
  "misplaced_allocator c =
     List.find (\<lambda>r. r \<in> {Compare, Hash, KeyEqual} \<and> (case role_arg c r of None \<Rightarrow> False | Some t \<Rightarrow> is_allocator t))
       (roles (tmpl c))"

lemmas alias_defs = xvector_def xdeque_def xlist_def xmap_def xset_def xunordered_map_def xunordered_set_def xstring_def

text \<open>Vectors, deques, sets and strings use the pool. Lists do not, and the associative containers with
  mapped values or hashes pass the allocator where the order or the equality belongs, whatever the
  arguments of the alias are.\<close>

lemma pooled_aliases:
  "pooled (xvector T)" "pooled (xdeque T)" "pooled (xset T C)" "pooled xstring"
  "\<not> pooled (xlist T)" "\<not> pooled (xmap K T C)" "\<not> pooled (xunordered_map K T C)" "\<not> pooled (xunordered_set T C)"
  by (simp_all add: pooled_def role_arg_def element_def alias_defs)

lemma misplaced_allocators:
  "misplaced_allocator (xmap K T C) = Some Compare"
  "\<not> is_allocator C \<Longrightarrow> misplaced_allocator (xunordered_map K T C) = Some KeyEqual"
  "\<not> is_allocator C \<Longrightarrow> misplaced_allocator (xunordered_set T C) = Some KeyEqual"
  "\<not> is_allocator C \<Longrightarrow> misplaced_allocator (xset T C) = None"
  "misplaced_allocator (xvector T) = None"
  by (simp_all add: misplaced_allocator_def role_arg_def alias_defs)

section \<open>The allocator\<close>

lemma unat_times: "unat (a :: size_t) * unat b < 2 ^ 32 \<Longrightarrow> unat (a * b) = unat a * unat b"
  by (simp add: unat_mult_lem [symmetric])

text \<open>A positive request that does not wrap as an unsigned sum is not negative as an \<open>int\<close>.\<close>

lemma request_unsigned:
  assumes "0 < sint (request sz)" and "unat sz + 16 \<le> 2 ^ 32"
  shows "sint (request sz) = int (unat sz) + 16"
proof -
  have "sint sz = int (unat sz) \<or> sint sz = int (unat sz) - 2 ^ 32"
    using uint_lt2p [of sz] by (cases "bit (uint sz) 31") (simp_all add: sint_uint signed_take_bit_eq_take_bit_minus take_bit_int_eq_self)
  moreover have "int (unat sz) + 16 \<le> 2 ^ 32"
    using of_nat_mono [OF assms(2), where 'a = int] by (simp only: of_nat_add of_nat_power of_nat_numeral)
  ultimately show ?thesis using request_no_wrap [OF assms(1)] assms(1) by linarith
qed

text \<open>Elements are at their addresses, and objects elsewhere are not touched.\<close>

lemma construct_all_outside: "(\<And>i. i < length ts \<Longrightarrow> q \<noteq> p + i * w) \<Longrightarrow> construct_all w p ts objs q = objs q"
proof (induction ts arbitrary: p objs)
  case (Cons t ts)
  have "q \<noteq> p + w + i * w" if "i < length ts" for i using Cons.prems [of "Suc i"] that by (simp add: algebra_simps)
  moreover have "q \<noteq> p" using Cons.prems [of 0] by simp
  ultimately show ?case using Cons.IH [of "p + w"] by (simp add: STLAllocator_construct_def)
qed simp

lemma construct_all_nth: "0 < w \<Longrightarrow> i < length ts \<Longrightarrow> construct_all w p ts objs (p + i * w) = Some (ts ! i)"
proof (induction ts arbitrary: p objs i)
  case (Cons t ts)
  show ?case
  proof (cases i)
    case 0
    then show ?thesis using Cons.prems(1) by (simp add: construct_all_outside STLAllocator_construct_def)
  next
    case (Suc j)
    then show ?thesis using Cons.IH [of j "p + w"] Cons.prems by (simp add: algebra_simps)
  qed
qed simp

lemma destroy_all_outside: "(\<And>i. i < n \<Longrightarrow> q \<noteq> p + i * w) \<Longrightarrow> destroy_all w p n objs q = objs q"
proof (induction n arbitrary: p objs)
  case (Suc n)
  have "q \<noteq> p + w + i * w" if "i < n" for i using Suc.prems [of "Suc i"] that by (simp add: algebra_simps)
  moreover have "q \<noteq> p" using Suc.prems [of 0] by simp
  ultimately show ?case using Suc.IH [of "p + w"] by (simp add: STLAllocator_destroy_def)
qed simp

lemma destroy_all_nth: "0 < w \<Longrightarrow> i < n \<Longrightarrow> destroy_all w p n objs (p + i * w) = None"
proof (induction n arbitrary: p objs i)
  case (Suc n)
  show ?case
  proof (cases i)
    case 0
    then show ?thesis using Suc.prems(1) by (simp add: destroy_all_outside STLAllocator_destroy_def)
  next
    case (Suc j)
    then show ?thesis using Suc.IH [of j "p + w"] Suc.prems by (simp add: algebra_simps)
  qed
qed simp

lemma destroy_constructed:
  assumes "0 < w" and "\<And>i. i < length ts \<Longrightarrow> objs (p + i * w) = None"
  shows "destroy_all w p (length ts) (construct_all w p ts objs) = objs"
proof
  fix q
  show "destroy_all w p (length ts) (construct_all w p ts objs) q = objs q"
  proof (cases "\<exists>i < length ts. q = p + i * w")
    case True
    then show ?thesis using assms by (auto simp: destroy_all_nth)
  next
    case False
    then show ?thesis by (simp add: destroy_all_outside construct_all_outside)
  qed
qed

text \<open>Filling a block of the pool leaves the objects in every other block as they are.\<close>

lemma elements_stay_in_block:
  assumes inv: "mp_inv mp" and b: "heap mp a = Some b" "length ts * w + 16 \<le> block_size b"
    and other: "heap mp a' = Some b'" "a' \<noteq> a" "a' \<le> q" "q < a' + block_size b'"
    and w: "0 < w"
  shows "construct_all w (a + 16) ts objs q = objs q"
proof (rule construct_all_outside)
  fix i assume "i < length ts"
  then have "Suc i * w \<le> length ts * w" by (intro mult_le_mono1) simp
  then have "a \<le> a + 16 + i * w" "a + 16 + i * w < a + block_size b" using b(2) w by (simp_all add: algebra_simps)
  then show "q \<noteq> a + 16 + i * w" using mp_invD(5) [OF inv b(1) other(1)] other(2-4) by (auto simp: apart_def)
qed

text \<open>C24: As long as the bytes of \<open>n\<close> elements and the header fit into 32 bits, a block that the container
  allocator returns has room for all \<open>n\<close> elements, constructing them there changes no object in another block,
  and giving the block back restores the set of blocks in use.
  One byte more than that, and the addition of the header wraps: a request for 4294967281 one-byte
  elements is answered with a block of 32 bytes.\<close>

theorem container_block_holds_elements:
  assumes "pool_reachable malloc mp" and "malloc_ok malloc"
    and "STLAllocator_allocate malloc sizeof_T n mp = Inr (ptr, mp')" and "unat n * unat sizeof_T + 16 \<le> 2 ^ 32"
  shows "(\<exists>b. heap mp' (ptr - 16) = Some b \<and> unat n * unat sizeof_T + 16 \<le> block_size b) \<and>
    (\<forall>ts a b q. length ts = unat n \<and> 0 < unat sizeof_T \<and> heap mp' a = Some b \<and> a \<noteq> ptr - 16 \<and> q \<in> {a..<a + block_size b} \<longrightarrow>
       construct_all (unat sizeof_T) ptr ts objs q = objs q) \<and>
    (\<exists>mp''. STLAllocator_deallocate ptr n mp' = Inr mp'' \<and> live mp'' = live mp) \<and>
    (\<exists>q mp1 b. STLAllocator_allocate region_malloc 1 4294967281 fresh_mp = Inr (q, mp1) \<and>
       heap mp1 (q - 16) = Some b \<and> block_size b = 32)"
proof -
  note inv = pool_reachable_inv [OF assms(1,2)]
  note res = assms(3) [unfolded STLAllocator_allocate_def]
  obtain a bs where a: "ptr = a + 16" "header_ok (request (n * sizeof_T)) bs"
    "heap mp' = (heap mp)(a \<mapsto> granted bs (request (n * sizeof_T)))"
    using Allocate_cases [OF inv assms(2) res] by metis
  have u: "unat (n * sizeof_T) = unat n * unat sizeof_T" using assms(4) by (intro unat_times) simp
  have "int (unat (n * sizeof_T)) + 16 \<le> int bs"
    using a(2) request_unsigned [of "n * sizeof_T"] assms(4) unfolding u by (auto simp: header_ok_def nat_le_iff simp del: uint_nat)
  then have room: "unat n * unat sizeof_T + 16 \<le> bs" unfolding u by presburger
  moreover have "construct_all (unat sizeof_T) ptr ts objs q = objs q"
    if "length ts = unat n" "0 < unat sizeof_T" "heap mp' x = Some b" "x \<noteq> ptr - 16" "q \<in> {x..<x + block_size b}" for ts x b q
    using elements_stay_in_block [of mp' a _ ts "unat sizeof_T" x b q objs] Allocate_live [OF inv assms(2) res] that room
    by (simp add: a(1,3))
  moreover have "\<exists>mp''. STLAllocator_deallocate ptr n mp' = Inr mp'' \<and> live mp'' = live mp"
    using Allocate_live [OF inv assms(2) res] Deallocate_live [of mp' ptr "- 1599"] by (auto simp: STLAllocator_deallocate_def)
  moreover have "\<exists>q mp1 b. STLAllocator_allocate region_malloc 1 4294967281 fresh_mp = Inr (q, mp1) \<and>
       heap mp1 (q - 16) = Some b \<and> block_size b = 32"
  proof -
    have r: "request 4294967281 = 1" by (simp add: request_def sizeof_MemAllocInfo_def)
    have c: "class_index (Suc 0) = 0" "boundaries ! 0 = 32" by (simp_all add: class_index_def boundaries_eq)
    have f: "free_list fresh_mp 0 = []"
      by (simp add: free_list_def fresh_mp_def boundaries_facts(2) fresh_pool_def)
    have "heap fresh_mp = Map.empty" by (simp add: fresh_mp_def)
    then show ?thesis
      using Allocate_small [OF fresh_mp(2), of 4294967281 0 region_malloc] region_malloc_empty [of 32]
      by (simp add: STLAllocator_allocate_def r c f grant_def)
  qed
  ultimately show ?thesis using a(1,3) by auto
qed

theorem container_block_holds_elements_witness:
  "STLAllocator_allocate region_malloc 4 25 fresh_mp = Inr (24, one_block_mp) \<and>
   (\<exists>b. heap one_block_mp 8 = Some b \<and> 116 \<le> block_size b)"
proof -
  have al: "STLAllocator_allocate region_malloc 4 25 fresh_mp = Inr (24, one_block_mp)"
    using Allocate_first by (simp add: STLAllocator_allocate_def)
  with container_block_holds_elements [where objs = "Map.empty :: nat objects", OF fresh_mp(4) region_malloc_ok al]
  show ?thesis by simp
qed

end
