(* ===== verification/ObjectPool.thy ===== *)
theory ObjectPool
  imports Allocator Exception
begin

text \<open>
  \<open>ObjectPool.hpp\<close>: a free list threaded through the objects themselves. An address is a natural
  number, 0 is \<open>nullptr\<close>, and the memory gives the pointer stored at an address; addresses outside
  it fault. \<open>new uint8_t[n]\<close> is the parameter \<open>new_array\<close>: it returns a base address and the
  uninitialised contents, or fails. The operators run under \<open>mMutex\<close> from beginning to end,
  so each is one step. An object is assumed to hold at least one pointer (four bytes), so that
  neighbouring links do not overlap.
\<close>

type_synonym pointers = "nat \<rightharpoonup> nat"
type_synonym new_array_fn = "pointers \<Rightarrow> nat \<Rightarrow> (nat \<times> (nat \<Rightarrow> nat)) option"

record ObjectPool =
  mFreeList :: nat
  mTotalAllocCount :: "32 word"
  mCurrentUseCount :: "32 word"
  objects :: pointers

definition ObjectPool_init :: "pointers \<Rightarrow> ObjectPool" where
  "ObjectPool_init mem = \<lparr>mFreeList = 0, mTotalAllocCount = 0, mCurrentUseCount = 0, objects = mem\<rparr>"

definition load_ptr :: "nat \<Rightarrow> pointers \<Rightarrow> nat result" where
  "load_ptr a mem =
     (if a = 0 then Inl NullDeref else case mem a of None \<Rightarrow> Inl OutOfBounds | Some v \<Rightarrow> Inr v)"

definition store_ptr :: "nat \<Rightarrow> nat \<Rightarrow> pointers \<Rightarrow> pointers result" where
  "store_ptr a v mem =
     (if a = 0 then Inl NullDeref else case mem a of None \<Rightarrow> Inl OutOfBounds | Some _ \<Rightarrow> Inr (mem(a \<mapsto> v)))"

definition map_chunk :: "nat \<Rightarrow> nat \<Rightarrow> (nat \<Rightarrow> nat) \<Rightarrow> pointers \<Rightarrow> pointers" where
  "map_chunk base n junk mem = (\<lambda>a. if base \<le> a \<and> a < base + n then Some (junk a) else mem a)"

text \<open>The loop that links the chunk; the argument counts the iterations left.\<close>

fun link_nodes :: "nat \<Rightarrow> nat \<Rightarrow> nat \<Rightarrow> nat \<Rightarrow> pointers \<Rightarrow> pointers result" where
  "link_nodes sizeof_C 0 pNext ppCurr mem = Inr mem"
| "link_nodes sizeof_C (Suc k) pNext ppCurr mem =
     (let pNext' = pNext + sizeof_C in
      bindR (store_ptr ppCurr pNext' mem) (\<lambda>mem'. link_nodes sizeof_C k pNext' pNext' mem'))"

definition operator_new ::
  "nat \<Rightarrow> nat \<Rightarrow> new_array_fn \<Rightarrow> ObjectPool \<Rightarrow> (nat \<times> ObjectPool) result" where
  "operator_new sizeof_C ALLOC_COUNT new_array pool =
     bindR
       (if mFreeList pool = 0 then
          (case new_array (objects pool) (sizeof_C * ALLOC_COUNT) of
             None \<Rightarrow> Inl BadAlloc
           | Some (base, junk) \<Rightarrow>
               bindR (link_nodes sizeof_C (ALLOC_COUNT - 1) base base
                        (map_chunk base (sizeof_C * ALLOC_COUNT) junk (objects pool))) (\<lambda>mem.
               Inr (pool\<lparr>mFreeList := base, objects := mem,
                      mTotalAllocCount := mTotalAllocCount pool + of_nat ALLOC_COUNT\<rparr>)))
        else Inr pool)
       (\<lambda>pool. let pAvailable = mFreeList pool in
          bindR (load_ptr pAvailable (objects pool)) (\<lambda>nxt.
          Inr (pAvailable, pool\<lparr>mFreeList := nxt, mCurrentUseCount := mCurrentUseCount pool + 1\<rparr>)))"

definition operator_delete :: "nat \<Rightarrow> ObjectPool \<Rightarrow> ObjectPool result" where
  "operator_delete obj pool =
     bindR (CRASH_ASSERT (sint (mCurrentUseCount pool) > 0)) (\<lambda>_.
     bindR (store_ptr obj (mFreeList pool) (objects pool)) (\<lambda>mem.
     Inr (pool\<lparr>mCurrentUseCount := mCurrentUseCount pool - 1, objects := mem, mFreeList := obj\<rparr>)))"

section \<open>The free list as a list\<close>

fun free_path :: "pointers \<Rightarrow> nat \<Rightarrow> nat list \<Rightarrow> nat \<Rightarrow> bool" where
  "free_path mem p [] q \<longleftrightarrow> p = q"
| "free_path mem p (x # xs) q \<longleftrightarrow> p = x \<and> x \<noteq> 0 \<and> (\<exists>v. mem x = Some v \<and> free_path mem v xs q)"

lemma free_path_append: "free_path mem p (xs @ ys) q \<longleftrightarrow> (\<exists>r. free_path mem p xs r \<and> free_path mem r ys q)"
  by (induction xs arbitrary: p) auto

lemma free_path_upd: "a \<notin> set xs \<Longrightarrow> free_path (mem(a := v)) p xs q \<longleftrightarrow> free_path mem p xs q"
  by (induction xs arbitrary: p) auto

lemma free_path_cong: "(\<And>x. x \<in> set xs \<Longrightarrow> mem x = mem' x) \<Longrightarrow> free_path mem p xs q \<longleftrightarrow> free_path mem' p xs q"
  by (induction xs arbitrary: p) auto

lemma free_path_nodes: "free_path mem p xs q \<Longrightarrow> x \<in> set xs \<Longrightarrow> x \<noteq> 0 \<and> x \<in> dom mem"
  by (induction xs arbitrary: p) auto

definition nodes :: "nat \<Rightarrow> nat \<Rightarrow> nat \<Rightarrow> nat list" where
  "nodes sz base n = map (\<lambda>i. base + i * sz) [0..<n]"

lemma nodes_Suc: "nodes sz base (Suc n) = base # nodes sz (base + sz) n"
  by (simp add: nodes_def upt_conv_Cons map_Suc_upt [symmetric] add.assoc del: upt_Suc)

lemma nodes_snoc: "nodes sz base (Suc n) = nodes sz base n @ [base + n * sz]"
  by (simp add: nodes_def)

lemma nodes_facts: "length (nodes sz base n) = n" "0 < sz \<Longrightarrow> distinct (nodes sz base n)"
  "x \<in> set (nodes sz base n) \<longleftrightarrow> (\<exists>i < n. x = base + i * sz)"
  by (auto simp: nodes_def distinct_map inj_on_def)

text \<open>Linking makes one path through the whole chunk; its end is whatever the last object held.\<close>

lemma link_nodes_ok:
  assumes "0 < base" and "0 < sz" and "\<And>i. i \<le> k \<Longrightarrow> mem (base + i * sz) \<noteq> None"
  shows "\<exists>mem'. link_nodes sz k base base mem = Inr mem' \<and> free_path mem' base (nodes sz base k) (base + k * sz) \<and>
    (\<forall>x. x \<notin> set (nodes sz base k) \<longrightarrow> mem' x = mem x) \<and> dom mem' = dom mem"
  using assms
proof (induction k arbitrary: base mem)
  case 0
  then show ?case by (simp add: nodes_def)
next
  case (Suc k)
  define mem1 where "mem1 = mem(base \<mapsto> base + sz)"
  obtain v where v: "mem base = Some v" using Suc.prems(3) [of 0] by auto
  have "mem1 (base + sz + i * sz) \<noteq> None" if "i \<le> k" for i
    using Suc.prems(3) [of "Suc i"] that by (simp add: mem1_def ac_simps)
  with Suc.IH [of "base + sz" mem1] Suc.prems(1,2)
  obtain mem' where mem': "link_nodes sz k (base + sz) (base + sz) mem1 = Inr mem'"
    "free_path mem' (base + sz) (nodes sz (base + sz) k) (base + sz + k * sz)"
    "\<forall>x. x \<notin> set (nodes sz (base + sz) k) \<longrightarrow> mem' x = mem1 x" "dom mem' = dom mem1" by auto
  have "base \<notin> set (nodes sz (base + sz) k)" using Suc.prems(2) by (auto simp: nodes_facts)
  then have "mem' base = Some (base + sz)" using mem'(3) by (simp add: mem1_def)
  with mem' v Suc.prems(1) show ?case
    by (auto simp: store_ptr_def nodes_Suc mem1_def [symmetric] ac_simps Let_def)
      (auto simp: mem1_def)
qed

lemma operator_new_pop:
  assumes "free_path (objects pool) (mFreeList pool) (x # xs) q"
  shows "\<exists>v. operator_new sz N new_array pool =
      Inr (x, pool\<lparr>mFreeList := v, mCurrentUseCount := mCurrentUseCount pool + 1\<rparr>) \<and>
    free_path (objects pool) v xs q"
  using assms by (auto simp: operator_new_def load_ptr_def Let_def)

text \<open>An empty pool first takes and links a chunk and then pops from it.\<close>

definition refilled :: "nat \<Rightarrow> nat \<Rightarrow> pointers \<Rightarrow> ObjectPool \<Rightarrow> ObjectPool" where
  "refilled N base mem pool =
     pool\<lparr>mFreeList := base, objects := mem, mTotalAllocCount := mTotalAllocCount pool + of_nat N\<rparr>"

lemma operator_new_refill:
  assumes "mFreeList pool = 0" and "new_array (objects pool) (sz * N) = Some (base, junk)"
    and "0 < base" and "0 < sz" and "0 < N"
  shows "\<exists>mem. operator_new sz N new_array pool = operator_new sz N new_array (refilled N base mem pool) \<and>
    free_path mem base (nodes sz base N) (junk (base + (N - 1) * sz)) \<and>
    (\<forall>x. x < base \<or> base + sz * N \<le> x \<longrightarrow> mem x = objects pool x) \<and>
    dom mem = dom (objects pool) \<union> {base..<base + sz * N}"
proof -
  define mem0 where "mem0 = map_chunk base (sz * N) junk (objects pool)"
  have inside: "base + i * sz < base + sz * N" if "i < N" for i
    using that assms(4) by (simp add: mult.commute [of sz])
  then have "mem0 (base + i * sz) \<noteq> None" if "i \<le> N - 1" for i
    using that assms(5) inside [of i] by (auto simp: mem0_def map_chunk_def)
  from link_nodes_ok [where mem = mem0 and k = "N - 1", OF assms(3,4) this] obtain mem where
    mem: "link_nodes sz (N - 1) base base mem0 = Inr mem"
      "free_path mem base (nodes sz base (N - 1)) (base + (N - 1) * sz)"
      "\<forall>x. x \<notin> set (nodes sz base (N - 1)) \<longrightarrow> mem x = mem0 x" "dom mem = dom mem0" by auto
  have "base + (N - 1) * sz \<notin> set (nodes sz base (N - 1))"
    using assms(4) by (auto simp: nodes_facts)
  then have "mem (base + (N - 1) * sz) = Some (junk (base + (N - 1) * sz))"
    using mem(3) inside [of "N - 1"] assms(5) by (simp add: mem0_def map_chunk_def)
  then have "free_path mem base (nodes sz base N) (junk (base + (N - 1) * sz))"
    using mem(2) nodes_snoc [of sz base "N - 1"] assms(3,5) by (auto simp: free_path_append)
  moreover have "mem x = objects pool x" if "x < base \<or> base + sz * N \<le> x" for x
  proof -
    have "x \<notin> set (nodes sz base (N - 1))" using that assms(4) by (auto simp: nodes_facts mult.commute [of sz])
    then show ?thesis using that mem(3) by (auto simp: mem0_def map_chunk_def)
  qed
  moreover have "dom mem = dom (objects pool) \<union> {base..<base + sz * N}"
    using mem(4) by (auto simp: mem0_def map_chunk_def split: if_splits)
  moreover have "operator_new sz N new_array pool = operator_new sz N new_array (refilled N base mem pool)"
    using assms(1,2,3) mem(1) by (simp add: operator_new_def mem0_def refilled_def)
  ultimately show ?thesis by blast
qed

lemma operator_new_first:
  assumes "new_array mem (sz * N) = Some (base, junk)" and "0 < base" and "0 < sz" and "0 < N"
  shows "\<exists>pool. operator_new sz N new_array (ObjectPool_init mem) = Inr (base, pool)"
proof -
  have z: "mFreeList (ObjectPool_init mem) = 0" "objects (ObjectPool_init mem) = mem" by (simp_all add: ObjectPool_init_def)
  obtain mem' where mem': "operator_new sz N new_array (ObjectPool_init mem) =
      operator_new sz N new_array (refilled N base mem' (ObjectPool_init mem))"
    "free_path mem' base (nodes sz base N) (junk (base + (N - 1) * sz))"
    using operator_new_refill [where new_array = new_array and junk = junk and pool = "ObjectPool_init mem",
        OF z(1) _ assms(2-4)] assms(1) z(2) by auto
  define p where "p = refilled N base mem' (ObjectPool_init mem)"
  obtain ys where "nodes sz base N = base # ys" using nodes_Suc [of sz base "N - 1"] assms(4) by simp
  then have "free_path (objects p) (mFreeList p) (base # ys) (junk (base + (N - 1) * sz))"
    using mem'(2) by (simp add: p_def refilled_def)
  from operator_new_pop [OF this] mem'(1) show ?thesis by (metis p_def)
qed

lemma alloc_many_path:
  assumes "free_path (objects pool) (mFreeList pool) xs q"
  shows "alloc_many (operator_new sz N new_array) (length xs) pool =
    Inr (xs, pool\<lparr>mFreeList := q, mCurrentUseCount := mCurrentUseCount pool + of_nat (length xs)\<rparr>)"
  using assms
proof (induction xs arbitrary: pool)
  case Nil
  then show ?case by (cases pool) simp
next
  case (Cons x xs)
  from operator_new_pop [OF Cons.prems] obtain v where
    v: "operator_new sz N new_array pool =
      Inr (x, pool\<lparr>mFreeList := v, mCurrentUseCount := mCurrentUseCount pool + 1\<rparr>)"
      "free_path (objects pool) v xs q" by blast
  with Cons.IH [of "pool\<lparr>mFreeList := v, mCurrentUseCount := mCurrentUseCount pool + 1\<rparr>"]
  show ?case by (simp add: add.assoc)
qed

section \<open>The pool as an allocator\<close>

text \<open>What the pool needs of \<open>new uint8_t[n]\<close> to be correct for any number of objects: fresh memory below 2 GB, and, because the
  last link of a chunk is never written, memory that happens to be zero. The last is a condition on the environment that
  \<open>new\<close> does not promise; what holds without it is the last part of this theory.\<close>

definition new_array_ok :: "new_array_fn \<Rightarrow> bool" where
  "new_array_ok new_array \<longleftrightarrow>
     (\<forall>mem n base junk. new_array mem n = Some (base, junk) \<longrightarrow>
        0 < base \<and> base + n \<le> 2 ^ 31 \<and> {base..<base + n} \<inter> dom mem = {} \<and> (\<forall>a. junk a = 0))"

type_synonym tracked_pool = "new_array_fn \<times> ObjectPool \<times> nat set"

definition tracked_inv :: "tracked_pool \<Rightarrow> bool" where
  "tracked_inv s \<longleftrightarrow>
     (let (new_array, pool, L) = s in
      new_array_ok new_array \<and> dom (objects pool) \<subseteq> {..<2 ^ 31} \<and> L \<subseteq> dom (objects pool) - {0} \<and>
      mCurrentUseCount pool = of_nat (card L) \<and>
      (\<exists>xs. free_path (objects pool) (mFreeList pool) xs 0 \<and> distinct xs \<and> set xs \<inter> L = {}))"

definition tracked_new :: "nat \<Rightarrow> nat \<Rightarrow> tracked_pool \<Rightarrow> (nat \<times> tracked_pool) result" where
  "tracked_new sz N s =
     (let (new_array, pool, L) = s in
      bindR (operator_new sz N new_array pool) (\<lambda>(p, pool'). Inr (p, (new_array, pool', insert p L))))"

definition tracked_delete :: "nat \<Rightarrow> tracked_pool \<Rightarrow> tracked_pool result" where
  "tracked_delete p s =
     (let (new_array, pool, L) = s in
      bindR (operator_delete p pool) (\<lambda>pool'. Inr (new_array, pool', L - {p})))"

definition tracked_live :: "tracked_pool \<Rightarrow> nat set" where
  "tracked_live s = (let (new_array, pool, L) = s in L)"

lemma tracked_pop:
  assumes "new_array_ok new_array" and "dom (objects pool) \<subseteq> {..<2 ^ 31}"
    and "L \<subseteq> dom (objects pool) - {0}" and "mCurrentUseCount pool = of_nat (card L)"
    and "free_path (objects pool) (mFreeList pool) (x # xs) 0" and "distinct (x # xs)" and "set (x # xs) \<inter> L = {}"
  shows "\<exists>pool'. operator_new sz N new_array' pool = Inr (x, pool') \<and> x \<notin> L \<and>
    tracked_inv (new_array, pool', insert x L)"
proof -
  obtain v where v: "operator_new sz N new_array' pool =
      Inr (x, pool\<lparr>mFreeList := v, mCurrentUseCount := mCurrentUseCount pool + 1\<rparr>)"
    "free_path (objects pool) v xs 0" using operator_new_pop [OF assms(5)] by blast
  have "finite L" using assms(2,3) by (meson Diff_subset finite_lessThan finite_subset)
  moreover have "x \<notin> L" using assms(7) by simp
  moreover have "x \<in> dom (objects pool) - {0}" using free_path_nodes [OF assms(5)] by simp
  ultimately show ?thesis
    using v assms by (auto simp: tracked_inv_def intro!: exI [of _ xs])
qed

lemma tracked_new_ok:
  assumes "0 < sz" and "0 < N" and inv: "tracked_inv s" and res: "tracked_new sz N s = Inr (p, s')"
  shows "tracked_inv s' \<and> p \<notin> tracked_live s \<and> tracked_live s' = insert p (tracked_live s)"
proof -
  obtain new_array pool L where s: "s = (new_array, pool, L)" by (metis prod_cases3)
  obtain xs where ok: "new_array_ok new_array" "dom (objects pool) \<subseteq> {..<2 ^ 31}"
    "L \<subseteq> dom (objects pool) - {0}" "mCurrentUseCount pool = of_nat (card L)"
    "free_path (objects pool) (mFreeList pool) xs 0" "distinct xs" "set xs \<inter> L = {}"
    using inv by (auto simp: s tracked_inv_def)
  obtain pool' where r: "operator_new sz N new_array pool = Inr (p, pool')" "s' = (new_array, pool', insert p L)"
    using res by (auto simp: s tracked_new_def bindR_Inr_iff)
  have "\<exists>pool' x. operator_new sz N new_array pool = Inr (x, pool') \<and> x \<notin> L \<and>
      tracked_inv (new_array, pool', insert x L)"
  proof (cases xs)
    case (Cons x ys)
    then show ?thesis using tracked_pop [of new_array pool L x ys sz N new_array] ok by auto
  next
    case Nil
    with ok(5) have z: "mFreeList pool = 0" by simp
    then obtain base junk where na: "new_array (objects pool) (sz * N) = Some (base, junk)"
      using r(1) by (cases "new_array (objects pool) (sz * N)") (auto simp: operator_new_def)
    then have base: "0 < base" "base + sz * N \<le> 2 ^ 31" "{base..<base + sz * N} \<inter> dom (objects pool) = {}"
      "junk (base + (N - 1) * sz) = 0" using ok(1) unfolding new_array_ok_def by blast+
    obtain mem where mem: "operator_new sz N new_array pool = operator_new sz N new_array (refilled N base mem pool)"
      "free_path mem base (nodes sz base N) 0" "dom mem = dom (objects pool) \<union> {base..<base + sz * N}"
      using operator_new_refill [where new_array = new_array and junk = junk, OF z na base(1) assms(1,2)] base(4) by auto
    obtain ys where ys: "nodes sz base N = base # ys" using nodes_Suc [of sz base "N - 1"] assms(2) by simp
    have sub: "set (nodes sz base N) \<subseteq> {base..<base + sz * N}"
      using assms(1) by (auto simp: nodes_facts mult.commute [of sz])
    have "dom mem \<subseteq> {..<2 ^ 31}" using mem(3) ok(2) base(2) by auto
    moreover have "L \<subseteq> dom mem - {0}" using ok(3) mem(3) by auto
    moreover have "set (nodes sz base N) \<inter> L = {}" using sub base(3) ok(3) by auto
    ultimately show ?thesis
      using tracked_pop [of new_array "refilled N base mem pool" L base ys sz N new_array] ok(1,4) mem(1,2) ys
        nodes_facts(2) [OF assms(1), of base N]
      by (auto simp: refilled_def)
  qed
  then show ?thesis using r by (auto simp: s tracked_live_def)
qed

lemma tracked_delete_ok:
  assumes inv: "tracked_inv s" and p: "p \<in> tracked_live s"
  shows "\<exists>s'. tracked_delete p s = Inr s' \<and> tracked_inv s' \<and> tracked_live s' = tracked_live s - {p}"
proof -
  obtain new_array pool L where s: "s = (new_array, pool, L)" by (metis prod_cases3)
  obtain xs where ok: "new_array_ok new_array" "dom (objects pool) \<subseteq> {..<2 ^ 31}"
    "L \<subseteq> dom (objects pool) - {0}" "mCurrentUseCount pool = of_nat (card L)"
    "free_path (objects pool) (mFreeList pool) xs 0" "distinct xs" "set xs \<inter> L = {}"
    using inv by (auto simp: s tracked_inv_def)
  have pL: "p \<in> L" "p \<noteq> 0" "p \<in> dom (objects pool)" "p \<notin> set xs"
    using p ok(3,7) by (auto simp: s tracked_live_def)
  have fin: "finite L" using ok(2,3) by (meson Diff_subset finite_lessThan finite_subset)
  have "L \<subseteq> {..<2 ^ 31} - {0}" using ok(2,3) by blast
  then have "card L \<le> card ({..<2 ^ 31} - {0::nat})" by (rule card_mono [rotated]) simp
  then have "card L < 2 ^ 31" by simp
  moreover have "0 < card L" using pL(1) fin by (auto simp: card_gt_0_iff)
  ultimately have "0 < sint (mCurrentUseCount pool)"
    by (simp add: ok(4) signed_of_nat signed_take_bit_int_eq_self)
  moreover have "mCurrentUseCount pool - 1 = of_nat (card (L - {p}))"
    using ok(4) pL(1) fin by (simp only: of_nat_card_remove if_True)
  moreover have "free_path ((objects pool)(p \<mapsto> mFreeList pool)) p (p # xs) 0"
    using ok(5) pL by (simp add: free_path_upd)
  ultimately show ?thesis
    using ok pL
    by (auto simp: s tracked_delete_def tracked_live_def tracked_inv_def operator_delete_def store_ptr_def
        Let_def split: option.splits intro!: exI [of _ "p # xs"])
qed

text \<open>Object size and chunk length are at least one in every instance.\<close>

interpretation opool: allocator tracked_inv tracked_live "tracked_new (Suc sz) (Suc N)" tracked_delete for sz N
  by unfold_locales (rule tracked_new_ok tracked_delete_ok; simp)+

section \<open>A pool that stays within its first chunk\<close>

text \<open>As long as no more objects are in use than one chunk has, the link that is never written is not followed, so nothing
  depends on what the memory held: the free list is a path through the objects that are not in use, and its end can be anything.\<close>

text \<open>All that is needed of \<open>new uint8_t[n]\<close> then: it does not return a null pointer.\<close>

definition non_null :: "new_array_fn \<Rightarrow> bool" where
  "non_null new_array \<longleftrightarrow> (\<forall>mem n base junk. new_array mem n = Some (base, junk) \<longrightarrow> 0 < base)"

definition chunk_inv :: "nat \<Rightarrow> tracked_pool \<Rightarrow> bool" where
  "chunk_inv N s \<longleftrightarrow>
     (let (new_array, pool, L) = s in
      non_null new_array \<and> N < 2 ^ 31 \<and> finite L \<and> L \<subseteq> dom (objects pool) - {0} \<and> mCurrentUseCount pool = of_nat (card L) \<and>
      (L = {} \<and> mFreeList pool = 0 \<or>
       (\<exists>xs q. free_path (objects pool) (mFreeList pool) xs q \<and> distinct xs \<and> set xs \<inter> L = {} \<and> length xs + card L = N)))"

lemma chunk_init_inv:
  "non_null new_array \<Longrightarrow> N < 2 ^ 31 \<Longrightarrow> chunk_inv N (new_array, ObjectPool_init Map.empty, {})"
  by (auto simp: chunk_inv_def ObjectPool_init_def)

lemma chunk_pop:
  assumes "non_null new_array \<and> N < 2 ^ 31"
    and "finite L" "L \<subseteq> dom (objects pool) - {0}" "mCurrentUseCount pool = of_nat (card L)"
    and "free_path (objects pool) (mFreeList pool) (x # xs) q" "distinct (x # xs)" "set (x # xs) \<inter> L = {}"
    and "length (x # xs) + card L = N"
  shows "\<exists>pool'. operator_new sz N new_array' pool = Inr (x, pool') \<and> x \<notin> L \<and> chunk_inv N (new_array, pool', insert x L)"
proof -
  obtain v where v: "operator_new sz N new_array' pool =
      Inr (x, pool\<lparr>mFreeList := v, mCurrentUseCount := mCurrentUseCount pool + 1\<rparr>)"
    "free_path (objects pool) v xs q" using operator_new_pop [OF assms(5)] by blast
  moreover have "x \<in> dom (objects pool) - {0}" using free_path_nodes [OF assms(5)] by simp
  ultimately show ?thesis
    using assms by (auto simp: chunk_inv_def intro!: exI [of _ xs] exI [of _ q])
qed

lemma chunk_new_ok:
  assumes "0 < sz" and inv: "chunk_inv N s" and room: "card (tracked_live s) < N" and res: "tracked_new sz N s = Inr (p, s')"
  shows "chunk_inv N s' \<and> p \<notin> tracked_live s \<and> tracked_live s' = insert p (tracked_live s)"
proof -
  obtain new_array pool L where s: "s = (new_array, pool, L)" by (metis prod_cases3)
  note ok = inv [unfolded s chunk_inv_def, simplified]
  obtain pool' where r: "operator_new sz N new_array pool = Inr (p, pool')" "s' = (new_array, pool', insert p L)"
    using res by (auto simp: s tracked_new_def bindR_Inr_iff)
  have N: "card L < N" "0 < N" using room by (auto simp: s tracked_live_def)
  have "\<exists>pool' x. operator_new sz N new_array pool = Inr (x, pool') \<and> x \<notin> L \<and> chunk_inv N (new_array, pool', insert x L)"
  proof (cases "L = {} \<and> mFreeList pool = 0")
    case True
    then obtain base junk where na: "new_array (objects pool) (sz * N) = Some (base, junk)"
      using r(1) by (cases "new_array (objects pool) (sz * N)") (auto simp: operator_new_def)
    then have base: "0 < base" using ok by (auto simp: non_null_def)
    obtain mem where mem: "operator_new sz N new_array pool = operator_new sz N new_array (refilled N base mem pool)"
      "free_path mem base (nodes sz base N) (junk (base + (N - 1) * sz))"
      using operator_new_refill [where new_array = new_array and junk = junk, OF _ na base assms(1) N(2)] True by auto
    obtain ys where ys: "nodes sz base N = base # ys" using nodes_Suc [of sz base "N - 1"] N(2) by simp
    moreover have "length (base # ys) = N" using nodes_facts(1) [of sz base N] ys by simp
    ultimately show ?thesis
      using chunk_pop [of new_array N L "refilled N base mem pool" base ys "junk (base + (N - 1) * sz)" sz new_array] ok True
        mem nodes_facts(2) [OF assms(1), of base N] by (auto simp: refilled_def)
  next
    case False
    then obtain xs q where xs: "free_path (objects pool) (mFreeList pool) xs q" "distinct xs" "set xs \<inter> L = {}"
      "length xs + card L = N" using ok by blast
    with N(1) obtain x ys where "xs = x # ys" by (cases xs) auto
    then show ?thesis using chunk_pop [of new_array N L pool x ys q sz new_array] ok xs by auto
  qed
  then show ?thesis using r by (auto simp: s tracked_live_def)
qed

text \<open>Once the chunk is there, an allocation within it cannot fail.\<close>

lemma chunk_new_succeeds:
  assumes inv: "chunk_inv N s" and room: "card (tracked_live s) < N" and used: "tracked_live s \<noteq> {}"
  shows "\<exists>p s'. tracked_new sz N s = Inr (p, s')"
proof -
  obtain new_array pool L where s: "s = (new_array, pool, L)" by (metis prod_cases3)
  obtain xs q where xs: "free_path (objects pool) (mFreeList pool) xs q" "length xs + card L = N"
    using inv used by (auto simp: s chunk_inv_def tracked_live_def)
  with room obtain x ys where "xs = x # ys" by (cases xs) (auto simp: s tracked_live_def)
  with operator_new_pop [of pool x ys q sz N new_array] xs(1) show ?thesis by (auto simp: s tracked_new_def)
qed

lemma chunk_delete_ok:
  assumes inv: "chunk_inv N s" and p: "p \<in> tracked_live s"
  shows "\<exists>s'. tracked_delete p s = Inr s' \<and> chunk_inv N s' \<and> tracked_live s' = tracked_live s - {p}"
proof -
  obtain new_array pool L where s: "s = (new_array, pool, L)" by (metis prod_cases3)
  note ok = inv [unfolded s chunk_inv_def, simplified]
  have pL: "p \<in> L" "p \<noteq> 0" "p \<in> dom (objects pool)" using p ok by (auto simp: s tracked_live_def)
  obtain xs q where xs: "free_path (objects pool) (mFreeList pool) xs q" "distinct xs" "set xs \<inter> L = {}"
    "length xs + card L = N" using ok pL(1) by blast
  have fin: "finite L" "0 < card L" using ok pL(1) by (auto simp: card_gt_0_iff)
  have "0 < sint (mCurrentUseCount pool)" using ok fin(2) xs(4) by (simp add: sint_of_nat_small)
  moreover have "mCurrentUseCount pool - 1 = of_nat (card (L - {p}))"
    using ok pL(1) fin(1) by (simp only: of_nat_card_remove if_True)
  moreover have notin: "p \<notin> set xs" using xs(3) pL(1) by blast
  moreover have "free_path ((objects pool)(p \<mapsto> mFreeList pool)) p (p # xs) q"
    using xs(1) pL notin by (simp add: free_path_upd)
  moreover have "length (p # xs) + card (L - {p}) = N" using xs(4) fin pL(1) by (simp add: card_Diff_singleton)
  moreover have "L - {p} \<subseteq> dom ((objects pool)(p \<mapsto> mFreeList pool)) - {0}" using ok by auto
  ultimately have "chunk_inv N (new_array, pool\<lparr>mCurrentUseCount := mCurrentUseCount pool - 1,
      objects := (objects pool)(p \<mapsto> mFreeList pool), mFreeList := p\<rparr>, L - {p})"
    unfolding chunk_inv_def using ok xs(2,3) fin(1)
    by (simp del: free_path.simps list.size) (intro disjI2 exI [of _ "p # xs"] exI [of _ q], auto simp del: list.size)
  moreover have "operator_delete p pool = Inr (pool\<lparr>mCurrentUseCount := mCurrentUseCount pool - 1,
      objects := (objects pool)(p \<mapsto> mFreeList pool), mFreeList := p\<rparr>)"
    using \<open>0 < sint (mCurrentUseCount pool)\<close> pL by (auto simp: operator_delete_def store_ptr_def CRASH_ASSERT_def)
  ultimately show ?thesis by (simp add: s tracked_delete_def tracked_live_def)
qed

text \<open>The pool restricted to its first chunk is an allocator, and a caller that stays within the chunk does not notice the
  restriction.\<close>

definition chunk_new :: "nat \<Rightarrow> nat \<Rightarrow> tracked_pool \<Rightarrow> (nat \<times> tracked_pool) result" where
  "chunk_new sz N s = (if card (tracked_live s) < N then tracked_new sz N s else Inl BadAlloc)"

interpretation chunk: allocator "chunk_inv N" tracked_live "chunk_new (Suc sz) N" tracked_delete for sz N
proof (unfold_locales, goal_cases)
  case (1 s p s')
  then show ?case by (cases "card (tracked_live s) < N") (use chunk_new_ok [of "Suc sz" N s p s'] in \<open>auto simp: chunk_new_def\<close>)
next
  case (2 s p)
  then show ?case by (rule chunk_delete_ok)
qed

lemma alloc_many_chunk:
  "0 < sz \<Longrightarrow> chunk_inv N s \<Longrightarrow> card (tracked_live s) + n \<le> N \<Longrightarrow> alloc_many (tracked_new sz N) n s = Inr (ps, s') \<Longrightarrow>
     alloc_many (chunk_new sz N) n s = Inr (ps, s')"
proof (induction n arbitrary: s ps)
  case (Suc n)
  from Suc.prems(4) obtain p s1 qs where a: "tracked_new sz N s = Inr (p, s1)"
    and m: "alloc_many (tracked_new sz N) n s1 = Inr (qs, s')" and ps: "ps = p # qs" by (auto simp: bindR_Inr_iff)
  have s1: "chunk_inv N s1" "p \<notin> tracked_live s" "tracked_live s1 = insert p (tracked_live s)"
    using chunk_new_ok [OF Suc.prems(1,2) _ a] Suc.prems(3) by auto
  have "finite (tracked_live s)" using Suc.prems(2) by (cases s) (simp add: chunk_inv_def tracked_live_def)
  with Suc.IH [OF Suc.prems(1) s1(1) _ m] s1(2,3) Suc.prems(3) a show ?case by (simp add: chunk_new_def ps)
qed simp

section \<open>Properties of the object pool\<close>

text \<open>An example of \<open>new uint8_t[n]\<close>: zeroed memory at 4096 as long as nothing is allocated.\<close>

definition zeroed_array :: new_array_fn where
  "zeroed_array mem n =
     (if n \<le> 65536 \<and> (\<forall>a < 69632. mem a = None) then Some (4096, \<lambda>_. 0) else None)"

lemma zeroed_array_ok: "new_array_ok zeroed_array"
  by (auto simp: new_array_ok_def zeroed_array_def split: if_splits)

lemma tracked_init_inv: "new_array_ok new_array \<Longrightarrow> tracked_inv (new_array, ObjectPool_init Map.empty, {})"
  by (auto simp: tracked_inv_def ObjectPool_init_def intro: exI [of _ "[]"])

text \<open>And one whose memory is full of the value 7.\<close>

definition sevens_array :: new_array_fn where
  "sevens_array mem n = Some (4096, \<lambda>_. 7)"

lemma sevens_array_non_null: "non_null sevens_array"
  by (simp add: non_null_def sevens_array_def)

text \<open>C38: Whatever memory \<open>new\<close> returns, the first \<open>ALLOC_COUNT\<close> allocations of a pool are the consecutive
  objects of one chunk; but the link of the last object is never initialised, so afterwards the
  head of the free list is what that memory held before, and if that is not the address of an object, the next allocation
  reads outside the memory.\<close>

theorem first_chunk_then_wild_head:
  assumes "new_array mem (sizeof_C * ALLOC_COUNT) = Some (base, junk)"
    and "0 < base" and "4 \<le> sizeof_C" and "0 < ALLOC_COUNT"
  shows "\<exists>pool. alloc_many (operator_new sizeof_C ALLOC_COUNT new_array) ALLOC_COUNT (ObjectPool_init mem) =
      Inr (map (\<lambda>i. base + i * sizeof_C) [0..<ALLOC_COUNT], pool) \<and>
    mFreeList pool = junk (base + (ALLOC_COUNT - 1) * sizeof_C) \<and>
    dom (objects pool) = dom mem \<union> {base..<base + sizeof_C * ALLOC_COUNT} \<and>
    (mFreeList pool \<noteq> 0 \<and> mFreeList pool \<notin> dom (objects pool) \<longrightarrow>
       operator_new sizeof_C ALLOC_COUNT new_array pool = Inl OutOfBounds)"
proof -
  have z: "mFreeList (ObjectPool_init mem) = 0" "objects (ObjectPool_init mem) = mem" "0 < sizeof_C"
    using assms(3) by (simp_all add: ObjectPool_init_def)
  obtain mem' where
    mem': "operator_new sizeof_C ALLOC_COUNT new_array (ObjectPool_init mem) =
        operator_new sizeof_C ALLOC_COUNT new_array (refilled ALLOC_COUNT base mem' (ObjectPool_init mem))"
      "free_path mem' base (nodes sizeof_C base ALLOC_COUNT) (junk (base + (ALLOC_COUNT - 1) * sizeof_C))"
      "dom mem' = dom mem \<union> {base..<base + sizeof_C * ALLOC_COUNT}"
    using operator_new_refill [where new_array = new_array and junk = junk and pool = "ObjectPool_init mem",
        OF z(1) _ assms(2) z(3) assms(4)] assms(1) z(2) by auto
  define pool1 where "pool1 = refilled ALLOC_COUNT base mem' (ObjectPool_init mem)"
  have "alloc_many (operator_new sizeof_C ALLOC_COUNT new_array) ALLOC_COUNT (ObjectPool_init mem) =
      alloc_many (operator_new sizeof_C ALLOC_COUNT new_array) ALLOC_COUNT pool1"
    using mem'(1) assms(4) by (cases ALLOC_COUNT) (simp_all add: pool1_def)
  also have "\<dots> = Inr (nodes sizeof_C base ALLOC_COUNT, pool1\<lparr>mFreeList := junk (base + (ALLOC_COUNT - 1) * sizeof_C),
      mCurrentUseCount := mCurrentUseCount pool1 + of_nat ALLOC_COUNT\<rparr>)"
    using alloc_many_path [of pool1 "nodes sizeof_C base ALLOC_COUNT"
        "junk (base + (ALLOC_COUNT - 1) * sizeof_C)" sizeof_C ALLOC_COUNT new_array] mem'(2)
    by (simp add: pool1_def refilled_def nodes_facts)
  finally have "alloc_many (operator_new sizeof_C ALLOC_COUNT new_array) ALLOC_COUNT (ObjectPool_init mem) =
      Inr (nodes sizeof_C base ALLOC_COUNT, pool1\<lparr>mFreeList := junk (base + (ALLOC_COUNT - 1) * sizeof_C),
      mCurrentUseCount := mCurrentUseCount pool1 + of_nat ALLOC_COUNT\<rparr>)" .
  moreover have "objects pool1 = mem'" by (simp add: pool1_def refilled_def)
  ultimately show ?thesis
    using mem'(3) by (auto simp: nodes_def operator_new_def load_ptr_def domIff split: option.splits)
qed

theorem first_chunk_then_wild_head_witness:
  "\<exists>pool. alloc_many (operator_new 16 3 sevens_array) 3 (ObjectPool_init Map.empty) = Inr ([4096, 4112, 4128], pool) \<and>
     mFreeList pool = 7 \<and> operator_new 16 3 sevens_array pool = Inl OutOfBounds"
proof -
  have na: "sevens_array Map.empty (16 * 3) = Some (4096, \<lambda>_. 7)" by (simp add: sevens_array_def)
  have n: "0 < (4096 :: nat)" "4 \<le> (16 :: nat)" "0 < (3 :: nat)" by simp_all
  obtain pool where pool: "alloc_many (operator_new 16 3 sevens_array) 3 (ObjectPool_init Map.empty) =
      Inr (map (\<lambda>i. 4096 + i * 16) [0..<3], pool)" "mFreeList pool = 7" "dom (objects pool) = dom Map.empty \<union> {4096..<4096 + 16 * 3}"
    "mFreeList pool \<noteq> 0 \<and> mFreeList pool \<notin> dom (objects pool) \<longrightarrow> operator_new 16 3 sevens_array pool = Inl OutOfBounds"
    using first_chunk_then_wild_head [of sevens_array Map.empty 16 3 4096 "\<lambda>_. 7", OF na n] by blast
  moreover have "7 \<notin> dom (objects pool)" unfolding pool(3) by simp
  ultimately show ?thesis by (simp add: upt_rec)
qed

text \<open>C23: Whatever the memory returned by \<open>new\<close> held before: up to \<open>ALLOC_COUNT\<close> allocations return pairwise distinct
  objects, and giving all of them back, in the reverse order, succeeds and leaves nothing in use.\<close>

theorem object_pool_round_trip:
  assumes "non_null new_array" and "n \<le> ALLOC_COUNT" and "0 < ALLOC_COUNT" and "ALLOC_COUNT < 2 ^ 31" and "4 \<le> sizeof_C"
    and "alloc_many (tracked_new sizeof_C ALLOC_COUNT) n (new_array, ObjectPool_init Map.empty, {}) = Inr (ps, s)"
  shows "distinct ps \<and> length ps = n \<and> tracked_live s = set ps \<and>
    (\<exists>s'. free_all tracked_delete (rev ps) s = Inr s' \<and> tracked_live s' = {})"
proof -
  obtain sz N where sz: "sizeof_C = Suc sz" "ALLOC_COUNT = Suc N"
    using assms(3,5) by (metis Suc_le_D gr0_implies_Suc numeral_eq_Suc)
  have live: "tracked_live (new_array, ObjectPool_init Map.empty, {}) = {}" by (simp add: tracked_live_def)
  have init: "chunk_inv (Suc N) (new_array, ObjectPool_init Map.empty, {})"
    using chunk_init_inv assms(1,4) sz(2) by metis
  have many: "alloc_many (chunk_new (Suc sz) (Suc N)) n (new_array, ObjectPool_init Map.empty, {}) = Inr (ps, s)"
    using alloc_many_chunk [OF _ init _ assms(6) [unfolded sz]] assms(2) live sz(2) by simp
  show ?thesis
    using chunk.alloc_many_fresh [OF init many] chunk.alloc_free_round_trip [OF init many] live by auto
qed

lemma two_allocations:
  "\<exists>s. alloc_many (tracked_new 16 3) 2 (sevens_array, ObjectPool_init Map.empty, {}) = Inr ([4096, 4112], s)"
  by (simp add: numeral_2_eq_2 tracked_new_def operator_new_def ObjectPool_init_def sevens_array_def
      map_chunk_def store_ptr_def load_ptr_def Let_def)

theorem object_pool_round_trip_witness:
  "\<exists>s s'. alloc_many (tracked_new 16 3) 2 (sevens_array, ObjectPool_init Map.empty, {}) = Inr ([4096, 4112], s) \<and>
     tracked_live s = {4096, 4112} \<and> free_all tracked_delete [4112, 4096] s = Inr s' \<and> tracked_live s' = {}"
proof -
  obtain s where s: "alloc_many (tracked_new 16 3) 2 (sevens_array, ObjectPool_init Map.empty, {}) =
      Inr ([4096, 4112], s)" using two_allocations by blast
  then show ?thesis using object_pool_round_trip [OF sevens_array_non_null _ _ _ _ s] by auto
qed

end
