(* ===== verification/ObjectPool_Threads.thy ===== *)
theory ObjectPool_Threads
  imports ObjectPool
begin

text \<open>
  The operators of the object pool run by several threads. Each statement of the critical section that
  reads or writes a static member is one step. In the servers (\<open>ObjectPool.hpp\<close>) both operators lock the
  static \<open>mMutex\<close>; in the study version (\<open>211110_ObjectPool_test.cpp\<close>) each has a function-local static
  mutex of its own, so \<open>new\<close> and \<open>delete\<close> do not exclude each other. The flag \<open>one_mutex\<close> selects the
  version. The theory shows that the first version behaves as if the calls were made one after
  the other, and that the second hands the same object out twice.
\<close>

section \<open>The operators step by step\<close>

datatype op_mutex = NewMutex | DeleteMutex

definition delete_mutex :: "bool \<Rightarrow> op_mutex" where
  "delete_mutex one_mutex = (if one_mutex then NewMutex else DeleteMutex)"

text \<open>Program points of \<open>operator new\<close> and \<open>operator delete\<close>: waiting for the mutex, then the statement that
  comes next.\<close>

datatype op_pc =
    OpIdle
  | NewWait | NewRefill | NewTake | NewNext nat | NewCount nat
  | DelWait nat | DelAssert nat | DelCount nat | DelLink nat | DelHead nat

text \<open>The statements between locking and the one that ends the critical section.\<close>

definition op_refill :: "nat \<Rightarrow> nat \<Rightarrow> new_array_fn \<Rightarrow> ObjectPool \<Rightarrow> ObjectPool result" where
  "op_refill sizeof_C ALLOC_COUNT new_array pool =
     (if mFreeList pool = 0 then
        (case new_array (objects pool) (sizeof_C * ALLOC_COUNT) of
           None \<Rightarrow> Inl BadAlloc
         | Some (base, junk) \<Rightarrow>
             bindR (link_nodes sizeof_C (ALLOC_COUNT - 1) base base
                      (map_chunk base (sizeof_C * ALLOC_COUNT) junk (objects pool))) (\<lambda>mem.
             Inr (pool\<lparr>mFreeList := base, objects := mem,
                    mTotalAllocCount := mTotalAllocCount pool + of_nat ALLOC_COUNT\<rparr>)))
      else Inr pool)"

fun op_exec :: "nat \<Rightarrow> nat \<Rightarrow> new_array_fn \<Rightarrow> op_pc \<Rightarrow> ObjectPool \<Rightarrow> (op_pc \<times> ObjectPool) result" where
  "op_exec sz N new_array NewRefill pool = bindR (op_refill sz N new_array pool) (\<lambda>pool. Inr (NewTake, pool))"
| "op_exec sz N new_array NewTake pool = Inr (NewNext (mFreeList pool), pool)"
| "op_exec sz N new_array (NewNext pAvailable) pool =
     bindR (load_ptr pAvailable (objects pool)) (\<lambda>nxt. Inr (NewCount pAvailable, pool\<lparr>mFreeList := nxt\<rparr>))"
| "op_exec sz N new_array (DelAssert obj) pool =
     bindR (CRASH_ASSERT (sint (mCurrentUseCount pool) > 0)) (\<lambda>_. Inr (DelCount obj, pool))"
| "op_exec sz N new_array (DelCount obj) pool =
     Inr (DelLink obj, pool\<lparr>mCurrentUseCount := mCurrentUseCount pool - 1\<rparr>)"
| "op_exec sz N new_array (DelLink obj) pool =
     bindR (store_ptr obj (mFreeList pool) (objects pool)) (\<lambda>mem. Inr (DelHead obj, pool\<lparr>objects := mem\<rparr>))"
| "op_exec sz N new_array pc pool = Inr (pc, pool)"

section \<open>Threads\<close>

datatype op_event = NewEv nat | DelEv nat

record op_sys =
  op_pool :: ObjectPool
  op_held :: "op_mutex \<Rightarrow> bool"
  op_pcs :: "nat \<Rightarrow> op_pc"
  in_use :: "nat set"
  history :: "op_event list"

definition op_init :: "pointers \<Rightarrow> op_sys" where
  "op_init mem = \<lparr>op_pool = ObjectPool_init mem, op_held = (\<lambda>_. False), op_pcs = (\<lambda>_. OpIdle), in_use = {}, history = []\<rparr>"

definition op_goto :: "nat \<Rightarrow> op_pc \<Rightarrow> op_sys \<Rightarrow> op_sys" where
  "op_goto i pc s = s\<lparr>op_pcs := (op_pcs s)(i := pc)\<rparr>"

fun deleting :: "op_pc \<Rightarrow> nat option" where
  "deleting (DelWait obj) = Some obj"
| "deleting (DelAssert obj) = Some obj"
| "deleting (DelCount obj) = Some obj"
| "deleting (DelLink obj) = Some obj"
| "deleting (DelHead obj) = Some obj"
| "deleting pc = None"

text \<open>A program deletes only objects it has, and each once; then a thread that is inside an operator may take
  its next step. The last statement of an operator and the release of the mutex are one step.\<close>

datatype op_action = CallNew nat | CallDelete nat nat | OpStep nat

fun op_run_step :: "bool \<Rightarrow> nat \<Rightarrow> nat \<Rightarrow> new_array_fn \<Rightarrow> nat \<Rightarrow> op_pc \<Rightarrow> op_sys \<Rightarrow> op_sys option" where
  "op_run_step one sz N new_array i OpIdle s = None"
| "op_run_step one sz N new_array i NewWait s =
     (if op_held s NewMutex then None
      else Some (op_goto i NewRefill (s\<lparr>op_held := (op_held s)(NewMutex := True)\<rparr>)))"
| "op_run_step one sz N new_array i (NewCount pAvailable) s =
     Some (op_goto i OpIdle (s\<lparr>op_pool := (op_pool s)\<lparr>mCurrentUseCount := mCurrentUseCount (op_pool s) + 1\<rparr>,
       op_held := (op_held s)(NewMutex := False), in_use := insert pAvailable (in_use s),
       history := history s @ [NewEv pAvailable]\<rparr>))"
| "op_run_step one sz N new_array i (DelWait obj) s =
     (if op_held s (delete_mutex one) then None
      else Some (op_goto i (DelAssert obj) (s\<lparr>op_held := (op_held s)(delete_mutex one := True)\<rparr>)))"
| "op_run_step one sz N new_array i (DelHead obj) s =
     Some (op_goto i OpIdle (s\<lparr>op_pool := (op_pool s)\<lparr>mFreeList := obj\<rparr>,
       op_held := (op_held s)(delete_mutex one := False), in_use := in_use s - {obj},
       history := history s @ [DelEv obj]\<rparr>))"
| "op_run_step one sz N new_array i pc s =
     (case op_exec sz N new_array pc (op_pool s) of
        Inl e \<Rightarrow> None
      | Inr (pc', pool) \<Rightarrow> Some (op_goto i pc' (s\<lparr>op_pool := pool\<rparr>)))"

fun op_act :: "bool \<Rightarrow> nat \<Rightarrow> nat \<Rightarrow> new_array_fn \<Rightarrow> nat \<Rightarrow> op_action \<Rightarrow> op_sys \<Rightarrow> op_sys option" where
  "op_act one sz N new_array T (CallNew i) s =
     (if i < T \<and> op_pcs s i = OpIdle then Some (op_goto i NewWait s) else None)"
| "op_act one sz N new_array T (CallDelete i obj) s =
     (if i < T \<and> op_pcs s i = OpIdle \<and> obj \<in> in_use s \<and> list_all (\<lambda>j. deleting (op_pcs s j) \<noteq> Some obj) [0..<T]
      then Some (op_goto i (DelWait obj) s) else None)"
| "op_act one sz N new_array T (OpStep i) s = (if i < T then op_run_step one sz N new_array i (op_pcs s i) s else None)"

inductive op_reachable :: "bool \<Rightarrow> nat \<Rightarrow> nat \<Rightarrow> new_array_fn \<Rightarrow> nat \<Rightarrow> op_sys \<Rightarrow> bool"
  for one :: bool and sz N :: nat and new_array :: new_array_fn and T :: nat where
  start: "op_reachable one sz N new_array T (op_init Map.empty)"
| act: "op_reachable one sz N new_array T s \<Longrightarrow> op_act one sz N new_array T a s = Some s' \<Longrightarrow>
     op_reachable one sz N new_array T s'"

fun op_schedule :: "bool \<Rightarrow> nat \<Rightarrow> nat \<Rightarrow> new_array_fn \<Rightarrow> nat \<Rightarrow> op_action list \<Rightarrow> op_sys \<Rightarrow> op_sys option" where
  "op_schedule one sz N new_array T [] s = Some s"
| "op_schedule one sz N new_array T (a # as) s =
     Option.bind (op_act one sz N new_array T a s) (op_schedule one sz N new_array T as)"

lemma op_schedule_reachable:
  "op_schedule one sz N new_array T as s = Some s' \<Longrightarrow> op_reachable one sz N new_array T s \<Longrightarrow>
    op_reachable one sz N new_array T s'"
proof (induction "as" arbitrary: s)
  case (Cons a "as")
  then show ?case by (auto split: Option.bind_splits intro: op_reachable.act)
qed simp

section \<open>What a history should be\<close>

text \<open>An object is handed out only when it is not in use and given back only when it is.\<close>

fun live_after :: "op_event list \<Rightarrow> nat set \<Rightarrow> nat set option" where
  "live_after [] L = Some L"
| "live_after (NewEv a # h) L = (if a \<in> L then None else live_after h (insert a L))"
| "live_after (DelEv a # h) L = (if a \<in> L then live_after h (L - {a}) else None)"

lemma live_after_append: "live_after (h @ k) L = Option.bind (live_after h L) (live_after k)"
  by (induction h L rule: live_after.induct) auto

text \<open>The calls of a history made one after the other on the pool.\<close>

inductive serial :: "nat \<Rightarrow> nat \<Rightarrow> tracked_pool \<Rightarrow> op_event list \<Rightarrow> tracked_pool \<Rightarrow> bool" for sz N s where
  nothing: "serial sz N s [] s"
| new: "serial sz N s h s1 \<Longrightarrow> tracked_new sz N s1 = Inr (a, s2) \<Longrightarrow> serial sz N s (h @ [NewEv a]) s2"
| del: "serial sz N s h s1 \<Longrightarrow> a \<in> tracked_live s1 \<Longrightarrow> tracked_delete a s1 = Inr s2 \<Longrightarrow> serial sz N s (h @ [DelEv a]) s2"

lemma serial_live:
  assumes "serial sz N s h s'" and "tracked_inv s" and "0 < sz" and "0 < N"
  shows "tracked_inv s' \<and> live_after h (tracked_live s) = Some (tracked_live s')"
  using assms(1)
proof (induction rule: serial.induct)
  case nothing
  then show ?case using assms(2) by simp
next
  case (new h s1 a s2)
  then show ?case using tracked_new_ok [OF assms(3,4), of s1 a s2] by (simp add: live_after_append)
next
  case (del h s1 a s2)
  then show ?case using tracked_delete_ok [of s1 a] by (auto simp: live_after_append)
qed

section \<open>One mutex\<close>

fun inside :: "op_pc \<Rightarrow> bool" where
  "inside OpIdle = False"
| "inside NewWait = False"
| "inside (DelWait obj) = False"
| "inside pc = True"

text \<open>What a thread at a program point has made of the pool \<open>p0\<close> it found when it entered.\<close>

fun progress :: "nat \<Rightarrow> nat \<Rightarrow> new_array_fn \<Rightarrow> op_pc \<Rightarrow> ObjectPool \<Rightarrow> ObjectPool \<Rightarrow> bool" where
  "progress sz N new_array NewTake p0 pool \<longleftrightarrow> op_refill sz N new_array p0 = Inr pool"
| "progress sz N new_array (NewNext a) p0 pool \<longleftrightarrow> op_refill sz N new_array p0 = Inr pool \<and> a = mFreeList pool"
| "progress sz N new_array (NewCount a) p0 pool \<longleftrightarrow>
     (\<exists>p1 nxt. op_refill sz N new_array p0 = Inr p1 \<and> a = mFreeList p1 \<and> load_ptr a (objects p1) = Inr nxt \<and>
        pool = p1\<lparr>mFreeList := nxt\<rparr>)"
| "progress sz N new_array (DelCount obj) p0 pool \<longleftrightarrow> sint (mCurrentUseCount p0) > 0 \<and> pool = p0"
| "progress sz N new_array (DelLink obj) p0 pool \<longleftrightarrow> sint (mCurrentUseCount p0) > 0 \<and>
     pool = p0\<lparr>mCurrentUseCount := mCurrentUseCount p0 - 1\<rparr>"
| "progress sz N new_array (DelHead obj) p0 pool \<longleftrightarrow> sint (mCurrentUseCount p0) > 0 \<and>
     (\<exists>mem. store_ptr obj (mFreeList p0) (objects p0) = Inr mem \<and>
        pool = p0\<lparr>mCurrentUseCount := mCurrentUseCount p0 - 1, objects := mem\<rparr>)"
| "progress sz N new_array pc p0 pool \<longleftrightarrow> pool = p0"

text \<open>Run to the end, these are the operators.\<close>

lemma progress_new:
  assumes "progress sz N new_array (NewCount a) p0 pool"
  shows "operator_new sz N new_array p0 = Inr (a, pool\<lparr>mCurrentUseCount := mCurrentUseCount pool + 1\<rparr>)"
proof -
  obtain p1 nxt where p: "op_refill sz N new_array p0 = Inr p1" "a = mFreeList p1" "load_ptr a (objects p1) = Inr nxt"
    "pool = p1\<lparr>mFreeList := nxt\<rparr>" using assms by auto
  have "operator_new sz N new_array p0 = bindR (op_refill sz N new_array p0) (\<lambda>pool. let pAvailable = mFreeList pool in
          bindR (load_ptr pAvailable (objects pool)) (\<lambda>nxt.
          Inr (pAvailable, pool\<lparr>mFreeList := nxt, mCurrentUseCount := mCurrentUseCount pool + 1\<rparr>)))"
    by (simp add: operator_new_def op_refill_def)
  then show ?thesis using p by (simp add: Let_def)
qed

lemma progress_del:
  assumes "progress sz N new_array (DelHead obj) p0 pool"
  shows "operator_delete obj p0 = Inr (pool\<lparr>mFreeList := obj\<rparr>)"
  using assms by (auto simp: operator_delete_def CRASH_ASSERT_def)

lemma progress_step:
  assumes "progress sz N new_array pc p0 pool" and "op_exec sz N new_array pc pool = Inr (pc', pool')" and "inside pc"
  shows "progress sz N new_array pc' p0 pool'"
  using assms by (cases pc) (auto simp: bindR_Inr_iff CRASH_ASSERT_Inr)

lemma op_exec_inside:
  assumes "op_exec sz N new_array pc pool = Inr (pc', pool')" and "inside pc"
  shows "inside pc' \<and> deleting pc' = deleting pc"
  using assms by (cases pc) (auto simp: bindR_Inr_iff)

text \<open>At most one thread is inside, the mutex tells whether one is, every object is deleted by one thread at a
  time, and the finished calls form a serial execution to the state the thread inside has found.\<close>

definition threads_ok :: "nat \<Rightarrow> op_sys \<Rightarrow> bool" where
  "threads_ok T s \<longleftrightarrow>
     (\<forall>i j. inside (op_pcs s i) \<longrightarrow> inside (op_pcs s j) \<longrightarrow> i = j) \<and>
     (op_held s NewMutex \<longleftrightarrow> (\<exists>i. inside (op_pcs s i))) \<and>
     (\<forall>i obj. deleting (op_pcs s i) = Some obj \<longrightarrow> obj \<in> in_use s) \<and>
     (\<forall>i j obj. deleting (op_pcs s i) = Some obj \<longrightarrow> deleting (op_pcs s j) = Some obj \<longrightarrow> i = j) \<and>
     (\<forall>i \<ge> T. op_pcs s i = OpIdle)"

definition serial_inv :: "nat \<Rightarrow> nat \<Rightarrow> new_array_fn \<Rightarrow> op_sys \<Rightarrow> bool" where
  "serial_inv sz N new_array s \<longleftrightarrow>
     (\<exists>p0. serial sz N (new_array, ObjectPool_init Map.empty, {}) (history s) (new_array, p0, in_use s) \<and>
        (\<forall>i. inside (op_pcs s i) \<longrightarrow> progress sz N new_array (op_pcs s i) p0 (op_pool s)) \<and>
        (op_held s NewMutex \<or> op_pool s = p0))"

lemma goto_sel [simp]:
  "op_pool (op_goto i pc s) = op_pool s" "op_held (op_goto i pc s) = op_held s" "in_use (op_goto i pc s) = in_use s"
  "history (op_goto i pc s) = history s" "op_pcs (op_goto i pc s) = (op_pcs s)(i := pc)"
  by (simp_all add: op_goto_def)

lemma inside_lt: "threads_ok T s \<Longrightarrow> inside (op_pcs s i) \<Longrightarrow> i < T"
  by (metis inside.simps(1) linorder_not_le threads_ok_def)

lemma exec_threads_ok:
  assumes "threads_ok T s" and "inside (op_pcs s i)" and "inside pc'" and "deleting pc' = deleting (op_pcs s i)"
  shows "threads_ok T (op_goto i pc' (s\<lparr>op_pool := pool\<rparr>))"
proof -
  have "i < T" by (rule inside_lt [OF assms(1,2)])
  with assms show ?thesis by (auto simp: threads_ok_def)
qed

lemma exec_serial_inv:
  assumes "threads_ok T s" and "serial_inv sz N new_array s" and "inside (op_pcs s i)"
    and "op_exec sz N new_array (op_pcs s i) (op_pool s) = Inr (pc', pool)"
  shows "serial_inv sz N new_array (op_goto i pc' (s\<lparr>op_pool := pool\<rparr>))"
proof -
  obtain p0 where p0: "serial sz N (new_array, ObjectPool_init Map.empty, {}) (history s) (new_array, p0, in_use s)"
    "progress sz N new_array (op_pcs s i) p0 (op_pool s)"
    using assms(2,3) by (auto simp: serial_inv_def)
  have "progress sz N new_array pc' p0 pool" by (rule progress_step [OF p0(2) assms(4,3)])
  moreover have "op_held s NewMutex" using assms(1,3) by (auto simp: threads_ok_def)
  moreover have "\<not> inside (op_pcs s j)" if "j \<noteq> i" for j using assms(1,3) that by (auto simp: threads_ok_def)
  ultimately show ?thesis using p0(1) by (auto simp: serial_inv_def intro!: exI [of _ p0])
qed

lemma enter_ok:
  assumes "threads_ok T s" and "serial_inv sz N new_array s" and "i < T" and "\<not> op_held s NewMutex"
    and "inside pc" and "deleting pc = deleting (op_pcs s i)" and "\<And>p pool. progress sz N new_array pc p pool \<longleftrightarrow> pool = p"
  shows "threads_ok T (op_goto i pc (s\<lparr>op_held := (op_held s)(NewMutex := True)\<rparr>)) \<and>
    serial_inv sz N new_array (op_goto i pc (s\<lparr>op_held := (op_held s)(NewMutex := True)\<rparr>))"
proof
  have none: "\<not> inside (op_pcs s j)" for j using assms(1,4) by (auto simp: threads_ok_def)
  with assms show "threads_ok T (op_goto i pc (s\<lparr>op_held := (op_held s)(NewMutex := True)\<rparr>))"
    by (auto simp: threads_ok_def)
  from none assms(2,4,7) show "serial_inv sz N new_array (op_goto i pc (s\<lparr>op_held := (op_held s)(NewMutex := True)\<rparr>))"
    by (auto simp: serial_inv_def)
qed

lemma leave_new_ok:
  assumes "threads_ok T s" and "serial_inv sz N new_array s" and pc: "op_pcs s i = NewCount a"
    and "op_run_step True sz N new_array i (NewCount a) s = Some s'"
  shows "threads_ok T s' \<and> serial_inv sz N new_array s'"
proof -
  define pool where "pool = (op_pool s)\<lparr>mCurrentUseCount := mCurrentUseCount (op_pool s) + 1\<rparr>"
  have i: "i < T" by (rule inside_lt [OF assms(1)]) (simp add: pc)
  have s': "s' = op_goto i OpIdle (s\<lparr>op_pool := pool, op_held := (op_held s)(NewMutex := False),
      in_use := insert a (in_use s), history := history s @ [NewEv a]\<rparr>)"
    using assms(4) by (simp add: pool_def)
  have others: "\<not> inside (op_pcs s j)" if "j \<noteq> i" for j using assms(1) pc that by (auto simp: threads_ok_def)
  then have "threads_ok T s'" using assms(1) i by (auto simp: threads_ok_def s')
  obtain p0 where p0: "serial sz N (new_array, ObjectPool_init Map.empty, {}) (history s) (new_array, p0, in_use s)"
    "progress sz N new_array (NewCount a) p0 (op_pool s)"
    using assms(2) pc unfolding serial_inv_def by (metis inside.simps(7))
  have "tracked_new sz N (new_array, p0, in_use s) = Inr (a, (new_array, pool, insert a (in_use s)))"
    using progress_new [OF p0(2)] by (simp add: tracked_new_def pool_def)
  from serial.new [OF p0(1) this] have "serial_inv sz N new_array s'"
    using others by (auto simp: serial_inv_def s')
  with \<open>threads_ok T s'\<close> show ?thesis by blast
qed

lemma leave_del_ok:
  assumes "threads_ok T s" and "serial_inv sz N new_array s" and pc: "op_pcs s i = DelHead obj"
    and "op_run_step True sz N new_array i (DelHead obj) s = Some s'"
  shows "threads_ok T s' \<and> serial_inv sz N new_array s'"
proof -
  define pool where "pool = (op_pool s)\<lparr>mFreeList := obj\<rparr>"
  have i: "i < T" by (rule inside_lt [OF assms(1)]) (simp add: pc)
  have s': "s' = op_goto i OpIdle (s\<lparr>op_pool := pool, op_held := (op_held s)(NewMutex := False),
      in_use := in_use s - {obj}, history := history s @ [DelEv obj]\<rparr>)"
    using assms(4) by (simp add: pool_def delete_mutex_def)
  have others: "\<not> inside (op_pcs s j)" if "j \<noteq> i" for j using assms(1) pc that by (auto simp: threads_ok_def)
  have "deleting (op_pcs s i) = Some obj" by (simp add: pc)
  then have obj: "obj \<in> in_use s" "\<And>j. j \<noteq> i \<Longrightarrow> deleting (op_pcs s j) \<noteq> Some obj"
    using assms(1) unfolding threads_ok_def by metis+
  then have "threads_ok T s'" using assms(1) i others by (auto simp: threads_ok_def s')
  obtain p0 where p0: "serial sz N (new_array, ObjectPool_init Map.empty, {}) (history s) (new_array, p0, in_use s)"
    "progress sz N new_array (DelHead obj) p0 (op_pool s)"
    using assms(2) pc unfolding serial_inv_def by (metis inside.simps(11))
  have "tracked_delete obj (new_array, p0, in_use s) = Inr (new_array, pool, in_use s - {obj})"
    using progress_del [OF p0(2)] by (simp add: tracked_delete_def pool_def)
  from serial.del [OF p0(1) _ this] obj(1) have "serial_inv sz N new_array s'"
    using others by (auto simp: serial_inv_def s' tracked_live_def)
  with \<open>threads_ok T s'\<close> show ?thesis by blast
qed

lemma run_step_ok:
  assumes "threads_ok T s" and "serial_inv sz N new_array s" and "i < T"
    and run: "op_run_step True sz N new_array i (op_pcs s i) s = Some s'"
  shows "threads_ok T s' \<and> serial_inv sz N new_array s'"
proof -
  have exec: ?thesis if "inside (op_pcs s i)" "(case op_exec sz N new_array (op_pcs s i) (op_pool s) of
        Inl e \<Rightarrow> None | Inr (pc', pool) \<Rightarrow> Some (op_goto i pc' (s\<lparr>op_pool := pool\<rparr>))) = Some s'"
    using that exec_threads_ok [OF assms(1) that(1)] exec_serial_inv [OF assms(1,2) that(1)] op_exec_inside
    by (fastforce split: sum.splits prod.splits)
  have enter: ?thesis if "s' = op_goto i pc (s\<lparr>op_held := (op_held s)(NewMutex := True)\<rparr>)" "\<not> op_held s NewMutex"
    "inside pc" "deleting pc = deleting (op_pcs s i)" "\<And>p pool. progress sz N new_array pc p pool \<longleftrightarrow> pool = p" for pc
    unfolding that(1) by (rule enter_ok [OF assms(1,2,3) that(2-5)])
  show ?thesis
  proof (cases "op_pcs s i")
    case OpIdle
    then show ?thesis using run by simp
  next
    case NewWait
    then show ?thesis using run by (intro enter [of NewRefill]) (simp_all split: if_splits)
  next
    case (DelWait obj)
    then show ?thesis using run by (intro enter [of "DelAssert obj"]) (simp_all add: delete_mutex_def split: if_splits)
  next
    case (NewCount a)
    then show ?thesis using leave_new_ok [OF assms(1,2) NewCount] run by simp
  next
    case (DelHead obj)
    then show ?thesis using leave_del_ok [OF assms(1,2) DelHead] run by simp
  qed (use run exec in simp_all)
qed

lemma call_ok:
  assumes "threads_ok T s" and "serial_inv sz N new_array s" and "i < T" and "op_pcs s i = OpIdle" and "\<not> inside pc"
    and "\<And>obj j. deleting pc = Some obj \<Longrightarrow> obj \<in> in_use s \<and> deleting (op_pcs s j) \<noteq> Some obj"
  shows "threads_ok T (op_goto i pc s) \<and> serial_inv sz N new_array (op_goto i pc s)"
proof
  have ins: "inside (((op_pcs s)(i := pc)) j) \<longleftrightarrow> inside (op_pcs s j)" for j using assms(4,5) by simp
  have del: "deleting (((op_pcs s)(i := pc)) j) = (if j = i then deleting pc else deleting (op_pcs s j))" for j by simp
  have idle: "((op_pcs s)(i := pc)) j = OpIdle" if "T \<le> j" for j using assms(1,3) that by (auto simp: threads_ok_def)
  show "threads_ok T (op_goto i pc s)"
    unfolding threads_ok_def goto_sel ins del using assms(1,6) idle by (auto simp: threads_ok_def)
  have "progress sz N new_array (((op_pcs s)(i := pc)) j) p pool \<longleftrightarrow> progress sz N new_array (op_pcs s j) p pool"
    if "inside (op_pcs s j)" for j p pool using that assms(4) by (cases "j = i") simp_all
  then show "serial_inv sz N new_array (op_goto i pc s)"
    using assms(2) unfolding serial_inv_def goto_sel ins by blast
qed

lemma op_reachable_inv:
  assumes "op_reachable True sz N new_array T s"
  shows "threads_ok T s \<and> serial_inv sz N new_array s"
  using assms
proof (induction rule: op_reachable.induct)
  case start
  show ?case by (auto simp: threads_ok_def serial_inv_def op_init_def intro: serial.nothing)
next
  case (act s a s')
  show ?case
  proof (cases a)
    case (CallNew i)
    with act show ?thesis using call_ok [of T s sz N new_array i NewWait] by (simp split: if_splits)
  next
    case (CallDelete i obj)
    with act have en: "i < T" "op_pcs s i = OpIdle" "obj \<in> in_use s" "\<forall>j < T. deleting (op_pcs s j) \<noteq> Some obj"
      "s' = op_goto i (DelWait obj) s" by (auto simp: list_all_iff split: if_splits)
    then have "deleting (op_pcs s j) \<noteq> Some obj" for j
      using act.IH by (cases "j < T") (simp_all add: threads_ok_def)
    then show ?thesis unfolding en(5) using act.IH en by (intro call_ok) auto
  next
    case (OpStep i)
    with act show ?thesis using run_step_ok [of T s sz N new_array i s'] by (auto split: if_splits)
  qed
qed

section \<open>Properties of the pool under threads\<close>

text \<open>C11: With one mutex for both operators the pool is linearisable: whatever the threads do, when nobody is in
  a critical section the pool is the one that the finished calls, made one after the other in
  the order in which they left, produce. On zeroed memory no object is handed out while it is in
  use.\<close>

theorem one_mutex_serialises:
  assumes "op_reachable True sizeof_C ALLOC_COUNT new_array T s" and "\<not> op_held s NewMutex"
  shows "serial sizeof_C ALLOC_COUNT (new_array, ObjectPool_init Map.empty, {}) (history s) (new_array, op_pool s, in_use s) \<and>
    (new_array_ok new_array \<and> 0 < sizeof_C \<and> 0 < ALLOC_COUNT \<longrightarrow> live_after (history s) {} = Some (in_use s))"
proof -
  have ser: "serial sizeof_C ALLOC_COUNT (new_array, ObjectPool_init Map.empty, {}) (history s) (new_array, op_pool s, in_use s)"
    using op_reachable_inv [OF assms(1)] assms(2) by (auto simp: serial_inv_def)
  moreover have "live_after (history s) {} = Some (in_use s)"
    if "new_array_ok new_array" "0 < sizeof_C" "0 < ALLOC_COUNT"
    using serial_live [OF ser tracked_init_inv [OF that(1)] that(2,3)] by (simp add: tracked_live_def)
  ultimately show ?thesis by blast
qed

definition once_array :: new_array_fn where
  "once_array mem n = (if mem 4096 = None \<and> n = 96 then Some (4096, \<lambda>_. 0) else None)"

definition call_new :: "nat \<Rightarrow> op_action list" where
  "call_new i = [CallNew i, OpStep i, OpStep i, OpStep i, OpStep i, OpStep i]"

definition interleaved_calls :: "op_action list" where
  "interleaved_calls = call_new 0 @ [CallDelete 1 4096, OpStep 1, OpStep 1, OpStep 1, OpStep 1] @ call_new 0 @
     [OpStep 1] @ call_new 0 @ call_new 0"

definition separate_calls :: "op_action list" where
  "separate_calls = call_new 0 @ [CallDelete 1 4096, OpStep 1, OpStep 1, OpStep 1, OpStep 1, OpStep 1] @ call_new 0"

lemmas run_simps = interleaved_calls_def separate_calls_def call_new_def op_init_def op_goto_def ObjectPool_init_def
  once_array_def op_refill_def map_chunk_def store_ptr_def load_ptr_def delete_mutex_def CRASH_ASSERT_def
  numeral_2_eq_2 numeral_3_eq_3 Let_def

lemma interleaved_run:
  "map_option history (op_schedule False 24 4 once_array 2 interleaved_calls (op_init Map.empty)) =
     Some [NewEv 4096, NewEv 4120, DelEv 4096, NewEv 4096, NewEv 4120]"
  by (simp add: run_simps)

lemma separate_run:
  "map_option (\<lambda>s. (history s, op_held s NewMutex))
     (op_schedule True 24 4 once_array 2 separate_calls (op_init Map.empty)) =
     Some ([NewEv 4096, DelEv 4096, NewEv 4096], False)"
  by (simp add: run_simps)

theorem one_mutex_serialises_witness:
  "\<exists>s. op_reachable True 24 4 once_array 2 s \<and> history s = [NewEv 4096, DelEv 4096, NewEv 4096] \<and>
     serial 24 4 (once_array, ObjectPool_init Map.empty, {}) [NewEv 4096, DelEv 4096, NewEv 4096] (once_array, op_pool s, in_use s)"
proof -
  obtain s where s: "op_schedule True 24 4 once_array 2 separate_calls (op_init Map.empty) = Some s"
    "history s = [NewEv 4096, DelEv 4096, NewEv 4096]" "\<not> op_held s NewMutex"
    using separate_run by auto
  from op_schedule_reachable [OF s(1) op_reachable.start] have r: "op_reachable True 24 4 once_array 2 s" .
  with one_mutex_serialises [OF r s(3)] s(2) show ?thesis by auto
qed

text \<open>C35: With a mutex for each operator, as in the study version, the object in use at 4120 is handed out a second
  time: while one thread is about to make the object it deletes the head of the free list,
  another takes the object that the deleted one already links to.\<close>

theorem two_mutexes_hand_out_twice:
  "\<exists>s. op_reachable False 24 4 once_array 2 s \<and> live_after (history s) {} = None \<and>
     history s = [NewEv 4096, NewEv 4120, DelEv 4096, NewEv 4096, NewEv 4120]"
proof -
  obtain s where s: "op_schedule False 24 4 once_array 2 interleaved_calls (op_init Map.empty) = Some s"
    "history s = [NewEv 4096, NewEv 4120, DelEv 4096, NewEv 4096, NewEv 4120]"
    using interleaved_run by auto
  from op_schedule_reachable [OF s(1) op_reachable.start] have "op_reachable False 24 4 once_array 2 s" .
  with s(2) show ?thesis by auto
qed

end
