(* ===== verification/Session_Base.thy ===== *)
theory Session_Base
  imports CircularBuffer FastSpinLock Exception
begin

text \<open>
  What the two session classes share: the outcome of an overlapped socket call, the I/O types and
  disconnect reasons, \<open>std::mutex\<close> with its scoped guard, and the contract of
  \<open>AddRef\<close>/\<open>ReleaseRef\<close>. The operating system is not part of the program: the outcome of every
  socket call is an argument of the operation that makes it.
\<close>

section \<open>Socket calls\<close>

datatype wsa_status = WsaOk | SocketError DWORD

definition WSA_IO_PENDING :: DWORD where "WSA_IO_PENDING = 997"
definition WAIT_TIMEOUT :: DWORD where "WAIT_TIMEOUT = 258"

text \<open>The test \<open>SOCKET_ERROR == ... && WSAGetLastError() != WSA_IO_PENDING\<close>, negated: the request was
  accepted and its completion will be queued.\<close>

definition accepted :: "wsa_status \<Rightarrow> bool" where
  "accepted st = (case st of WsaOk \<Rightarrow> True | SocketError e \<Rightarrow> e = WSA_IO_PENDING)"

lemma accepted_simps [simp]: "accepted WsaOk" "accepted (SocketError e) \<longleftrightarrow> e = WSA_IO_PENDING"
  by (simp_all add: accepted_def)

definition WSAGetLastError :: "wsa_status \<Rightarrow> DWORD" where
  "WSAGetLastError st = (case st of WsaOk \<Rightarrow> 0 | SocketError e \<Rightarrow> e)"

lemma rejected_error: "\<not> accepted st \<Longrightarrow> WSAGetLastError st \<noteq> WSA_IO_PENDING"
  by (cases st) (simp_all add: WSAGetLastError_def)

text \<open>The enumerations of both servers in one type each: \<open>IO_CONNECT\<close> and \<open>DR_SENDFLUSH_ERROR\<close> exist only in
  the second, \<open>DR_RECV_ZERO\<close> only in the first; \<open>THREAD_NONE\<close> is the initial -1 of \<open>LThreadType\<close>.\<close>

datatype IOType = IO_NONE | IO_SEND | IO_RECV | IO_RECV_ZERO | IO_ACCEPT | IO_DISCONNECT | IO_CONNECT

datatype DisconnectReason =
  DR_NONE | DR_RECV_ZERO | DR_ACTIVE | DR_ONCONNECT_ERROR | DR_COMPLETION_ERROR | DR_IO_REQUEST_ERROR
  | DR_SENDFLUSH_ERROR

datatype THREAD_TYPE = THREAD_NONE | THREAD_MAIN | THREAD_IO_WORKER | THREAD_DB_WORKER

text \<open>A context of a pending operation. The flag records whether it was handed to the kernel; the
  owner is the session whose list holds it.\<close>

record io_context =
  mIoType :: IOType
  mWsaBuf_len :: "32 word"
  mWsaBuf_buf :: "offset option"
  mDisconnectReason :: DisconnectReason
  submitted :: bool

definition new_context :: "IOType \<Rightarrow> io_context" where
  "new_context t = \<lparr>mIoType = t, mWsaBuf_len = 0, mWsaBuf_buf = None, mDisconnectReason = DR_NONE,
     submitted = False\<rparr>"

lemma new_context_simps [simp]:
  "mIoType (new_context t) = t" "mWsaBuf_len (new_context t) = 0" "mWsaBuf_buf (new_context t) = None"
  "submitted (new_context t) = False"
  by (simp_all add: new_context_def)

text \<open>One result of \<open>GetQueuedCompletionStatus\<close>.\<close>

record completion =
  gqcs_ret :: int
  dwTransferred :: DWORD
  gqcs_context :: "io_context option"
  gqcs_error :: DWORD

text \<open>The system calls the two \<open>Finalize\<close> methods make.\<close>

datatype shutdown_call = CloseHandle nat | WSACleanup

section \<open>Mutexes\<close>

text \<open>A \<open>std::mutex\<close> is held or not; locking it again from the same thread does not return.\<close>

definition mutex_lock :: "bool \<Rightarrow> bool option" where
  "mutex_lock held = (if held then None else Some True)"

definition mutex_unlock :: "bool \<Rightarrow> bool" where
  "mutex_unlock held = False"

interpretation mtx: exclusive_lock Not mutex_lock mutex_unlock
  by unfold_locales (auto simp: mutex_lock_def mutex_unlock_def)

section \<open>Worker threads\<close>

text \<open>The variables of a thread with a value (\<open>LTimer\<close> and \<open>LLockOrderChecker\<close> are components of their own).\<close>

record io_thread_locals =
  tl_LThreadType :: THREAD_TYPE
  tl_LIoThreadId :: "32 word"
  tl_LTickCount :: "64 word"

text \<open>A loop without an exit: the k-th iteration either goes on or faults, and a loop in which no iteration faults
  does not end (\<open>None\<close>).\<close>

partial_function (option) forever :: "(nat \<Rightarrow> 's \<Rightarrow> 's result) \<Rightarrow> nat \<Rightarrow> 's \<Rightarrow> fault option" where
  "forever body k s = (case body k s of Inl fault \<Rightarrow> Some fault | Inr s' \<Rightarrow> forever body (Suc k) s')"

fun rounds :: "(nat \<Rightarrow> 's \<Rightarrow> 's result) \<Rightarrow> nat \<Rightarrow> nat \<Rightarrow> 's \<Rightarrow> 's result" where
  "rounds body k 0 s = Inr s"
| "rounds body k (Suc n) s = bindR (body k s) (rounds body (Suc k) n)"

lemma rounds_snoc: "rounds body k (Suc n) s = bindR (rounds body k n s) (body (k + n))"
proof (induction n arbitrary: k s)
  case 0
  then show ?case by (simp add: bindR_def split: sum.splits)
next
  case (Suc n)
  have "rounds body (Suc k) (Suc n) = (\<lambda>s. bindR (rounds body (Suc k) n s) (body (k + Suc n)))"
    by (rule ext) (simp only: Suc.IH, simp)
  then show ?case by (simp only: rounds.simps(2) [of body k] bindR_assoc)
qed

lemma forever_faults: "rounds body k n s = Inl fault \<Longrightarrow> forever body k s = Some fault"
proof (induction n arbitrary: k s)
  case (Suc n)
  then show ?case by (cases "body k s") (auto simp: forever.simps [of body k])
qed simp

lemma forever_ends: "forever body k s = Some fault \<Longrightarrow> \<exists>n. rounds body k n s = Inl fault"
proof (erule forever.raw_induct [rotated])
  fix run body k s f
  assume IH: "\<And>body k s f. run body k s = Some f \<Longrightarrow> \<exists>n. rounds body k n s = Inl f"
    and e: "(case body k s of Inl fault \<Rightarrow> Some fault | Inr s' \<Rightarrow> run body (Suc k) s') = Some f"
  show "\<exists>n. rounds body k n s = Inl f"
  proof (cases "body k s")
    case (Inl g)
    then show ?thesis using e by (intro exI [of _ 1]) auto
  next
    case (Inr s')
    then obtain n where "rounds body (Suc k) n s' = Inl f" using e IH [of body "Suc k" s' f] by auto
    then show ?thesis using Inr by (intro exI [of _ "Suc n"]) auto
  qed
qed

lemma forever_iff: "forever body k s = Some fault \<longleftrightarrow> (\<exists>n. rounds body k n s = Inl fault)"
  using forever_faults forever_ends by metis

text \<open>An invariant under which no iteration faults keeps the loop running.\<close>

lemma forever_never:
  assumes "I s" and "\<And>n t. rounds body k n s = Inr t \<Longrightarrow> I t \<Longrightarrow> \<exists>t'. body (k + n) t = Inr t' \<and> I t'"
  shows "forever body k s = None"
proof -
  have "\<exists>t. rounds body k n s = Inr t \<and> I t" for n
  proof (induction n)
    case (Suc n)
    then obtain t where t: "rounds body k n s = Inr t" "I t" by blast
    then show ?case using assms(2) [OF t] rounds_snoc [of body k n s] by (auto simp del: rounds.simps)
  qed (use assms(1) in simp)
  then have "forever body k s \<noteq> Some fault" for fault by (metis forever_ends sum.distinct(1))
  then show ?thesis by (cases "forever body k s") auto
qed

section \<open>Reference counts\<close>

fun run_refs :: "('s \<Rightarrow> 's result) \<Rightarrow> ('s \<Rightarrow> 's result) \<Rightarrow> bool list \<Rightarrow> 's \<Rightarrow> 's result" where
  "run_refs addref release [] s = Inr s"
| "run_refs addref release (True # rs) s = bindR (addref s) (run_refs addref release rs)"
| "run_refs addref release (False # rs) s = bindR (release s) (run_refs addref release rs)"

text \<open>The counter after a sequence of calls, or \<open>None\<close> if it left the range from 1 to 2147483647.\<close>

fun count_refs :: "int \<Rightarrow> bool list \<Rightarrow> int option" where
  "count_refs n [] = Some n"
| "count_refs n (True # rs) = (if n < 2 ^ 31 - 1 then count_refs (n + 1) rs else None)"
| "count_refs n (False # rs) = (if 1 < n then count_refs (n - 1) rs else None)"

locale refcounted =
  fixes refs :: "'s \<Rightarrow> LONG"
    and addref :: "'s \<Rightarrow> 's result"
    and release :: "'s \<Rightarrow> 's result"
  assumes addref_ok: "0 \<le> sint (refs s) \<Longrightarrow> sint (refs s) < 2 ^ 31 - 1 \<Longrightarrow>
      \<exists>s'. addref s = Inr s' \<and> sint (refs s') = sint (refs s) + 1"
    and addref_overflow: "sint (refs s) = 2 ^ 31 - 1 \<Longrightarrow> addref s = Inl CrashAssert"
    and release_ok: "1 < sint (refs s) \<Longrightarrow> \<exists>s'. release s = Inr s' \<and> sint (refs s') = sint (refs s) - 1"
    and release_unowned: "refs s = 0 \<Longrightarrow> release s = Inl CrashAssert"
begin

text \<open>While somebody else keeps a reference, any sequence of calls returns and counts exactly.\<close>

lemma run_refs_counts:
  assumes "1 \<le> sint (refs s)" and "count_refs (sint (refs s)) rs = Some n"
  shows "\<exists>s'. run_refs addref release rs s = Inr s' \<and> sint (refs s') = n"
  using assms
proof (induction rs arbitrary: s)
  case Nil
  then show ?case by simp
next
  case (Cons r rs)
  show ?case
  proof (cases r)
    case True
    with Cons.prems have lt: "sint (refs s) < 2 ^ 31 - 1" by (simp split: if_splits)
    obtain s1 where s1: "addref s = Inr s1" "sint (refs s1) = sint (refs s) + 1"
      using addref_ok [OF _ lt] Cons.prems(1) by auto
    show ?thesis using Cons.IH [of s1] Cons.prems s1 True lt by simp
  next
    case False
    with Cons.prems have lt: "1 < sint (refs s)" by (simp split: if_splits)
    obtain s1 where s1: "release s = Inr s1" "sint (refs s1) = sint (refs s) - 1"
      using release_ok [OF lt] by auto
    show ?thesis using Cons.IH [of s1] Cons.prems s1 False lt by simp
  qed
qed

end

end
