(* ===== verification/SimpleIocpServer.thy ===== *)
theory SimpleIocpServer
  imports ObjectPool Session_Base
begin

text \<open>
  \<open>SomeTest/SimpleIocpServer.hpp\<close>: a copy of the object pool with one pooled structure and a \<open>main\<close> that
  allocates it, and the unused guard \<open>ClassLockGuard\<close> of \<open>ObjectPool.hpp\<close>.
\<close>

text \<open>\<open>MyStructA\<close> derives from the empty class \<open>ObjectPool<MyStructA>\<close>, which takes no room: eight bytes and four
  times four.\<close>

record MyStructA =
  msa_id :: "64 word"
  msa_x :: "32 word"
  msa_y :: "32 word"
  msa_z :: "32 word"
  msa_seq :: "32 word"

definition sizeof_MyStructA :: nat where "sizeof_MyStructA = 8 + 4 * 4"

text \<open>\<open>main\<close> asks for ten bytes; \<open>operator new\<close> ignores the argument and takes objects of \<open>sizeof(Container)\<close>.\<close>

definition simple_main :: "new_array_fn \<Rightarrow> pointers \<Rightarrow> (nat \<times> ObjectPool) result" where
  "simple_main new_array mem = operator_new sizeof_MyStructA 100 new_array (ObjectPool_init mem)"

text \<open>The constructor of \<open>ClassLockGuard::LockGuard\<close> locks through a \<open>std::lock_guard\<close> that is a local variable, so
  the mutex is released before the constructor returns; the destructor is empty.\<close>

definition ClassLockGuard_LockGuard :: "bool \<Rightarrow> bool option" where
  "ClassLockGuard_LockGuard mMutex = map_option mutex_unlock (mutex_lock mMutex)"

lemma class_guard_protects_nothing:
  "ClassLockGuard_LockGuard m = (if m then None else Some False)"
  "Option.bind (ClassLockGuard_LockGuard False) ClassLockGuard_LockGuard = Some False"
  by (simp_all add: ClassLockGuard_LockGuard_def mutex_lock_def mutex_unlock_def)

text \<open>\<open>main\<close> takes one chunk of 2400 bytes and returns its first object.\<close>

lemma simple_main_ok:
  assumes "new_array mem 2400 = Some (base, junk)" and "0 < base"
  shows "\<exists>pool. simple_main new_array mem = Inr (base, pool) \<and> mFreeList pool = base + 24 \<and>
    mCurrentUseCount pool = 1 \<and> mTotalAllocCount pool = 100"
proof -
  have z: "mFreeList (ObjectPool_init mem) = 0" "objects (ObjectPool_init mem) = mem"
    by (simp_all add: ObjectPool_init_def)
  obtain mem' where mem': "simple_main new_array mem =
      operator_new 24 100 new_array (refilled 100 base mem' (ObjectPool_init mem))"
      "free_path mem' base (nodes 24 base 100) (junk (base + 99 * 24))"
    using operator_new_refill [where new_array = new_array and junk = junk and pool = "ObjectPool_init mem" and sz = 24
        and N = 100 and base = base, OF z(1)] assms z(2)
    by (auto simp: simple_main_def sizeof_MyStructA_def)
  have n: "nodes 24 base 100 = base # (base + 24) # nodes 24 (base + 48) 98"
    by (simp add: numeral_eq_Suc nodes_Suc)
  have path: "free_path (objects (refilled 100 base mem' (ObjectPool_init mem)))
      (mFreeList (refilled 100 base mem' (ObjectPool_init mem)))
      (base # (base + 24) # nodes 24 (base + 48) 98) (junk (base + 99 * 24))"
    using mem'(2) by (simp add: refilled_def n)
  show ?thesis
    using operator_new_pop [OF path, of 24 100 new_array] mem'(1)
    by (auto simp: refilled_def ObjectPool_init_def)
qed

end
