(* ===== verification/ClientSession.thy ===== *)
theory ClientSession
  imports Session_Base
begin

text \<open>
  \<open>win-iocp/ClientSession.hpp\<close>: one client connection. The record holds the class's members and,
  in \<open>cs_contexts\<close>, the contexts that were allocated for this session and never deleted;
  \<open>DeleteIoContext\<close> has an empty body in this version. \<open>SessionManager::CreateClientSession\<close>, which
  \<open>ReleaseRef\<close> calls, is not in the sources: it is the parameter \<open>on_zero\<close>.
\<close>

definition BUFSIZE :: size_t where "BUFSIZE = 4096"

record ClientSession =
  cs_mSocket :: nat
  cs_mClientAddr :: nat
  cs_mMutex :: bool
  cs_mBuffer :: CircularBuffer
  cs_mRefCount :: LONG
  cs_mConnected :: LONG
  cs_contexts :: "io_context list"

section \<open>Operations\<close>

definition ClientSession_new :: "(nat \<Rightarrow> byte) \<Rightarrow> nat \<Rightarrow> nat \<Rightarrow> ClientSession" where
  "ClientSession_new junk sock addr =
     \<lparr>cs_mSocket = sock, cs_mClientAddr = addr, cs_mMutex = False,
      cs_mBuffer = CircularBuffer_new junk BUFSIZE, cs_mRefCount = 0, cs_mConnected = 0, cs_contexts = []\<rparr>"

text \<open>\<open>std::lock_guard<std::mutex> lock(mMutex)\<close> around a body.\<close>

definition cs_guarded ::
  "(ClientSession \<Rightarrow> ('a \<times> ClientSession) result) \<Rightarrow> ClientSession \<Rightarrow> ('a \<times> ClientSession) result" where
  "cs_guarded body s =
     (case mutex_lock (cs_mMutex s) of
        None \<Rightarrow> Inl SelfDeadlock
      | Some m \<Rightarrow> bindR (body (s\<lparr>cs_mMutex := m\<rparr>)) (\<lambda>(r, s').
          Inr (r, s'\<lparr>cs_mMutex := mutex_unlock (cs_mMutex s')\<rparr>)))"

definition SessionReset :: "nat \<Rightarrow> ClientSession \<Rightarrow> ClientSession" where
  "SessionReset newSocket s =
     s\<lparr>cs_mConnected := 0, cs_mRefCount := 0, cs_mClientAddr := 0, cs_mSocket := newSocket\<rparr>"

definition cs_AddRef :: "ClientSession \<Rightarrow> ClientSession result" where
  "cs_AddRef s =
     (let ref = cs_mRefCount s + 1 in
      bindR (CRASH_ASSERT (sint ref > 0)) (\<lambda>_. Inr (s\<lparr>cs_mRefCount := ref\<rparr>)))"

definition cs_ReleaseRef ::
  "(ClientSession \<Rightarrow> ClientSession result) \<Rightarrow> ClientSession \<Rightarrow> ClientSession result" where
  "cs_ReleaseRef on_zero s =
     (let ref = cs_mRefCount s - 1; s' = s\<lparr>cs_mRefCount := ref\<rparr> in
      bindR (CRASH_ASSERT (sint ref \<ge> 0)) (\<lambda>_. if ref = 0 then on_zero s' else Inr s'))"

text \<open>The constructor of \<open>OverlappedIOContext\<close>; \<open>cs_keep\<close> leaves the finished context on the heap.\<close>

definition cs_new_context :: "IOType \<Rightarrow> ClientSession \<Rightarrow> (io_context \<times> ClientSession) result" where
  "cs_new_context ioType s = bindR (cs_AddRef s) (\<lambda>s'. Inr (new_context ioType, s'))"

definition cs_keep :: "io_context \<Rightarrow> ClientSession \<Rightarrow> ClientSession" where
  "cs_keep context s = s\<lparr>cs_contexts := context # cs_contexts s\<rparr>"

definition cs_DeleteIoContext :: "io_context \<Rightarrow> ClientSession \<Rightarrow> ClientSession" where
  "cs_DeleteIoContext context s = s"

definition cs_IsConnected :: "ClientSession \<Rightarrow> bool" where
  "cs_IsConnected s \<longleftrightarrow> cs_mConnected s \<noteq> 0"

definition cs_SetSocket :: "nat \<Rightarrow> ClientSession \<Rightarrow> ClientSession" where
  "cs_SetSocket sock s = s\<lparr>cs_mSocket := sock\<rparr>"

definition cs_GetSocket :: "ClientSession \<Rightarrow> nat" where
  "cs_GetSocket s = cs_mSocket s"

definition cs_PostAccept :: "THREAD_TYPE \<Rightarrow> ClientSession \<Rightarrow> (bool \<times> ClientSession) result" where
  "cs_PostAccept LThreadType s =
     bindR (CRASH_ASSERT (LThreadType = THREAD_MAIN)) (\<lambda>_.
     bindR (cs_new_context IO_ACCEPT s) (\<lambda>(acceptContext, s').
     Inr (True, cs_keep acceptContext s')))"

definition cs_DisconnectRequest :: "DisconnectReason \<Rightarrow> ClientSession \<Rightarrow> ClientSession result" where
  "cs_DisconnectRequest dr s =
     (let s' = s\<lparr>cs_mConnected := 0\<rparr> in
      if cs_mConnected s = 0 then Inr s'
      else bindR (cs_new_context IO_DISCONNECT s') (\<lambda>(context, s').
        Inr (cs_keep (context\<lparr>mDisconnectReason := dr\<rparr>) s')))"

definition cs_DisconnectCompletion ::
  "(ClientSession \<Rightarrow> ClientSession result) \<Rightarrow> DisconnectReason \<Rightarrow> ClientSession \<Rightarrow> ClientSession result" where
  "cs_DisconnectCompletion on_zero dr s = cs_ReleaseRef on_zero s"

definition cs_PreRecv :: "ClientSession \<Rightarrow> (bool \<times> ClientSession) result" where
  "cs_PreRecv s =
     (if \<not> cs_IsConnected s then Inr (False, s)
      else bindR (cs_new_context IO_RECV s) (\<lambda>(context, s'). Inr (True, cs_keep context s')))"

text \<open>The end of an operation that posts \<open>context\<close>: \<open>wsa\<close> is the outcome of the socket call.\<close>

definition cs_submit :: "wsa_status \<Rightarrow> io_context \<Rightarrow> ClientSession \<Rightarrow> (bool \<times> ClientSession) result" where
  "cs_submit wsa context s =
     (if accepted wsa then Inr (True, cs_keep (context\<lparr>submitted := True\<rparr>) s)
      else Inr (False, cs_DeleteIoContext context (cs_keep context s)))"

definition cs_PostRecv :: "wsa_status \<Rightarrow> ClientSession \<Rightarrow> (bool \<times> ClientSession) result" where
  "cs_PostRecv wsa s =
     (if \<not> cs_IsConnected s then Inr (False, s)
      else cs_guarded (\<lambda>s.
        bindR (cs_new_context IO_RECV s) (\<lambda>(context, s).
        let (len, buffer) = GetFreeSpaceSize (cs_mBuffer s) in
        cs_submit wsa (context\<lparr>mWsaBuf_len := len, mWsaBuf_buf := Some (GetBuffer buffer)\<rparr>)
          (s\<lparr>cs_mBuffer := buffer\<rparr>))) s)"

definition cs_RecvCompletion :: "DWORD \<Rightarrow> ClientSession \<Rightarrow> ClientSession result" where
  "cs_RecvCompletion transferred s =
     bindR (cs_guarded (\<lambda>s. Inr ((), s\<lparr>cs_mBuffer := Commit transferred (cs_mBuffer s)\<rparr>)) s)
       (\<lambda>(_, s'). Inr s')"

definition cs_PostSend :: "wsa_status \<Rightarrow> ClientSession \<Rightarrow> (bool \<times> ClientSession) result" where
  "cs_PostSend wsa s =
     (if \<not> cs_IsConnected s then Inr (False, s)
      else cs_guarded (\<lambda>s.
        bindR (cs_new_context IO_SEND s) (\<lambda>(context, s).
        cs_submit wsa (context\<lparr>mWsaBuf_len := GetContiguiousBytes (cs_mBuffer s),
            mWsaBuf_buf := GetBufferStart (cs_mBuffer s)\<rparr>) s)) s)"

definition cs_SendCompletion :: "DWORD \<Rightarrow> ClientSession \<Rightarrow> ClientSession result" where
  "cs_SendCompletion transferred s =
     bindR (cs_guarded (\<lambda>s. bindR (Remove transferred (cs_mBuffer s)) (\<lambda>buffer.
        Inr ((), s\<lparr>cs_mBuffer := buffer\<rparr>))) s)
       (\<lambda>(_, s'). Inr s')"

text \<open>\<open>OnConnect\<close>: the local \<open>handle\<close> is 0 and is compared with the completion port; the outcome of
  setting \<open>SO_RCVBUF\<close> and the port are arguments. \<open>IncreaseConnectionCount\<close> is not in the sources.\<close>

definition cs_OnConnect ::
  "bool \<Rightarrow> nat \<Rightarrow> nat \<Rightarrow> ('m \<Rightarrow> 'm) \<Rightarrow> wsa_status \<Rightarrow> ClientSession \<Rightarrow> 'm \<Rightarrow> ((bool \<times> 'm) \<times> ClientSession) result" where
  "cs_OnConnect rcvbuf_ok completionPort addr IncreaseConnectionCount wsa s manager =
     cs_guarded (\<lambda>s.
       if \<not> rcvbuf_ok then Inr ((False, manager), s)
       else let handle = 0 in
         if handle \<noteq> completionPort then Inr ((False, manager), s)
         else bindR (cs_PostRecv wsa (s\<lparr>cs_mClientAddr := addr, cs_mConnected := 1\<rparr>)) (\<lambda>(ok, s').
           Inr ((ok, IncreaseConnectionCount manager), s'))) s"

text \<open>The three options and the peer's address of \<open>AcceptCompletion\<close>; \<open>None\<close> is an error.\<close>

record accept_calls =
  SO_UPDATE_ACCEPT_CONTEXT_ok :: bool
  TCP_NODELAY_ok :: bool
  SO_RCVBUF_ok :: bool
  getpeername_addr :: "nat option"

definition accept_setup :: "accept_calls \<Rightarrow> ClientSession \<Rightarrow> bool \<times> ClientSession" where
  "accept_setup calls s =
     (if \<not> SO_UPDATE_ACCEPT_CONTEXT_ok calls then (False, s)
      else if \<not> TCP_NODELAY_ok calls then (False, s)
      else if \<not> SO_RCVBUF_ok calls then (False, s)
      else case getpeername_addr calls of
             None \<Rightarrow> (False, s)
           | Some addr \<Rightarrow> (True, s\<lparr>cs_mClientAddr := addr\<rparr>))"

definition cs_AcceptCompletion :: "THREAD_TYPE \<Rightarrow> accept_calls \<Rightarrow> ClientSession \<Rightarrow> ClientSession result" where
  "cs_AcceptCompletion LThreadType calls s =
     bindR (CRASH_ASSERT (LThreadType = THREAD_IO_WORKER)) (\<lambda>_.
     let s' = s\<lparr>cs_mConnected := 1\<rparr> in
     if cs_mConnected s = 1 then bindR (CRASH_ASSERT False) (\<lambda>_. Inr s')
     else let (resultOk, s') = accept_setup calls s' in
       if \<not> resultOk then cs_DisconnectRequest DR_ONCONNECT_ERROR s'
       else bindR (cs_PreRecv s') (\<lambda>(_, s'). Inr s'))"

section \<open>Reference counting\<close>

interpretation csr: refcounted cs_mRefCount cs_AddRef "cs_ReleaseRef on_zero" for on_zero
proof
  fix s :: ClientSession
  show "\<exists>s'. cs_AddRef s = Inr s' \<and> sint (cs_mRefCount s') = sint (cs_mRefCount s) + 1"
    if "0 \<le> sint (cs_mRefCount s)" "sint (cs_mRefCount s) < 2 ^ 31 - 1"
    using that sint_incr [of "cs_mRefCount s"] by (simp add: cs_AddRef_def Let_def)
  show "cs_AddRef s = Inl CrashAssert" if "sint (cs_mRefCount s) = 2 ^ 31 - 1"
    using sint_incr_overflow [OF that] by (simp add: cs_AddRef_def Let_def)
  show "\<exists>s'. cs_ReleaseRef on_zero s = Inr s' \<and> sint (cs_mRefCount s') = sint (cs_mRefCount s) - 1"
    if "1 < sint (cs_mRefCount s)"
  proof -
    have "sint (cs_mRefCount s - 1) = sint (cs_mRefCount s) - 1" using that by (intro sint_decr) simp
    moreover from this that have "cs_mRefCount s - 1 \<noteq> 0" by auto
    ultimately show ?thesis using that by (simp add: cs_ReleaseRef_def Let_def)
  qed
  show "cs_ReleaseRef on_zero s = Inl CrashAssert" if "cs_mRefCount s = 0"
    using that by (simp add: cs_ReleaseRef_def Let_def)
qed

text \<open>The counter is the number of contexts that were allocated and never deleted.\<close>

definition cs_inv :: "ClientSession \<Rightarrow> bool" where
  "cs_inv s \<longleftrightarrow> cb_inv (cs_mBuffer s) \<and> \<not> cs_mMutex s \<and> cs_mRefCount s = of_nat (length (cs_contexts s))"

definition cs_room :: "ClientSession \<Rightarrow> bool" where
  "cs_room s \<longleftrightarrow> length (cs_contexts s) < 2 ^ 31 - 1"

lemma cs_new_inv: "cs_inv (ClientSession_new junk sock addr)"
  by (simp add: cs_inv_def ClientSession_new_def cb_new_inv)

lemma cs_new_context_ok:
  assumes "cs_mRefCount s = of_nat (length (cs_contexts s))" and "cs_room s"
  shows "cs_new_context t s = Inr (new_context t, s\<lparr>cs_mRefCount := of_nat (Suc (length (cs_contexts s)))\<rparr>)"
proof -
  have "sint (of_nat (Suc (length (cs_contexts s))) :: LONG) = int (Suc (length (cs_contexts s)))"
    using assms(2) unfolding signed_of_nat by (subst signed_take_bit_int_eq_self) (simp_all add: cs_room_def)
  then have "0 < sint (cs_mRefCount s + 1)" using assms(1) by (simp add: add.commute)
  with assms(1) show ?thesis by (simp add: cs_new_context_def cs_AddRef_def Let_def add.commute)
qed

lemma cs_new_context_at_limit:
  assumes "cs_mRefCount s = of_nat (length (cs_contexts s))" and "length (cs_contexts s) = 2 ^ 31 - 1"
  shows "cs_new_context t s = Inl CrashAssert"
proof -
  have "sint (cs_mRefCount s) = 2 ^ 31 - 1"
    unfolding assms signed_of_nat by (subst signed_take_bit_int_eq_self) simp_all
  then show ?thesis by (simp add: cs_new_context_def csr.addref_overflow)
qed

lemma cs_guarded_free:
  "\<not> cs_mMutex s \<Longrightarrow> cs_guarded body s =
     bindR (body (s\<lparr>cs_mMutex := True\<rparr>)) (\<lambda>(r, s'). Inr (r, s'\<lparr>cs_mMutex := False\<rparr>))"
  by (simp add: cs_guarded_def mutex_lock_def mutex_unlock_def)

lemma cs_guarded_held: "cs_mMutex s \<Longrightarrow> cs_guarded body s = Inl SelfDeadlock"
  by (simp add: cs_guarded_def mutex_lock_def)

section \<open>What each operation does\<close>

text \<open>Every operation that allocates a context adds exactly one and keeps the invariant.\<close>

definition cs_adds :: "ClientSession \<Rightarrow> io_context \<Rightarrow> ClientSession" where
  "cs_adds s c = s\<lparr>cs_mRefCount := of_nat (Suc (length (cs_contexts s))), cs_contexts := c # cs_contexts s\<rparr>"

lemma cs_adds_simps [simp]:
  "cs_contexts (cs_adds s c) = c # cs_contexts s" "cs_mBuffer (cs_adds s c) = cs_mBuffer s"
  "cs_mConnected (cs_adds s c) = cs_mConnected s" "cs_mMutex (cs_adds s c) = cs_mMutex s"
  "cs_IsConnected (cs_adds s c) = cs_IsConnected s"
  by (simp_all add: cs_adds_def cs_IsConnected_def)

lemma cs_adds_inv: "cs_inv s \<Longrightarrow> cs_inv (cs_adds s c)"
  by (simp add: cs_inv_def) (simp add: cs_adds_def)

lemma cs_PreRecv_ok:
  assumes "cs_inv s" and "cs_room s"
  shows "cs_PreRecv s =
    (if cs_IsConnected s then Inr (True, cs_adds s (new_context IO_RECV)) else Inr (False, s))"
  using assms cs_new_context_ok [of s IO_RECV]
  by (simp add: cs_PreRecv_def cs_inv_def cs_keep_def cs_adds_def)

lemma cs_DisconnectRequest_ok:
  assumes "cs_inv s" and "cs_room s"
  shows "cs_DisconnectRequest dr s =
    Inr (if cs_IsConnected s
         then cs_adds (s\<lparr>cs_mConnected := 0\<rparr>) ((new_context IO_DISCONNECT)\<lparr>mDisconnectReason := dr\<rparr>)
         else s)"
proof -
  have "cs_new_context IO_DISCONNECT (s\<lparr>cs_mConnected := 0\<rparr>) =
      Inr (new_context IO_DISCONNECT, (s\<lparr>cs_mConnected := 0\<rparr>)\<lparr>cs_mRefCount := of_nat (Suc (length (cs_contexts s)))\<rparr>)"
    using assms cs_new_context_ok [of "s\<lparr>cs_mConnected := 0\<rparr>"] by (simp add: cs_inv_def cs_room_def)
  then show ?thesis
    by (cases s) (simp add: cs_DisconnectRequest_def cs_IsConnected_def cs_keep_def cs_adds_def)
qed

lemma cs_PostAccept_ok:
  assumes "cs_inv s" and "cs_room s"
  shows "cs_PostAccept th s =
    (if th = THREAD_MAIN then Inr (True, cs_adds s (new_context IO_ACCEPT)) else Inl CrashAssert)"
  using assms cs_new_context_ok [of s IO_ACCEPT]
  by (simp add: cs_PostAccept_def cs_inv_def cs_keep_def cs_adds_def)

text \<open>A posted receive describes the free space of the buffer; a posted send the stored front.\<close>

definition recv_context :: "wsa_status \<Rightarrow> ClientSession \<Rightarrow> io_context" where
  "recv_context wsa s =
     (new_context IO_RECV)\<lparr>mWsaBuf_len := fst (GetFreeSpaceSize (cs_mBuffer s)),
       mWsaBuf_buf := Some (GetBuffer (snd (GetFreeSpaceSize (cs_mBuffer s)))), submitted := accepted wsa\<rparr>"

definition send_context :: "wsa_status \<Rightarrow> ClientSession \<Rightarrow> io_context" where
  "send_context wsa s =
     (new_context IO_SEND)\<lparr>mWsaBuf_len := GetContiguiousBytes (cs_mBuffer s),
       mWsaBuf_buf := GetBufferStart (cs_mBuffer s), submitted := accepted wsa\<rparr>"

lemma send_context_simps [simp]:
  "mIoType (send_context wsa s) = IO_SEND" "mWsaBuf_len (send_context wsa s) = GetContiguiousBytes (cs_mBuffer s)"
  "mWsaBuf_buf (send_context wsa s) = GetBufferStart (cs_mBuffer s)" "submitted (send_context wsa s) = accepted wsa"
  by (simp_all add: send_context_def)

lemma recv_context_simps [simp]:
  "mIoType (recv_context wsa s) = IO_RECV"
  "mWsaBuf_len (recv_context wsa s) = fst (GetFreeSpaceSize (cs_mBuffer s))"
  "mWsaBuf_buf (recv_context wsa s) = Some (GetBuffer (snd (GetFreeSpaceSize (cs_mBuffer s))))"
  "submitted (recv_context wsa s) = accepted wsa"
  by (simp_all add: recv_context_def)

lemma cs_PostRecv_ok:
  assumes "cs_inv s" and "cs_room s" and "cs_IsConnected s"
  shows "cs_PostRecv wsa s = Inr (accepted wsa,
    cs_adds (s\<lparr>cs_mBuffer := snd (GetFreeSpaceSize (cs_mBuffer s))\<rparr>) (recv_context wsa s))"
proof -
  have "cs_new_context IO_RECV (s\<lparr>cs_mMutex := True\<rparr>) = Inr (new_context IO_RECV,
      (s\<lparr>cs_mMutex := True\<rparr>)\<lparr>cs_mRefCount := of_nat (Suc (length (cs_contexts s)))\<rparr>)"
    using assms cs_new_context_ok [of "s\<lparr>cs_mMutex := True\<rparr>"] by (simp add: cs_inv_def cs_room_def)
  then show ?thesis
    using assms(1,3)
    by (cases s) (auto simp: cs_PostRecv_def cs_guarded_free cs_inv_def cs_submit_def cs_keep_def
        cs_DeleteIoContext_def cs_adds_def recv_context_def new_context_def split: prod.splits)
qed

lemma cs_PostSend_ok:
  assumes "cs_inv s" and "cs_room s" and "cs_IsConnected s"
  shows "cs_PostSend wsa s = Inr (accepted wsa, cs_adds s (send_context wsa s))"
proof -
  have "cs_new_context IO_SEND (s\<lparr>cs_mMutex := True\<rparr>) = Inr (new_context IO_SEND,
      (s\<lparr>cs_mMutex := True\<rparr>)\<lparr>cs_mRefCount := of_nat (Suc (length (cs_contexts s)))\<rparr>)"
    using assms cs_new_context_ok [of "s\<lparr>cs_mMutex := True\<rparr>"] by (simp add: cs_inv_def cs_room_def)
  then show ?thesis
    using assms(1,3)
    by (cases s) (auto simp: cs_PostSend_def cs_guarded_free cs_inv_def cs_submit_def cs_keep_def
        cs_DeleteIoContext_def cs_adds_def send_context_def new_context_def)
qed

lemma cs_RecvCompletion_ok:
  "\<not> cs_mMutex s \<Longrightarrow> cs_RecvCompletion n s = Inr (s\<lparr>cs_mBuffer := Commit n (cs_mBuffer s)\<rparr>)"
  by (cases s) (simp add: cs_RecvCompletion_def cs_guarded_free)

lemma cs_SendCompletion_ok:
  assumes "cs_inv s"
  shows "\<exists>b. cs_SendCompletion n s = Inr (s\<lparr>cs_mBuffer := b\<rparr>) \<and> cb_inv b \<and>
    cb_contents b = drop (unat n) (cb_contents (cs_mBuffer s))"
proof -
  obtain b where "Remove n (cs_mBuffer s) = Inr b" "cb_inv b"
    "cb_contents b = drop (unat n) (cb_contents (cs_mBuffer s))"
    using cbq.remove_ok [of "cs_mBuffer s" n] assms by (auto simp: cs_inv_def)
  then show ?thesis
    using assms by (cases s) (auto simp: cs_SendCompletion_def cs_guarded_free cs_inv_def)
qed

section \<open>Properties of the client session\<close>

text \<open>\<open>OnConnect\<close> never connects a client. It rejects the connection whenever a completion port
  exists, because it compares it with a handle that is always 0; and without a port it locks
  \<open>mMutex\<close> a second time in \<open>PostRecv\<close>.\<close>

lemma OnConnect_never_connects:
  assumes "\<not> cs_mMutex s"
  shows "cs_OnConnect rcvbuf_ok completionPort addr inc wsa s manager =
    (if rcvbuf_ok \<and> completionPort = 0 then Inl SelfDeadlock else Inr ((False, manager), s))"
  using assms
  by (cases s) (auto simp: cs_OnConnect_def cs_guarded_free cs_guarded_held cs_PostRecv_def
      cs_IsConnected_def Let_def)

end
