(* ===== verification/SessionManager.thy ===== *)
theory SessionManager
  imports ClientSession
begin

text \<open>
  \<open>win-iocp/SessionManager.hpp\<close>: the list of idle client sessions and the accept loop. The counters
  are 64-bit. Both loops of the accept path are \<open>partial_function (option)\<close>: \<open>None\<close> means that the
  call does not return.
\<close>

definition MAX_CONNECTION :: nat where "MAX_CONNECTION = 10"

record SessionManager =
  mFreeClientList :: "ClientSession list"
  sm_mMutex :: bool
  mCurrentIssueCount :: "64 word"
  mCurrentReturnCount :: "64 word"

definition SessionManager_new :: SessionManager where
  "SessionManager_new =
     \<lparr>mFreeClientList = [], sm_mMutex = False, mCurrentIssueCount = 0, mCurrentReturnCount = 0\<rparr>"

text \<open>The destructor deletes the idle sessions; the list is the objects it deletes.\<close>

definition SessionManager_end :: "SessionManager \<Rightarrow> ClientSession list" where
  "SessionManager_end sm = mFreeClientList sm"

text \<open>The loop of \<open>PrepareSessions\<close>; \<open>fresh i\<close> is the object the i-th \<open>new ClientSession()\<close> returns.\<close>

fun prepare_from :: "nat \<Rightarrow> (nat \<Rightarrow> ClientSession) \<Rightarrow> nat \<Rightarrow> SessionManager \<Rightarrow> SessionManager" where
  "prepare_from 0 fresh i sm = sm"
| "prepare_from (Suc k) fresh i sm =
     prepare_from k fresh (Suc i) (sm\<lparr>mFreeClientList := mFreeClientList sm @ [fresh i]\<rparr>)"

definition PrepareSessions ::
  "THREAD_TYPE \<Rightarrow> (nat \<Rightarrow> ClientSession) \<Rightarrow> SessionManager \<Rightarrow> SessionManager result" where
  "PrepareSessions LThreadType fresh sm =
     bindR (CRASH_ASSERT (LThreadType = THREAD_MAIN)) (\<lambda>_. Inr (prepare_from MAX_CONNECTION fresh 0 sm))"

definition ReturnClientSession :: "nat \<Rightarrow> ClientSession \<Rightarrow> SessionManager \<Rightarrow> SessionManager result" where
  "ReturnClientSession newSocket client sm =
     (case mutex_lock (sm_mMutex sm) of
        None \<Rightarrow> Inl SelfDeadlock
      | Some m \<Rightarrow>
          bindR (CRASH_ASSERT (cs_mConnected client = 0 \<and> cs_mRefCount client = 0)) (\<lambda>_.
          Inr (sm\<lparr>mFreeClientList := mFreeClientList sm @ [SessionReset newSocket client],
                  mCurrentReturnCount := mCurrentReturnCount sm + 1,
                  sm_mMutex := mutex_unlock m\<rparr>)))"

text \<open>The body of the accept loop is empty, so a call that returns leaves the manager as it found it (the guard
  releases the mutex again), and the loop runs under the manager's mutex.\<close>

partial_function (option) AcceptSessions_loop :: "64 word \<Rightarrow> 64 word \<Rightarrow> bool option" where
  "AcceptSessions_loop issued returned =
     (if issued - returned < of_nat MAX_CONNECTION then AcceptSessions_loop issued returned else Some True)"

definition AcceptSessions :: "SessionManager \<Rightarrow> bool option" where
  "AcceptSessions sm =
     Option.bind (mutex_lock (sm_mMutex sm)) (\<lambda>_. AcceptSessions_loop (mCurrentIssueCount sm) (mCurrentReturnCount sm))"

section \<open>Lemmas\<close>

lemma AcceptSessions_loop_never:
  assumes "issued - returned < of_nat MAX_CONNECTION"
  shows "AcceptSessions_loop issued returned = None"
proof (rule ccontr)
  assume "AcceptSessions_loop issued returned \<noteq> None"
  then obtain r where ret: "AcceptSessions_loop issued returned = Some r" by blast
  have "\<not> issued - returned < of_nat MAX_CONNECTION"
    by (rule AcceptSessions_loop.raw_induct [where P = "\<lambda>i j r. \<not> i - j < of_nat MAX_CONNECTION", OF _ ret])
      (auto split: if_splits)
  with assms show False by simp
qed

lemma AcceptSessions_cases:
  "AcceptSessions sm =
     (if sm_mMutex sm \<or> mCurrentIssueCount sm - mCurrentReturnCount sm < 10 then None else Some True)"
  using AcceptSessions_loop_never [of "mCurrentIssueCount sm" "mCurrentReturnCount sm"]
    AcceptSessions_loop.simps [of "mCurrentIssueCount sm" "mCurrentReturnCount sm"]
  by (auto simp: AcceptSessions_def mutex_lock_def MAX_CONNECTION_def)

lemma prepare_from_list:
  "prepare_from k fresh i sm = sm\<lparr>mFreeClientList := mFreeClientList sm @ map fresh [i..<i + k]\<rparr>"
proof (induction k arbitrary: i sm)
  case (Suc k)
  moreover have "[i..<i + Suc k] = i # [Suc i..<Suc i + k]" by (simp add: upt_conv_Cons del: upt_Suc)
  ultimately show ?case by (simp del: upt_Suc)
qed simp

lemma PrepareSessions_list:
  "PrepareSessions THREAD_MAIN fresh SessionManager_new =
     Inr (SessionManager_new\<lparr>mFreeClientList := map fresh [0..<10]\<rparr>)"
  by (simp add: PrepareSessions_def prepare_from_list MAX_CONNECTION_def SessionManager_new_def)

section \<open>Properties of the session manager\<close>

text \<open>\<open>AcceptSessions\<close> returns, and then with \<open>true\<close>, only if at least \<open>MAX_CONNECTION\<close> sessions are
  issued and not returned (by 64-bit difference); otherwise it spins with the manager locked. A
  freshly prepared manager spins.\<close>

lemma AcceptSessions_returns_iff:
  "AcceptSessions sm =
     (if sm_mMutex sm \<or> mCurrentIssueCount sm - mCurrentReturnCount sm < of_nat MAX_CONNECTION then None else Some True) \<and>
   (\<exists>sm0. PrepareSessions THREAD_MAIN fresh SessionManager_new = Inr sm0 \<and>
      length (mFreeClientList sm0) = MAX_CONNECTION \<and> AcceptSessions sm0 = None)"
proof
  show "\<exists>sm0. PrepareSessions THREAD_MAIN fresh SessionManager_new = Inr sm0 \<and>
      length (mFreeClientList sm0) = MAX_CONNECTION \<and> AcceptSessions sm0 = None"
    unfolding PrepareSessions_list by (simp add: AcceptSessions_cases MAX_CONNECTION_def SessionManager_new_def)
qed (simp add: AcceptSessions_cases MAX_CONNECTION_def)

text \<open>A session can be returned only when it is disconnected and unreferenced; it is appended to the
  free list with a new socket, but with the bytes of its previous client still in its buffer.\<close>

lemma returned_session_keeps_old_bytes:
  assumes "ReturnClientSession newSocket client sm = Inr sm'"
  shows "\<exists>s. mFreeClientList sm' = mFreeClientList sm @ [s] \<and> cs_mSocket s = newSocket \<and>
    cs_mConnected client = 0 \<and> cs_mRefCount client = 0 \<and>
    mCurrentReturnCount sm' = mCurrentReturnCount sm + 1 \<and> \<not> sm_mMutex sm' \<and>
    cb_contents (cs_mBuffer s) = cb_contents (cs_mBuffer client)"
  using assms
  by (auto simp: ReturnClientSession_def mutex_lock_def mutex_unlock_def bindR_Inr_iff CRASH_ASSERT_Inr
      SessionReset_def split: if_splits)

definition used_client :: ClientSession where
  "used_client = (ClientSession_new (\<lambda>_. 0) 1 0)
     \<lparr>cs_mBuffer := Commit 3 (CircularBuffer_new (\<lambda>_. 65) 4)\<rparr>"

end
