(* ===== verification/IocpManager.thy ===== *)
theory IocpManager
  imports SessionManager
begin

text \<open>
  \<open>win-iocp/IocpManager.hpp\<close> and \<open>EduEchoServer.cpp\<close>: start-up of the server, the accept loop, and one
  iteration of the worker thread. What the operating system answers is an argument: the record
  \<open>init_calls\<close> for \<open>Initialize\<close>, a \<open>completion\<close> for \<open>GetQueuedCompletionStatus\<close>, a \<open>wsa_status\<close> for
  the send that a completed receive posts.
\<close>

section \<open>Starting the server\<close>

record IocpManager =
  mCompletionPort :: nat
  mIoThreadCount :: "32 word"
  mListenSocket :: "32 word"

definition IocpManager_new :: IocpManager where
  "IocpManager_new = \<lparr>mCompletionPort = 0, mIoThreadCount = 2, mListenSocket = 0\<rparr>"

definition INVALID_SOCKET :: "32 word" where "INVALID_SOCKET = - 1"

text \<open>\<open>info_writable\<close> tells whether the uninitialised pointer passed to \<open>GetSystemInfo\<close> happens to
  point to memory of the process.\<close>

record init_calls =
  info_writable :: bool
  dwNumberOfProcessors :: "32 word"
  WSAStartup_ret :: int
  created_port :: nat
  created_socket :: "32 word"
  associated_port :: nat
  bind_ok :: bool

definition Initialize ::
  "THREAD_TYPE \<Rightarrow> init_calls \<Rightarrow> (nat \<Rightarrow> ClientSession) \<Rightarrow> IocpManager \<Rightarrow> SessionManager \<Rightarrow>
     (bool \<times> IocpManager \<times> SessionManager) result" where
  "Initialize LThreadType calls fresh im sm =
     (if \<not> info_writable calls then Inl OutOfBounds
      else let im = im\<lparr>mIoThreadCount := dwNumberOfProcessors calls\<rparr> in
      if WSAStartup_ret calls \<noteq> 0 then Inr (False, im, sm)
      else let im = im\<lparr>mCompletionPort := created_port calls, mListenSocket := created_socket calls\<rparr> in
      if mListenSocket im = INVALID_SOCKET then Inr (False, im, sm)
      else let handle = associated_port calls in
      if handle \<noteq> mCompletionPort im then Inr (False, im, sm)
      else if \<not> bind_ok calls then Inr (False, im, sm)
      else bindR (PrepareSessions LThreadType fresh sm) (\<lambda>sm'. Inr (True, im, sm')))"

text \<open>\<open>Finalize\<close> changes no member: the system calls it makes are its result.\<close>

definition Finalize :: "IocpManager \<Rightarrow> shutdown_call list" where
  "Finalize im = [CloseHandle (mCompletionPort im), WSACleanup]"

text \<open>\<open>StartIoThreads\<close>: \<open>spawned i\<close> tells whether creating the i-th thread succeeds; the result lists the
  identifiers passed to the threads that run.\<close>

function StartIoThreads_from :: "(int \<Rightarrow> bool) \<Rightarrow> int \<Rightarrow> int \<Rightarrow> int list \<Rightarrow> bool \<times> int list" where
  "StartIoThreads_from spawned i count running =
     (if i < count then
        (if spawned i then StartIoThreads_from spawned (i + 1) count (running @ [i + 1])
         else (False, running))
      else (True, running))"
  by pat_completeness auto
termination
  by (relation "measure (\<lambda>(spawned, i, count, running). nat (count - i))") auto

declare StartIoThreads_from.simps [simp del]

definition StartIoThreads :: "(int \<Rightarrow> bool) \<Rightarrow> IocpManager \<Rightarrow> bool \<times> int list" where
  "StartIoThreads spawned im = StartIoThreads_from spawned 0 (sint (mIoThreadCount im)) []"

text \<open>\<open>StartAccept\<close>: \<open>seen i\<close> is the manager as the i-th call of \<open>AcceptSessions\<close> finds it.\<close>

partial_function (option) accept_loop :: "(nat \<Rightarrow> SessionManager) \<Rightarrow> nat \<Rightarrow> bool option" where
  "accept_loop seen i =
     (case AcceptSessions (seen i) of
        None \<Rightarrow> None
      | Some again \<Rightarrow> if again then accept_loop seen (Suc i) else Some True)"

definition StartAccept :: "bool \<Rightarrow> (nat \<Rightarrow> SessionManager) \<Rightarrow> bool option" where
  "StartAccept listen_ok seen = (if \<not> listen_ok then Some False else accept_loop seen 0)"

text \<open>\<open>_tmain\<close>: its exit code with the calls made on shutdown, \<open>None\<close> when it does not return, or a fault.\<close>

definition tmain ::
  "init_calls \<Rightarrow> (nat \<Rightarrow> ClientSession) \<Rightarrow> (int \<Rightarrow> bool) \<Rightarrow> bool \<Rightarrow> (nat \<Rightarrow> SessionManager) \<Rightarrow>
     (int \<times> shutdown_call list) option result" where
  "tmain calls fresh spawned listen_ok seen =
     bindR (Initialize THREAD_MAIN calls fresh IocpManager_new SessionManager_new) (\<lambda>(ok, im, sm).
     if \<not> ok then Inr (Some (- 1, []))
     else if \<not> fst (StartIoThreads spawned im) then Inr (Some (- 1, []))
     else case StartAccept listen_ok seen of
        None \<Rightarrow> Inr None
      | Some accept_ok \<Rightarrow> if \<not> accept_ok then Inr (Some (- 1, [])) else Inr (Some (0, Finalize im)))"

section \<open>The worker thread\<close>

definition PreReceiveCompletion :: "io_context \<Rightarrow> DWORD \<Rightarrow> ClientSession \<Rightarrow> (bool \<times> ClientSession) result" where
  "PreReceiveCompletion context transferred client = cs_PreRecv client"

definition ReceiveCompletion ::
  "wsa_status \<Rightarrow> io_context \<Rightarrow> DWORD \<Rightarrow> ClientSession \<Rightarrow> (bool \<times> ClientSession) result" where
  "ReceiveCompletion wsa context transferred client =
     bindR (cs_RecvCompletion transferred client) (cs_PostSend wsa)"

definition SendCompletion :: "io_context \<Rightarrow> DWORD \<Rightarrow> ClientSession \<Rightarrow> (bool \<times> ClientSession) result" where
  "SendCompletion context transferred client =
     bindR (cs_SendCompletion transferred client) (\<lambda>client.
     if mWsaBuf_len context \<noteq> transferred then Inr (False, client) else cs_PreRecv client)"

definition dispatch ::
  "(ClientSession \<Rightarrow> ClientSession result) \<Rightarrow> accept_calls \<Rightarrow> wsa_status \<Rightarrow> io_context \<Rightarrow> DWORD \<Rightarrow>
     ClientSession \<Rightarrow> (bool \<times> ClientSession) result" where
  "dispatch on_zero calls wsa context transferred client =
     (case mIoType context of
        IO_DISCONNECT \<Rightarrow>
          bindR (cs_DisconnectCompletion on_zero (mDisconnectReason context) client) (\<lambda>c. Inr (True, c))
      | IO_ACCEPT \<Rightarrow> bindR (cs_AcceptCompletion THREAD_IO_WORKER calls client) (\<lambda>c. Inr (True, c))
      | IO_RECV_ZERO \<Rightarrow> PreReceiveCompletion context transferred client
      | IO_SEND \<Rightarrow> SendCompletion context transferred client
      | IO_RECV \<Rightarrow> ReceiveCompletion wsa context transferred client
      | _ \<Rightarrow> bindR (CRASH_ASSERT False) (\<lambda>_. Inr (False, client)))"

text \<open>One iteration of \<open>IoWorkerThread\<close>; the client is the owner of the completed context.\<close>

definition IoWorkerThread_step ::
  "(ClientSession \<Rightarrow> ClientSession result) \<Rightarrow> accept_calls \<Rightarrow> wsa_status \<Rightarrow> completion \<Rightarrow> ClientSession \<Rightarrow>
     ClientSession result" where
  "IoWorkerThread_step on_zero calls wsa packet client =
     (let handle_it =
        (case gqcs_context packet of
           None \<Rightarrow> bindR (CRASH_ASSERT False) (\<lambda>_. Inr client)
         | Some context \<Rightarrow>
             bindR (dispatch on_zero calls wsa context (dwTransferred packet) client) (\<lambda>(completionOk, client).
             bindR (if \<not> completionOk then cs_DisconnectRequest DR_IO_REQUEST_ERROR client else Inr client) (\<lambda>client.
             Inr (cs_DeleteIoContext context client))))
      in
      if gqcs_ret packet = 0 \<or> dwTransferred packet = 0 then
        (case gqcs_context packet of
           None \<Rightarrow> Inl NullDeref
         | Some context \<Rightarrow>
             if mIoType context = IO_RECV \<or> mIoType context = IO_SEND then
               bindR (cs_DisconnectRequest DR_COMPLETION_ERROR client) (\<lambda>client.
               Inr (cs_DeleteIoContext context client))
             else handle_it)
      else handle_it)"

text \<open>The thread: the k-th packet it dequeues comes with the owner of its context and with what the system
  answers to the calls made for it. The clients are a store indexed by their identity. The result is
  the thread's variables and the fault that ends the loop, \<open>None\<close> when it goes on forever.\<close>

type_synonym cs_job = "nat \<times> accept_calls \<times> wsa_status \<times> completion"

definition cs_run_job ::
  "(ClientSession \<Rightarrow> ClientSession result) \<Rightarrow> (nat \<Rightarrow> cs_job) \<Rightarrow> nat \<Rightarrow> (nat \<Rightarrow> ClientSession) \<Rightarrow>
     (nat \<Rightarrow> ClientSession) result" where
  "cs_run_job on_zero jobs k cs = (case jobs k of (i, calls, wsa, packet) \<Rightarrow>
     bindR (IoWorkerThread_step on_zero calls wsa packet (cs i)) (\<lambda>client. Inr (cs(i := client))))"

definition cs_IoWorkerThread ::
  "(ClientSession \<Rightarrow> ClientSession result) \<Rightarrow> (nat \<Rightarrow> cs_job) \<Rightarrow> 32 word \<Rightarrow> io_thread_locals \<Rightarrow>
     (nat \<Rightarrow> ClientSession) \<Rightarrow> io_thread_locals \<times> fault option" where
  "cs_IoWorkerThread on_zero jobs lpParam locals cs =
     (let locals = locals\<lparr>tl_LThreadType := THREAD_IO_WORKER, tl_LIoThreadId := lpParam\<rparr>
      in (locals, forever (cs_run_job on_zero jobs) 0 cs))"

definition GetCompletionPort :: "IocpManager \<Rightarrow> nat" where
  "GetCompletionPort im = mCompletionPort im"

definition GetIoThreadCount :: "IocpManager \<Rightarrow> 32 word" where
  "GetIoThreadCount im = mIoThreadCount im"

section \<open>Lemmas about start-up\<close>

lemma accept_loop_never: "accept_loop seen i = None"
proof (rule ccontr)
  assume "accept_loop seen i \<noteq> None"
  then obtain r where ret: "accept_loop seen i = Some r" by blast
  show False
    by (rule accept_loop.raw_induct [where P = "\<lambda>seen i r. False", OF _ ret])
      (auto simp: AcceptSessions_cases split: if_splits)
qed

lemma StartIoThreads_from_spec:
  "StartIoThreads_from spawned i count running =
     (let ok = takeWhile spawned [i..count - 1] in
      (length ok = nat (count - i), running @ map (\<lambda>j. j + 1) ok))"
proof (induction spawned i count running rule: StartIoThreads_from.induct)
  case (1 spawned i count running)
  show ?case
  proof (cases "i < count")
    case True
    then have "[i..count - 1] = i # [i + 1..count - 1]" by (simp add: upto_rec1)
    moreover have "nat (count - i) = Suc (nat (count - (i + 1)))" using True by simp
    ultimately show ?thesis
      using True 1 by (simp add: StartIoThreads_from.simps [of spawned i] Let_def)
  qed (simp add: StartIoThreads_from.simps [of spawned i])
qed

section \<open>Lemmas about the worker\<close>

text \<open>The bytes a context describes in the client's buffer, and the kernel filling a posted receive.\<close>

definition context_bytes :: "io_context \<Rightarrow> ClientSession \<Rightarrow> byte list result" where
  "context_bytes context client =
     (if mWsaBuf_len context = 0 then Inr []
      else case mWsaBuf_buf context of
        None \<Rightarrow> Inl NullDeref
      | Some p \<Rightarrow> memread (unat p) (unat (mWsaBuf_len context)) (mBuffer (cs_mBuffer client)))"

definition deliver :: "byte list \<Rightarrow> io_context \<Rightarrow> ClientSession \<Rightarrow> ClientSession result" where
  "deliver data context client =
     (case mWsaBuf_buf context of
        None \<Rightarrow> Inl NullDeref
      | Some p \<Rightarrow> bindR (memcpy (unat p) data (mBuffer (cs_mBuffer client))) (\<lambda>bs.
          Inr (client\<lparr>cs_mBuffer := (cs_mBuffer client)\<lparr>mBuffer := bs\<rparr>\<rparr>)))"

lemma deliver_fill:
  assumes "mWsaBuf_buf context = Some (GetBuffer (cs_mBuffer client))"
  shows "deliver data context client =
    bindR (buffer_fill data (cs_mBuffer client)) (\<lambda>b. Inr (client\<lparr>cs_mBuffer := b\<rparr>))"
  by (simp add: deliver_def assms buffer_fill_def bindR_assoc)

lemma send_context_bytes:
  assumes "cs_inv client"
  shows "context_bytes (send_context wsa client) client =
    Inr (take (unat (GetContiguiousBytes (cs_mBuffer client))) (cb_contents (cs_mBuffer client)))"
  using cbq.peek_ok [of "cs_mBuffer client" "GetContiguiousBytes (cs_mBuffer client)"] assms
  by (auto simp: context_bytes_def buffer_peek_def cs_inv_def split: option.splits if_splits)

lemma context_bytes_adds [simp]: "context_bytes c (cs_adds s x) = context_bytes c s"
  by (simp add: context_bytes_def split: option.splits)

definition ok_packet :: "io_context \<Rightarrow> DWORD \<Rightarrow> completion" where
  "ok_packet context n = \<lparr>gqcs_ret = 1, dwTransferred = n, gqcs_context = Some context, gqcs_error = 0\<rparr>"

lemma worker_recv:
  assumes "client1 = client\<lparr>cs_mBuffer := Commit n (cs_mBuffer client)\<rparr>" and "cs_inv client1"
    and "cs_room client" and "cs_IsConnected client" and "n \<noteq> 0" and "mIoType context = IO_RECV"
  shows "IoWorkerThread_step on_zero calls WsaOk (ok_packet context n) client =
    Inr (cs_adds client1 (send_context WsaOk client1))"
proof -
  have "cs_room client1" "cs_IsConnected client1" "\<not> cs_mMutex client"
    using assms by (simp_all add: cs_inv_def cs_room_def cs_IsConnected_def)
  with assms(2) have "cs_PostSend WsaOk client1 = Inr (True, cs_adds client1 (send_context WsaOk client1))"
    by (simp add: cs_PostSend_ok)
  then show ?thesis
    using \<open>\<not> cs_mMutex client\<close> assms(1,5,6)
    by (simp add: IoWorkerThread_step_def ok_packet_def dispatch_def ReceiveCompletion_def
        cs_RecvCompletion_ok cs_DeleteIoContext_def)
qed

lemma worker_send:
  assumes "cs_inv client" and "cs_room client" and "cs_IsConnected client" and "mIoType context = IO_SEND"
    and "mWsaBuf_len context \<noteq> 0"
  shows "\<exists>b. IoWorkerThread_step on_zero calls wsa (ok_packet context (mWsaBuf_len context)) client =
      Inr (cs_adds (client\<lparr>cs_mBuffer := b\<rparr>) (new_context IO_RECV)) \<and> cb_inv b \<and>
    cb_contents b = drop (unat (mWsaBuf_len context)) (cb_contents (cs_mBuffer client))"
proof -
  obtain b where b: "cs_SendCompletion (mWsaBuf_len context) client = Inr (client\<lparr>cs_mBuffer := b\<rparr>)" "cb_inv b"
    "cb_contents b = drop (unat (mWsaBuf_len context)) (cb_contents (cs_mBuffer client))"
    using cs_SendCompletion_ok [OF assms(1)] by blast
  have "cs_PreRecv (client\<lparr>cs_mBuffer := b\<rparr>) = Inr (True, cs_adds (client\<lparr>cs_mBuffer := b\<rparr>) (new_context IO_RECV))"
    using assms(1,2,3) b(2) by (subst cs_PreRecv_ok) (simp_all add: cs_inv_def cs_room_def cs_IsConnected_def)
  then show ?thesis
    using b assms(4,5)
    by (intro exI [of _ b]) (simp add: IoWorkerThread_step_def ok_packet_def dispatch_def SendCompletion_def
        cs_DeleteIoContext_def)
qed

section \<open>The life of a session\<close>

text \<open>What can happen to a session from its construction on: the main thread posts an accept, a receive or a
  send is posted, the kernel fills a posted receive, and the worker handles the completion of a
  context that was handed to the kernel. Because \<open>PostAccept\<close> does not hand its context to the kernel
  yet, the completion of an accept is allowed at any time.\<close>

inductive cs_reachable :: "(ClientSession \<Rightarrow> ClientSession result) \<Rightarrow> ClientSession \<Rightarrow> bool" for on_zero where
  new: "cs_reachable on_zero (ClientSession_new junk sock addr)"
| accept: "cs_reachable on_zero s \<Longrightarrow> cs_PostAccept THREAD_MAIN s = Inr (ok, s') \<Longrightarrow> cs_reachable on_zero s'"
| accepted: "cs_reachable on_zero s \<Longrightarrow> cs_AcceptCompletion THREAD_IO_WORKER calls s = Inr s' \<Longrightarrow> cs_reachable on_zero s'"
| recv: "cs_reachable on_zero s \<Longrightarrow> cs_PostRecv wsa s = Inr (ok, s') \<Longrightarrow> cs_reachable on_zero s'"
| deliver: "cs_reachable on_zero s \<Longrightarrow> c \<in> set (cs_contexts s) \<Longrightarrow> deliver data c s = Inr s' \<Longrightarrow> cs_reachable on_zero s'"
| complete: "cs_reachable on_zero s \<Longrightarrow> gqcs_context packet = Some c \<Longrightarrow> c \<in> set (cs_contexts s) \<Longrightarrow> submitted c \<Longrightarrow>
    IoWorkerThread_step on_zero calls wsa packet s = Inr s' \<Longrightarrow> cs_reachable on_zero s'"

text \<open>The counter is the number of contexts, and only receives and sends are ever with the kernel.\<close>

definition leak_inv :: "ClientSession \<Rightarrow> bool" where
  "leak_inv s \<longleftrightarrow> cs_mRefCount s = of_nat (length (cs_contexts s)) \<and>
     (\<forall>c \<in> set (cs_contexts s). submitted c \<longrightarrow> mIoType c = IO_RECV \<or> mIoType c = IO_SEND)"

lemma leak_inv_buffer [simp]:
  "leak_inv (s\<lparr>cs_mBuffer := b\<rparr>) = leak_inv s" "leak_inv (s\<lparr>cs_mMutex := m\<rparr>) = leak_inv s"
  "leak_inv (s\<lparr>cs_mConnected := x\<rparr>) = leak_inv s" "leak_inv (s\<lparr>cs_mClientAddr := y\<rparr>) = leak_inv s"
  "leak_inv (cs_keep d (s\<lparr>cs_mBuffer := b\<rparr>)) = leak_inv (cs_keep d s)"
  by (simp_all add: leak_inv_def cs_keep_def)

lemma new_context_leak:
  assumes "cs_new_context t s = Inr (c, s')" and "leak_inv s"
  shows "c = new_context t \<and> (\<forall>d. (submitted d \<longrightarrow> mIoType d = IO_RECV \<or> mIoType d = IO_SEND) \<longrightarrow> leak_inv (cs_keep d s'))"
  using assms by (auto simp: cs_new_context_def cs_AddRef_def Let_def bindR_Inr_iff leak_inv_def cs_keep_def)

lemma guarded_leak:
  assumes "cs_guarded body s = Inr (r, s')" and "\<And>s1 r1 s2. leak_inv s1 \<Longrightarrow> body s1 = Inr (r1, s2) \<Longrightarrow> leak_inv s2"
    and "leak_inv s"
  shows "leak_inv s'"
  using assms(1) assms(2) [of "s\<lparr>cs_mMutex := True\<rparr>"] assms(3)
  by (auto simp: cs_guarded_def mutex_lock_def bindR_Inr_iff split: if_splits option.splits)

lemma PreRecv_leak: "cs_PreRecv s = Inr (ok, s') \<Longrightarrow> leak_inv s \<Longrightarrow> leak_inv s'"
  by (auto simp: cs_PreRecv_def bindR_Inr_iff split: if_splits dest!: new_context_leak)

lemma DisconnectRequest_leak: "cs_DisconnectRequest dr s = Inr s' \<Longrightarrow> leak_inv s \<Longrightarrow> leak_inv s'"
  by (auto simp: cs_DisconnectRequest_def Let_def bindR_Inr_iff split: if_splits dest!: new_context_leak)

lemma PostSend_leak: "cs_PostSend wsa s = Inr (ok, s') \<Longrightarrow> leak_inv s \<Longrightarrow> leak_inv s'"
  by (auto simp: cs_PostSend_def cs_submit_def cs_DeleteIoContext_def bindR_Inr_iff split: if_splits
      dest!: new_context_leak elim!: guarded_leak)

lemma PostRecv_leak: "cs_PostRecv wsa s = Inr (ok, s') \<Longrightarrow> leak_inv s \<Longrightarrow> leak_inv s'"
  by (auto simp: cs_PostRecv_def cs_submit_def cs_DeleteIoContext_def bindR_Inr_iff case_prod_beta Let_def
      split: if_splits dest!: new_context_leak elim!: guarded_leak)

lemma AcceptCompletion_leak: "cs_AcceptCompletion th calls s = Inr s' \<Longrightarrow> leak_inv s \<Longrightarrow> leak_inv s'"
  by (auto simp: cs_AcceptCompletion_def accept_setup_def Let_def bindR_Inr_iff CRASH_ASSERT_Inr
      split: if_splits option.splits prod.splits dest: DisconnectRequest_leak PreRecv_leak)

lemma deliver_leak: "deliver data c s = Inr s' \<Longrightarrow> leak_inv s \<Longrightarrow> leak_inv s'"
  by (auto simp: deliver_def bindR_Inr_iff split: option.splits)

lemma completion_leak:
  "cs_RecvCompletion n s = Inr s' \<Longrightarrow> leak_inv s \<Longrightarrow> leak_inv s'"
  "cs_SendCompletion n s = Inr s' \<Longrightarrow> leak_inv s \<Longrightarrow> leak_inv s'"
  by (auto simp: cs_RecvCompletion_def cs_SendCompletion_def bindR_Inr_iff elim!: guarded_leak)

text \<open>For a receive or a send the worker never reaches \<open>ReleaseRef\<close>.\<close>

lemma dispatch_leak:
  assumes "mIoType c = IO_RECV \<or> mIoType c = IO_SEND" and "dispatch on_zero calls wsa c n s = Inr (ok, s')"
    and "leak_inv s"
  shows "leak_inv s'"
  using assms
  by (auto simp: dispatch_def ReceiveCompletion_def SendCompletion_def bindR_Inr_iff split: if_splits)
    (metis completion_leak PostSend_leak PreRecv_leak)+

lemma worker_leak:
  assumes "gqcs_context packet = Some c" and "mIoType c = IO_RECV \<or> mIoType c = IO_SEND"
    and "IoWorkerThread_step on_zero calls wsa packet s = Inr s'" and "leak_inv s"
  shows "leak_inv s'"
  using assms
  by (auto simp: IoWorkerThread_step_def Let_def cs_DeleteIoContext_def bindR_Inr_iff split: if_splits)
    (metis dispatch_leak DisconnectRequest_leak)+

lemma reachable_leak: "cs_reachable on_zero s \<Longrightarrow> leak_inv s"
proof (induction rule: cs_reachable.induct)
  case (new junk sock addr)
  then show ?case by (simp add: leak_inv_def ClientSession_new_def)
next
  case (accept s ok s')
  then show ?case by (auto simp: cs_PostAccept_def bindR_Inr_iff dest!: new_context_leak)
next
  case (complete s packet c calls wsa s')
  then show ?case using worker_leak [of packet c on_zero calls wsa s s'] by (auto simp: leak_inv_def)
qed (blast intro: AcceptCompletion_leak PostRecv_leak deliver_leak)+

section \<open>Properties of the server\<close>

text \<open>One exchange with a client: post a receive, the kernel delivers, the worker handles the completion and
  posts a send, the worker handles its completion. The result holds the bytes on the wire.\<close>

definition echo_round ::
  "(ClientSession \<Rightarrow> ClientSession result) \<Rightarrow> accept_calls \<Rightarrow> byte list \<Rightarrow> ClientSession \<Rightarrow> (byte list \<times> ClientSession) result" where
  "echo_round on_zero calls data client =
     bindR (cs_PostRecv WsaOk client) (\<lambda>(_, c1).
     let recv = hd (cs_contexts c1) in
     bindR (deliver data recv c1) (\<lambda>c2.
     bindR (IoWorkerThread_step on_zero calls WsaOk (ok_packet recv (of_nat (length data))) c2) (\<lambda>c3.
     let send = hd (cs_contexts c3) in
     bindR (context_bytes send c3) (\<lambda>wire.
     bindR (IoWorkerThread_step on_zero calls WsaOk (ok_packet send (mWsaBuf_len send)) c3) (\<lambda>c4.
     Inr (wire, c4))))))"

lemma recv_delivers:
  assumes inv: "cs_inv client" and conn: "cs_IsConnected client" and room: "cs_room client"
    and data: "unat n = length data" "length data \<le> unat (fst (GetFreeSpaceSize (cs_mBuffer client)))"
  shows "\<exists>b. cs_PostRecv WsaOk client = Inr (True,
      cs_adds (client\<lparr>cs_mBuffer := snd (GetFreeSpaceSize (cs_mBuffer client))\<rparr>) (recv_context WsaOk client)) \<and>
    deliver data (recv_context WsaOk client)
      (cs_adds (client\<lparr>cs_mBuffer := snd (GetFreeSpaceSize (cs_mBuffer client))\<rparr>) (recv_context WsaOk client)) =
      Inr (cs_adds (client\<lparr>cs_mBuffer := b\<rparr>) (recv_context WsaOk client)) \<and>
    cb_inv (Commit n b) \<and> cb_contents (Commit n b) = cb_contents (cs_mBuffer client) @ data"
proof -
  have cb: "cb_inv (cs_mBuffer client)" using inv by (simp add: cs_inv_def)
  obtain b where b: "buffer_fill data (snd (GetFreeSpaceSize (cs_mBuffer client))) = Inr b" "cb_inv (Commit n b)"
    "cb_contents (Commit n b) = cb_contents (cs_mBuffer client) @ data"
    using cbq.append_ok [OF cb surjective_pairing data] by blast
  then show ?thesis
    using cs_PostRecv_ok [OF inv room conn, of WsaOk]
    by (intro exI [of _ b]) (simp add: deliver_fill cs_adds_def)
qed

text \<open>The four operations of an exchange, one by one.\<close>

lemma exchange_parts:
  assumes inv: "cs_inv client" and conn: "cs_IsConnected client"
    and room: "length (cs_contexts client) < 2 ^ 31 - 3"
    and data: "data \<noteq> []" "length data \<le> unat (fst (GetFreeSpaceSize (cs_mBuffer client)))"
  obtains recv send c1 c2 c3 c4 wire where
    "cs_PostRecv WsaOk client = Inr (True, c1)" and "cs_contexts c1 = recv # cs_contexts client"
    and "submitted recv" and "mIoType recv = IO_RECV" and "length data \<le> unat (mWsaBuf_len recv)"
    and "deliver data recv c1 = Inr c2" and "cs_contexts c2 = cs_contexts c1"
    and "IoWorkerThread_step on_zero calls WsaOk (ok_packet recv (of_nat (length data))) c2 = Inr c3"
    and "cs_contexts c3 = send # cs_contexts c2" and "submitted send" and "mIoType send = IO_SEND"
    and "mWsaBuf_len send \<noteq> 0" and "context_bytes send c3 = Inr wire" and "length wire = unat (mWsaBuf_len send)"
    and "IoWorkerThread_step on_zero calls WsaOk (ok_packet send (mWsaBuf_len send)) c3 = Inr c4"
    and "cs_contexts c4 = new_context IO_RECV # cs_contexts c3" and "cs_inv c4" and "cs_IsConnected c4"
    and "cb_contents (cs_mBuffer client) @ data = wire @ cb_contents (cs_mBuffer c4)"
proof -
  define n where "n = (of_nat (length data) :: DWORD)"
  have n: "unat n = length data"
    unfolding n_def by (rule unat_of_nat_bounded [OF data(2)])
  then have n0: "n \<noteq> 0" using data(1) by auto
  have r: "cs_room client" using room by (simp add: cs_room_def)
  define recv where "recv = recv_context WsaOk client"
  define c1 where "c1 = cs_adds (client\<lparr>cs_mBuffer := snd (GetFreeSpaceSize (cs_mBuffer client))\<rparr>) recv"
  obtain b where b: "cs_PostRecv WsaOk client = Inr (True, c1)"
    "deliver data recv c1 = Inr (cs_adds (client\<lparr>cs_mBuffer := b\<rparr>) recv)"
    "cb_inv (Commit n b)" "cb_contents (Commit n b) = cb_contents (cs_mBuffer client) @ data"
    using recv_delivers [OF inv conn r n data(2)] unfolding c1_def recv_def by blast
  define c2 where "c2 = cs_adds (client\<lparr>cs_mBuffer := b\<rparr>) recv"
  define c2' where "c2' = c2\<lparr>cs_mBuffer := Commit n b\<rparr>"
  define c3 where "c3 = cs_adds c2' (send_context WsaOk c2')"
  have eq: "c2' = c2\<lparr>cs_mBuffer := Commit n (cs_mBuffer c2)\<rparr>" by (simp add: c2'_def c2_def)
  have inv2: "cs_inv c2'" using cs_adds_inv [OF inv, of recv] b(3)
    by (simp add: cs_inv_def c2'_def c2_def) (simp add: cs_adds_def)
  have frame: "cs_room c2" "cs_IsConnected c2" "cs_room c3" "cs_IsConnected c3" "cs_inv c3"
    "cs_mBuffer c3 = Commit n b" "cs_contexts c3 = send_context WsaOk c2' # cs_contexts c2"
    using room conn cs_adds_inv [OF inv2] by (simp_all add: c2_def c3_def c2'_def cs_room_def cs_IsConnected_def)
  have step1: "IoWorkerThread_step on_zero calls WsaOk (ok_packet recv n) c2 = Inr c3"
    unfolding c3_def by (rule worker_recv [OF eq inv2 frame(1,2) n0]) (simp add: recv_def)
  define k where "k = GetContiguiousBytes (Commit n b)"
  have "cb_contents (Commit n b) \<noteq> []" using b(4) data(1) by simp
  then have k0: "k \<noteq> 0" using cbq.contig_pos [OF b(3)] by (simp add: k_def)
  have wire: "context_bytes (send_context WsaOk c2') c3 = Inr (take (unat k) (cb_contents (Commit n b)))"
    using send_context_bytes [OF inv2, of WsaOk] by (simp add: c3_def k_def) (simp add: c2'_def)
  have len: "mWsaBuf_len (send_context WsaOk c2') = k" by (simp add: k_def c2'_def)
  obtain b4 where b4: "IoWorkerThread_step on_zero calls WsaOk (ok_packet (send_context WsaOk c2') k) c3 =
      Inr (cs_adds (c3\<lparr>cs_mBuffer := b4\<rparr>) (new_context IO_RECV))" "cb_inv b4"
    "cb_contents b4 = drop (unat k) (cb_contents (Commit n b))"
    using worker_send [OF frame(5,3,4), of "send_context WsaOk c2'" on_zero calls WsaOk] len k0 frame(6) by auto
  define c4 where "c4 = cs_adds (c3\<lparr>cs_mBuffer := b4\<rparr>) (new_context IO_RECV)"
  have "cs_inv c4" unfolding c4_def using frame(5) b4(2) by (intro cs_adds_inv) (simp add: cs_inv_def)
  moreover have "cs_IsConnected c4" "cs_contexts c4 = new_context IO_RECV # cs_contexts c3"
    using frame(4) by (simp_all add: c4_def cs_IsConnected_def)
  moreover have "cb_contents (cs_mBuffer client) @ data =
      take (unat k) (cb_contents (Commit n b)) @ cb_contents (cs_mBuffer c4)"
    using append_take_drop_id [of "unat k" "cb_contents (Commit n b)"] b(4) b4(3) by (simp add: c4_def)
  ultimately show thesis
    using that [of c1 recv c2 c3 "send_context WsaOk c2'" "take (unat k) (cb_contents (Commit n b))" c4]
      b(1,2) step1 [unfolded n_def] wire b4(1) len frame(7) data(2) k0 cbq.contig_le [OF b(3)]
    by (simp add: c1_def c2_def recv_def c4_def k_def)
qed

lemma echo_round_ok:
  assumes "cs_inv client" and "cs_IsConnected client" and "length (cs_contexts client) < 2 ^ 31 - 3"
    and "data \<noteq> []" and "length data \<le> unat (fst (GetFreeSpaceSize (cs_mBuffer client)))"
  shows "\<exists>wire c r. echo_round on_zero calls data client = Inr (wire, c) \<and> cs_inv c \<and> cs_IsConnected c \<and>
    wire \<noteq> [] \<and> cb_contents (cs_mBuffer client) @ data = wire @ cb_contents (cs_mBuffer c) \<and>
    cs_contexts c = new_context IO_RECV # r @ cs_contexts client \<and> map mIoType r = [IO_SEND, IO_RECV]"
proof (rule exchange_parts [OF assms, of on_zero calls])
  fix recv send c1 c2 c3 c4 and wire :: "byte list"
  assume parts: "cs_PostRecv WsaOk client = Inr (True, c1)" "cs_contexts c1 = recv # cs_contexts client"
    "mIoType recv = IO_RECV" "deliver data recv c1 = Inr c2" "cs_contexts c2 = cs_contexts c1"
    "IoWorkerThread_step on_zero calls WsaOk (ok_packet recv (of_nat (length data))) c2 = Inr c3"
    "cs_contexts c3 = send # cs_contexts c2" "mIoType send = IO_SEND"
    "mWsaBuf_len send \<noteq> 0" "context_bytes send c3 = Inr wire" "length wire = unat (mWsaBuf_len send)"
    "IoWorkerThread_step on_zero calls WsaOk (ok_packet send (mWsaBuf_len send)) c3 = Inr c4"
    "cs_contexts c4 = new_context IO_RECV # cs_contexts c3" "cs_inv c4" "cs_IsConnected c4"
    "cb_contents (cs_mBuffer client) @ data = wire @ cb_contents (cs_mBuffer c4)"
  have "echo_round on_zero calls data client = Inr (wire, c4)"
    using parts(1,2,4,6,7,10,12) by (simp add: echo_round_def)
  moreover have "wire \<noteq> []" using parts(9,11) by (auto simp: unat_eq_0)
  ultimately show ?thesis
    using parts by (intro exI [of _ wire] exI [of _ c4] exI [of _ "[send, recv]"]) simp
qed

text \<open>A connected client with an empty buffer, for examples.\<close>

definition demo_client :: ClientSession where
  "demo_client = (ClientSession_new (\<lambda>_. 0) 1 0)\<lparr>cs_mConnected := 1\<rparr>"

lemma demo_client: "cs_inv demo_client" "cs_IsConnected demo_client" "cs_contexts demo_client = []"
  "cb_contents (cs_mBuffer demo_client) = []" "unat (fst (GetFreeSpaceSize (cs_mBuffer demo_client))) = 4096"
proof -
  show "cs_inv demo_client" using cs_new_inv [of "\<lambda>_. 0" 1 0] by (simp add: demo_client_def cs_inv_def)
  show "cb_contents (cs_mBuffer demo_client) = []"
    by (simp add: demo_client_def ClientSession_new_def cb_new_contents)
  show "unat (fst (GetFreeSpaceSize (cs_mBuffer demo_client))) = 4096"
    by (simp add: demo_client_def ClientSession_new_def CircularBuffer_new_def BUFSIZE_def GetFreeSpaceSize_def
        GetAFreeSpace_def)
qed (simp_all add: demo_client_def ClientSession_new_def cs_IsConnected_def)

definition demo_calls :: accept_calls where
  "demo_calls = \<lparr>SO_UPDATE_ACCEPT_CONTEXT_ok = True, TCP_NODELAY_ok = True, SO_RCVBUF_ok = True,
     getpeername_addr = Some 7\<rparr>"

text \<open>C17: The server echoes. A receive that is posted, filled by the kernel and handled by the worker, followed
  by the completed send, puts a nonempty piece of the stream on the wire: what was stored and
  what arrived is, in order, what was sent and what remains stored.\<close>

theorem echo_round_keeps_stream:
  assumes "cs_inv client" and "cs_IsConnected client" and "length (cs_contexts client) < 2 ^ 31 - 3"
    and "data \<noteq> []" and "length data \<le> unat (fst (GetFreeSpaceSize (cs_mBuffer client)))"
  shows "\<exists>wire c. echo_round on_zero calls data client = Inr (wire, c) \<and> cs_inv c \<and> cs_IsConnected c \<and>
    wire \<noteq> [] \<and> cb_contents (cs_mBuffer client) @ data = wire @ cb_contents (cs_mBuffer c)"
  using echo_round_ok [OF assms, of on_zero calls] by blast

theorem echo_round_keeps_stream_witness:
  "\<exists>wire c. echo_round Inr demo_calls [104, 105] demo_client = Inr (wire, c) \<and> wire \<noteq> [] \<and>
     [104, 105] = wire @ cb_contents (cs_mBuffer c)"
  using echo_round_keeps_stream [OF demo_client(1,2), of "[104, 105]" Inr demo_calls] demo_client(3,4,5) by auto

text \<open>After one exchange the conversation stops: the receive context that \<open>PreRecv\<close> allocates is never
  handed to the kernel, the three contexts of the exchange stay allocated and keep three
  references.\<close>

lemma echo_round_leaks_and_stalls:
  assumes "cs_inv client" and "cs_IsConnected client" and "length (cs_contexts client) < 2 ^ 31 - 3"
    and "data \<noteq> []" and "length data \<le> unat (fst (GetFreeSpaceSize (cs_mBuffer client)))"
  shows "\<exists>wire c r. echo_round on_zero calls data client = Inr (wire, c) \<and>
    cs_contexts c = new_context IO_RECV # r @ cs_contexts client \<and> map mIoType r = [IO_SEND, IO_RECV] \<and>
    submitted (hd (cs_contexts c)) = False \<and> cs_mRefCount c = cs_mRefCount client + 3"
proof -
  obtain wire c r where r: "echo_round on_zero calls data client = Inr (wire, c)" "cs_inv c"
    "cs_contexts c = new_context IO_RECV # r @ cs_contexts client" "map mIoType r = [IO_SEND, IO_RECV]"
    using echo_round_ok [OF assms, of on_zero calls] by (elim exE conjE)
  have "length r = 2" using r(4) by (metis length_Cons length_map list.size(3) numeral_2_eq_2)
  then have "cs_mRefCount c = cs_mRefCount client + 3" using r(2,3) assms(1) by (simp add: cs_inv_def)
  with r show ?thesis by auto
qed

text \<open>A worker thread does not survive an idle period: when \<open>GetQueuedCompletionStatus\<close> times out, which
  it does after 20 ms, there is no context, and the worker reads its type through the null
  pointer.\<close>

lemma worker_faults_on_timeout:
  assumes "gqcs_ret packet = 0" and "gqcs_context packet = None"
  shows "IoWorkerThread_step on_zero calls wsa packet client = Inl NullDeref"
  using assms by (simp add: IoWorkerThread_step_def)

text \<open>C29: A worker thread of the first server serves its port until the first idle period: it handles the packets
  before it, and the first timeout ends it with a read through a null pointer. It never ends
  in another way than by a fault of some job, and while it runs it is marked as a worker.\<close>

theorem worker_lives_until_first_timeout:
  assumes "rounds (cs_run_job on_zero jobs) 0 n cs = Inr cs'" and "jobs n = (i, calls, wsa, packet)"
    and "gqcs_ret packet = 0" and "gqcs_context packet = None"
  shows "snd (cs_IoWorkerThread on_zero jobs lpParam locals cs) = Some NullDeref \<and>
    tl_LThreadType (fst (cs_IoWorkerThread on_zero jobs lpParam locals cs)) = THREAD_IO_WORKER \<and>
    (snd (cs_IoWorkerThread on_zero other lpParam locals cs) = Some fault \<longleftrightarrow>
       (\<exists>m. rounds (cs_run_job on_zero other) 0 m cs = Inl fault))"
proof -
  have "rounds (cs_run_job on_zero jobs) 0 (Suc n) cs = Inl NullDeref"
    unfolding rounds_snoc using assms worker_faults_on_timeout [OF assms(3,4)] by (simp add: cs_run_job_def)
  then show ?thesis by (simp add: cs_IoWorkerThread_def Let_def forever_faults forever_iff del: rounds.simps)
qed

definition idle_packet :: completion where
  "idle_packet = \<lparr>gqcs_ret = 0, dwTransferred = 0, gqcs_context = None, gqcs_error = WAIT_TIMEOUT\<rparr>"

theorem worker_lives_until_first_timeout_witness:
  "snd (cs_IoWorkerThread Inr (\<lambda>_. (0, demo_calls, WsaOk, idle_packet)) 1
     \<lparr>tl_LThreadType = THREAD_NONE, tl_LIoThreadId = - 1, tl_LTickCount = 0\<rparr> (\<lambda>_. demo_client)) = Some NullDeref"
  using worker_lives_until_first_timeout
    [of Inr "\<lambda>_. (0, demo_calls, WsaOk, idle_packet)" 0 "\<lambda>_. demo_client" "\<lambda>_. demo_client" 0 demo_calls WsaOk idle_packet]
  by (simp add: idle_packet_def)

text \<open>The main program never ends normally. It returns -1 when some start-up step fails and otherwise stays
  in \<open>StartAccept\<close>, whatever the manager looks like, so \<open>Finalize\<close> is never reached.\<close>

lemma tmain_never_returns_normally:
  "tmain calls fresh spawned listen_ok seen =
     (if \<not> info_writable calls then Inl OutOfBounds
      else if WSAStartup_ret calls = 0 \<and> created_socket calls \<noteq> INVALID_SOCKET \<and>
        associated_port calls = created_port calls \<and> bind_ok calls \<and>
        list_all spawned [0..sint (dwNumberOfProcessors calls) - 1] \<and> listen_ok
      then Inr None else Inr (Some (- 1, [])))"
proof -
  have acc: "StartAccept ok seen = (if ok then None else Some False)" for ok
    by (simp add: StartAccept_def accept_loop_never)
  have thr: "fst (StartIoThreads spawned im) \<longleftrightarrow> list_all spawned [0..sint (mIoThreadCount im) - 1]" for im
  proof -
    have "length (takeWhile spawned [0..k - 1]) = nat k \<longleftrightarrow> list_all spawned [0..k - 1]" for k :: int
      using takeWhile_eq_all_conv [of spawned "[0..k - 1]"]
      by (metis add.commute diff_add_cancel diff_zero length_takeWhile_le length_upto list_all_iff
          nat_less_le takeWhile_eq_take take_all_iff order.refl)
    then show ?thesis by (simp add: StartIoThreads_def StartIoThreads_from_spec Let_def)
  qed
  show ?thesis
    by (auto simp: tmain_def Initialize_def Let_def PrepareSessions_def acc thr)
qed

text \<open>C36: A session is never given back. In every state it can reach the reference counter is the number of
  contexts ever allocated for it, and the completion of a context that is with the kernel is handled
  without calling what \<open>ReleaseRef\<close> calls on the last reference.\<close>

theorem session_is_never_released:
  assumes "cs_reachable on_zero s" and "gqcs_context packet = Some c" and "c \<in> set (cs_contexts s)" and "submitted c"
  shows "cs_mRefCount s = of_nat (length (cs_contexts s)) \<and>
    IoWorkerThread_step on_zero calls wsa packet s = IoWorkerThread_step other calls wsa packet s"
proof -
  have inv: "leak_inv s" by (rule reachable_leak [OF assms(1)])
  then have "mIoType c = IO_RECV \<or> mIoType c = IO_SEND" using assms(3,4) by (auto simp: leak_inv_def)
  then have "dispatch on_zero calls wsa c n s = dispatch other calls wsa c n s" for n
    by (auto simp: dispatch_def)
  then show ?thesis using inv assms(2) by (simp add: leak_inv_def IoWorkerThread_step_def)
qed

theorem session_is_never_released_witness:
  "\<exists>s1 s c. cs_AcceptCompletion THREAD_IO_WORKER demo_calls (ClientSession_new (\<lambda>_. 0) 1 0) = Inr s1 \<and>
     cs_PostRecv WsaOk s1 = Inr (True, s) \<and> hd (cs_contexts s) = c \<and> cs_mRefCount s = 2 \<and>
     IoWorkerThread_step (\<lambda>_. Inl CrashAssert) demo_calls WsaOk (ok_packet c 5) s =
     IoWorkerThread_step Inr demo_calls WsaOk (ok_packet c 5) s"
proof -
  define s0 where "s0 = (ClientSession_new (\<lambda>_. 0) 1 0)\<lparr>cs_mConnected := 1, cs_mClientAddr := 7\<rparr>"
  define s1 where "s1 = cs_adds s0 (new_context IO_RECV)"
  define s where "s = cs_adds (s1\<lparr>cs_mBuffer := snd (GetFreeSpaceSize (cs_mBuffer s1))\<rparr>) (recv_context WsaOk s1)"
  have s0: "cs_inv s0" "cs_IsConnected s0" "cs_contexts s0 = []"
    using cs_new_inv [of "\<lambda>_. 0" 1 0] by (simp_all add: s0_def cs_inv_def cs_IsConnected_def ClientSession_new_def)
  have a: "cs_AcceptCompletion THREAD_IO_WORKER demo_calls (ClientSession_new (\<lambda>_. 0) 1 0) = Inr s1"
    using cs_PreRecv_ok [OF s0(1)] s0(2,3)
    by (simp add: cs_AcceptCompletion_def accept_setup_def demo_calls_def s0_def s1_def cs_room_def ClientSession_new_def)
  have p: "cs_PostRecv WsaOk s1 = Inr (True, s)"
    unfolding s_def using cs_PostRecv_ok [OF cs_adds_inv [OF s0(1)], of "new_context IO_RECV" WsaOk] s0(2,3)
    by (simp add: s1_def cs_room_def)
  have r: "cs_reachable (\<lambda>_. Inl CrashAssert) s"
    using cs_reachable.recv [OF cs_reachable.accepted [OF cs_reachable.new a] p] .
  have c: "cs_contexts s = [recv_context WsaOk s1, new_context IO_RECV]" by (simp add: s_def s1_def s0(3))
  note use = session_is_never_released [OF r, of "ok_packet (recv_context WsaOk s1) 5" "recv_context WsaOk s1"
      demo_calls WsaOk Inr]
  have "cs_mRefCount s = 2" "IoWorkerThread_step (\<lambda>_. Inl CrashAssert) demo_calls WsaOk (ok_packet (hd (cs_contexts s)) 5) s =
     IoWorkerThread_step Inr demo_calls WsaOk (ok_packet (hd (cs_contexts s)) 5) s"
    using use by (simp_all add: c ok_packet_def)
  with a p show ?thesis by blast
qed

end
