(* ===== verification/EchoServer.thy ===== *)
theory EchoServer
  imports IocpManager
begin

text \<open>
  The first server with all its clients: worker threads take completions of any client in any order
  and run \<open>IoWorkerThread_step\<close> on the owner. The kernel's side is the context each client has with it
  (at most one receive or send: a receive is posted only when none is outstanding), the bytes it
  has delivered to the client's buffer and the bytes it has put on the wire. The specification
  is a channel per client: what was put on the wire is a prefix of what was received, and the rest
  is in the buffer.
\<close>

section \<open>The system\<close>

record server =
  clients :: "nat \<Rightarrow> ClientSession"
  flight :: "nat \<Rightarrow> io_context option"
  received :: "nat \<Rightarrow> byte list"
  echoed :: "nat \<Rightarrow> byte list"

text \<open>The context that an operation from \<open>s\<close> to \<open>s'\<close> allocated and handed to the kernel.\<close>

definition handed_over :: "ClientSession \<Rightarrow> ClientSession \<Rightarrow> io_context option" where
  "handed_over s s' = find submitted (take (length (cs_contexts s') - length (cs_contexts s)) (cs_contexts s'))"

definition set_client :: "nat \<Rightarrow> ClientSession \<Rightarrow> io_context option \<Rightarrow> byte list \<Rightarrow> byte list \<Rightarrow> server \<Rightarrow> server" where
  "set_client i s f r e v =
     v\<lparr>clients := (clients v)(i := s), flight := (flight v)(i := f),
       received := (received v)(i := received v i @ r), echoed := (echoed v)(i := echoed v i @ e)\<rparr>"

definition server_init :: "(nat \<Rightarrow> nat \<Rightarrow> byte) \<Rightarrow> (nat \<Rightarrow> nat) \<Rightarrow> (nat \<Rightarrow> nat) \<Rightarrow> server" where
  "server_init junk sock addr =
     \<lparr>clients = (\<lambda>i. ClientSession_new (junk i) (sock i) (addr i)), flight = (\<lambda>_. None),
      received = (\<lambda>_. []), echoed = (\<lambda>_. [])\<rparr>"

text \<open>\<open>post_recv\<close> is the public method \<open>PostRecv\<close>, which may be called at any time nothing is outstanding; in the sources only
  \<open>OnConnect\<close> calls it. A completed receive transfers between one byte and the length of its buffer, a completed send between one
  byte and the length it was posted with; any other completion is reported with a zero result
  or a zero length and transfers nothing.\<close>

inductive server_step :: "(ClientSession \<Rightarrow> ClientSession result) \<Rightarrow> server \<Rightarrow> server \<Rightarrow> bool" for on_zero where
  post_accept: "cs_PostAccept THREAD_MAIN (clients v i) = Inr (ok, s) \<Longrightarrow>
     server_step on_zero v (set_client i s (flight v i) [] [] v)"
| accept: "cs_AcceptCompletion THREAD_IO_WORKER calls (clients v i) = Inr s \<Longrightarrow>
     server_step on_zero v (set_client i s (flight v i) [] [] v)"
| post_recv: "flight v i = None \<Longrightarrow> cs_PostRecv wsa (clients v i) = Inr (ok, s) \<Longrightarrow>
     server_step on_zero v (set_client i s (handed_over (clients v i) s) [] [] v)"
| recv_done: "flight v i = Some c \<Longrightarrow> mIoType c = IO_RECV \<Longrightarrow> data \<noteq> [] \<Longrightarrow> length data \<le> unat (mWsaBuf_len c) \<Longrightarrow>
     deliver data c (clients v i) = Inr s1 \<Longrightarrow>
     IoWorkerThread_step on_zero calls wsa (ok_packet c (of_nat (length data))) s1 = Inr s \<Longrightarrow>
     server_step on_zero v (set_client i s (handed_over s1 s) data [] v)"
| send_done: "flight v i = Some c \<Longrightarrow> mIoType c = IO_SEND \<Longrightarrow> 0 < n \<Longrightarrow> n \<le> mWsaBuf_len c \<Longrightarrow>
     context_bytes c (clients v i) = Inr bs \<Longrightarrow>
     IoWorkerThread_step on_zero calls wsa (ok_packet c n) (clients v i) = Inr s \<Longrightarrow>
     server_step on_zero v (set_client i s (handed_over (clients v i) s) [] (take (unat n) bs) v)"
| failed: "flight v i = Some c \<Longrightarrow> gqcs_context packet = Some c \<Longrightarrow> gqcs_ret packet = 0 \<or> dwTransferred packet = 0 \<Longrightarrow>
     IoWorkerThread_step on_zero calls wsa packet (clients v i) = Inr s \<Longrightarrow>
     server_step on_zero v (set_client i s (handed_over (clients v i) s) [] [] v)"

inductive server_reachable :: "(ClientSession \<Rightarrow> ClientSession result) \<Rightarrow> server \<Rightarrow> bool" for on_zero where
  init: "server_reachable on_zero (server_init junk sock addr)"
| step: "server_reachable on_zero v \<Longrightarrow> server_step on_zero v v' \<Longrightarrow> server_reachable on_zero v'"

section \<open>The invariant of one client\<close>

text \<open>A receive with the kernel describes exactly the free space of the buffer, a send its contiguous front.\<close>

definition flight_ok :: "io_context option \<Rightarrow> CircularBuffer \<Rightarrow> bool" where
  "flight_ok f b \<longleftrightarrow> (case f of None \<Rightarrow> True
     | Some c \<Rightarrow>
         mIoType c = IO_RECV \<and> GetFreeSpaceSize b = (mWsaBuf_len c, b) \<and> mWsaBuf_buf c = Some (GetBuffer b) \<or>
         mIoType c = IO_SEND \<and> mWsaBuf_len c = GetContiguiousBytes b \<and> mWsaBuf_buf c = GetBufferStart b)"

definition client_inv :: "ClientSession \<Rightarrow> io_context option \<Rightarrow> byte list \<Rightarrow> byte list \<Rightarrow> bool" where
  "client_inv s f r e \<longleftrightarrow> cs_inv s \<and> flight_ok f (cs_mBuffer s) \<and>
     r = e @ cb_contents (cs_mBuffer s)"

definition server_inv :: "server \<Rightarrow> bool" where
  "server_inv v \<longleftrightarrow> (\<forall>i. client_inv (clients v i) (flight v i) (received v i) (echoed v i))"

lemma flight_ok_None [simp]: "flight_ok None b"
  by (simp add: flight_ok_def)

lemma server_inv_set_client:
  assumes "server_inv v" and "client_inv s f (received v i @ r) (echoed v i @ e)"
  shows "server_inv (set_client i s f r e v)"
  using assms by (simp add: server_inv_def set_client_def)

section \<open>What an operation leaves alone\<close>

text \<open>The context list grows by at most one context, the counter with it, and buffer and mutex are as before.\<close>

definition cs_balance :: "ClientSession \<Rightarrow> LONG" where
  "cs_balance s = cs_mRefCount s - of_nat (length (cs_contexts s))"

lemma client_inv_balance:
  "client_inv s f r e \<longleftrightarrow> cb_inv (cs_mBuffer s) \<and> \<not> cs_mMutex s \<and> cs_balance s = 0 \<and>
     flight_ok f (cs_mBuffer s) \<and> r = e @ cb_contents (cs_mBuffer s)"
  by (auto simp: client_inv_def cs_inv_def cs_balance_def)

definition quiet :: "ClientSession \<Rightarrow> ClientSession \<Rightarrow> bool" where
  "quiet s s' \<longleftrightarrow> cs_mBuffer s' = cs_mBuffer s \<and> cs_mMutex s' = cs_mMutex s \<and>
     cs_balance s' = cs_balance s \<and>
     (cs_contexts s' = cs_contexts s \<or> (cs_contexts s' \<noteq> [] \<and> tl (cs_contexts s') = cs_contexts s \<and> \<not> submitted (hd (cs_contexts s'))))"

lemma quiet_cases:
  assumes "quiet s s'"
  obtains "cs_contexts s' = cs_contexts s" | c where "cs_contexts s' = c # cs_contexts s" "\<not> submitted c"
  using assms unfolding quiet_def by (metis list.collapse)

lemma quiet_handed_over: "quiet s s' \<Longrightarrow> handed_over s s' = None"
  by (erule quiet_cases) (simp_all add: handed_over_def)

lemma quiet_twice_handed_over: "quiet s s1 \<Longrightarrow> quiet s1 s2 \<Longrightarrow> handed_over s s2 = None"
  by (erule quiet_cases; erule quiet_cases) (simp_all add: handed_over_def)

lemma quiet_refl [simp]: "quiet s s"
  by (simp add: quiet_def)

lemma quiet_client_inv: "quiet s s' \<Longrightarrow> client_inv s' f r e \<longleftrightarrow> client_inv s f r e"
  by (simp add: quiet_def client_inv_balance)

lemma new_context_shape: "cs_new_context t s = Inr (c, s') \<Longrightarrow> c = new_context t \<and> s' = s\<lparr>cs_mRefCount := cs_mRefCount s + 1\<rparr>"
  by (auto simp: cs_new_context_def cs_AddRef_def Let_def bindR_Inr_iff)

lemma quiet_PreRecv: "cs_PreRecv s = Inr (ok, s') \<Longrightarrow> quiet s s'"
  by (auto simp: cs_PreRecv_def bindR_Inr_iff quiet_def cs_balance_def cs_keep_def split: if_splits
      dest!: new_context_shape)

lemma quiet_DisconnectRequest: "cs_DisconnectRequest dr s = Inr s' \<Longrightarrow> quiet s s'"
  by (auto simp: cs_DisconnectRequest_def Let_def bindR_Inr_iff quiet_def cs_balance_def cs_keep_def split: if_splits
      dest!: new_context_shape)

lemma quiet_PostAccept: "cs_PostAccept th s = Inr (ok, s') \<Longrightarrow> quiet s s'"
  by (auto simp: cs_PostAccept_def bindR_Inr_iff quiet_def cs_balance_def cs_keep_def dest!: new_context_shape)

lemma quiet_update: "quiet (s\<lparr>cs_mConnected := x\<rparr>) s' = quiet s s'" "quiet (s\<lparr>cs_mClientAddr := y\<rparr>) s' = quiet s s'"
  by (simp_all add: quiet_def cs_balance_def)

lemma quiet_AcceptCompletion: "cs_AcceptCompletion th calls s = Inr s' \<Longrightarrow> quiet s s'"
  by (auto simp: cs_AcceptCompletion_def Let_def bindR_Inr_iff CRASH_ASSERT_Inr accept_setup_def quiet_update
      split: if_splits option.splits prod.splits dest!: quiet_PreRecv quiet_DisconnectRequest)

lemmas quiet_ops = quiet_PreRecv quiet_DisconnectRequest quiet_PostAccept quiet_AcceptCompletion


lemma guarded_shape:
  assumes "cs_guarded body s = Inr (r, s')" and "\<not> cs_mMutex s"
  shows "\<exists>s1. body (s\<lparr>cs_mMutex := True\<rparr>) = Inr (r, s1) \<and> s' = s1\<lparr>cs_mMutex := False\<rparr>"
  using assms by (auto simp: cs_guarded_free bindR_Inr_iff)

lemma PostSend_shape:
  assumes "cs_PostSend wsa s = Inr (ok, s')" and "\<not> cs_mMutex s"
  shows "cs_mBuffer s' = cs_mBuffer s \<and> \<not> cs_mMutex s' \<and> cs_balance s' = cs_balance s \<and>
    (if ok then cs_contexts s' = send_context wsa s # cs_contexts s \<and> submitted (send_context wsa s)
     else quiet s s')"
  using assms
  by (auto simp: cs_PostSend_def cs_submit_def cs_DeleteIoContext_def cs_keep_def quiet_def cs_balance_def send_context_def
      bindR_Inr_iff split: if_splits dest!: guarded_shape new_context_shape)

lemma PostRecv_shape:
  assumes "cs_PostRecv wsa s = Inr (ok, s')" and "\<not> cs_mMutex s"
  shows "\<not> cs_mMutex s' \<and> cs_balance s' = cs_balance s \<and>
    (if ok then cs_mBuffer s' = snd (GetFreeSpaceSize (cs_mBuffer s)) \<and>
       cs_contexts s' = recv_context wsa s # cs_contexts s \<and> submitted (recv_context wsa s)
     else (cs_mBuffer s' = cs_mBuffer s \<or> cs_mBuffer s' = snd (GetFreeSpaceSize (cs_mBuffer s))) \<and>
       handed_over s s' = None)"
  using assms
  by (auto simp: cs_PostRecv_def cs_submit_def cs_DeleteIoContext_def cs_keep_def handed_over_def cs_balance_def recv_context_def
      bindR_Inr_iff case_prod_beta Let_def split: if_splits dest!: guarded_shape new_context_shape)

lemma SendCompletion_shape:
  assumes "cs_SendCompletion n s = Inr s'" and "cb_inv (cs_mBuffer s)" and "\<not> cs_mMutex s"
  shows "cb_inv (cs_mBuffer s') \<and> \<not> cs_mMutex s' \<and> cs_contexts s' = cs_contexts s \<and> cs_balance s' = cs_balance s \<and>
    cb_contents (cs_mBuffer s') = drop (unat n) (cb_contents (cs_mBuffer s))"
  using assms(1,3) cbq.remove_ok [OF assms(2), of n]
  by (auto simp: cs_SendCompletion_def cs_balance_def bindR_Inr_iff dest!: guarded_shape)

section \<open>The worker\<close>

lemma worker_ok_packet:
  assumes "IoWorkerThread_step on_zero calls wsa (ok_packet c n) s = Inr s'" and "n \<noteq> 0"
  shows "\<exists>ok s1. dispatch on_zero calls wsa c n s = Inr (ok, s1) \<and> (if ok then s' = s1 else quiet s1 s')"
proof (cases "dispatch on_zero calls wsa c n s")
  case (Inl e)
  with assms show ?thesis by (simp add: IoWorkerThread_step_def ok_packet_def)
next
  case (Inr p)
  obtain ok s1 where p: "p = (ok, s1)" by (cases p)
  have "(if ok then Inr s1 else cs_DisconnectRequest DR_IO_REQUEST_ERROR s1) = Inr s'"
    using assms Inr p by (cases ok) (auto simp: IoWorkerThread_step_def ok_packet_def cs_DeleteIoContext_def bindR_Inr_iff)
  then show ?thesis using Inr p quiet_DisconnectRequest by (cases ok) auto
qed

lemma worker_failed:
  assumes "IoWorkerThread_step on_zero calls wsa packet s = Inr s'" and "gqcs_context packet = Some c"
    and "mIoType c = IO_RECV \<or> mIoType c = IO_SEND" and "gqcs_ret packet = 0 \<or> dwTransferred packet = 0"
  shows "quiet s s'"
  using assms
  by (auto simp: IoWorkerThread_step_def cs_DeleteIoContext_def bindR_Inr_iff dest!: quiet_DisconnectRequest)

text \<open>A completed receive: the delivered bytes join the stream, and at most one send is posted for its front.\<close>

lemma recv_done_client:
  assumes inv: "client_inv s (Some c) r e" and c: "mIoType c = IO_RECV"
    and data: "data \<noteq> []" "length data \<le> unat (mWsaBuf_len c)"
    and del: "deliver data c s = Inr s1"
    and run: "IoWorkerThread_step on_zero calls wsa (ok_packet c (of_nat (length data))) s1 = Inr s'"
  shows "client_inv s' (handed_over s1 s') (r @ data) e \<and> (\<forall>c'. handed_over s1 s' = Some c' \<longrightarrow> mIoType c' = IO_SEND)"
proof -
  define n where "n = (of_nat (length data) :: DWORD)"
  have n: "unat n = length data" unfolding n_def by (rule unat_of_nat_bounded [OF data(2)])
  then have n0: "n \<noteq> 0" using data(1) by auto
  have f: "GetFreeSpaceSize (cs_mBuffer s) = (mWsaBuf_len c, cs_mBuffer s)" "mWsaBuf_buf c = Some (GetBuffer (cs_mBuffer s))"
    and s: "cb_inv (cs_mBuffer s)" "\<not> cs_mMutex s" "cs_balance s = 0" "r = e @ cb_contents (cs_mBuffer s)"
    using inv c by (auto simp: client_inv_balance flight_ok_def)
  obtain b where b: "buffer_fill data (cs_mBuffer s) = Inr b" "cb_inv (Commit n b)"
    "cb_contents (Commit n b) = cb_contents (cs_mBuffer s) @ data"
    using cbq.append_ok [OF s(1) f(1) n data(2)] by blast
  have s1: "s1 = s\<lparr>cs_mBuffer := b\<rparr>" using del b(1) by (simp add: deliver_fill [OF f(2)])
  define s2 where "s2 = s1\<lparr>cs_mBuffer := Commit n b\<rparr>"
  obtain ok s3 where d: "dispatch on_zero calls wsa c n s1 = Inr (ok, s3)" "if ok then s' = s3 else quiet s3 s'"
    using worker_ok_packet [OF run [folded n_def] n0] by blast
  have "cs_PostSend wsa s2 = Inr (ok, s3)"
    using d(1) c s(2) by (simp add: dispatch_def ReceiveCompletion_def cs_RecvCompletion_ok s1 s2_def)
  moreover have s2: "\<not> cs_mMutex s2" "cs_balance s2 = 0" using s(2,3) by (simp_all add: s2_def s1 cs_balance_def)
  ultimately have p: "cs_mBuffer s3 = cs_mBuffer s2" "\<not> cs_mMutex s3" "cs_balance s3 = cs_balance s2"
    "if ok then cs_contexts s3 = send_context wsa s2 # cs_contexts s2 \<and> submitted (send_context wsa s2) else quiet s2 s3"
    using PostSend_shape by blast+
  show ?thesis
  proof (cases ok)
    case True
    then have "handed_over s1 s' = Some (send_context wsa s2)"
      using d(2) p(4) by (simp add: handed_over_def s2_def)
    then show ?thesis
      using True d(2) p b s(3,4) s2(2) by (simp add: client_inv_balance flight_ok_def s2_def send_context_def new_context_def)
  next
    case False
    have "cs_mBuffer s' = cs_mBuffer s2" "\<not> cs_mMutex s'" "cs_balance s' = cs_balance s2" using False d(2) p by (simp_all add: quiet_def)
    moreover have "handed_over s2 s' = None" using False d(2) p(4) by (simp add: quiet_twice_handed_over)
    then have "handed_over s1 s' = None" by (simp add: handed_over_def s2_def)
    ultimately show ?thesis using b s(3,4) s2(2) by (simp add: client_inv_balance s2_def)
  qed
qed

text \<open>A completed send: the transferred bytes leave the front of the buffer.\<close>

lemma send_done_client:
  assumes inv: "client_inv s (Some c) r e" and c: "mIoType c = IO_SEND"
    and n: "0 < n" "n \<le> mWsaBuf_len c" and bs: "context_bytes c s = Inr bs"
    and run: "IoWorkerThread_step on_zero calls wsa (ok_packet c n) s = Inr s'"
  shows "client_inv s' (handed_over s s') r (e @ take (unat n) bs) \<and> handed_over s s' = None"
proof -
  have f: "mWsaBuf_len c = GetContiguiousBytes (cs_mBuffer s)" "mWsaBuf_buf c = GetBufferStart (cs_mBuffer s)"
    and s: "cb_inv (cs_mBuffer s)" "\<not> cs_mMutex s" "cs_balance s = 0" "r = e @ cb_contents (cs_mBuffer s)"
    using inv c by (auto simp: client_inv_balance flight_ok_def)
  have "buffer_peek (mWsaBuf_len c) (cs_mBuffer s) = Inr bs"
    using bs unfolding context_bytes_def buffer_peek_def f(2) .
  then have "bs = take (unat (mWsaBuf_len c)) (cb_contents (cs_mBuffer s))"
    using cbq.peek_ok [OF s(1), of "mWsaBuf_len c"] by (simp add: f)
  then have wire: "take (unat n) bs = take (unat n) (cb_contents (cs_mBuffer s))"
    using n(2) by (simp add: word_le_nat_alt min_absorb1)
  have n0: "n \<noteq> 0" using n(1) by auto
  obtain ok s3 where d: "dispatch on_zero calls wsa c n s = Inr (ok, s3)" "if ok then s' = s3 else quiet s3 s'"
    using worker_ok_packet [OF run n0] by blast
  obtain s2 where s2: "cs_SendCompletion n s = Inr s2" "quiet s2 s3"
    using d(1) c by (auto simp: dispatch_def SendCompletion_def bindR_Inr_iff split: if_splits dest!: quiet_PreRecv)
  note sc = SendCompletion_shape [OF s2(1) s(1,2)]
  have "cs_mBuffer s' = cs_mBuffer s2" "cs_mMutex s' = cs_mMutex s2" "cs_balance s' = cs_balance s2"
    using d(2) s2(2) by (auto simp: quiet_def split: if_splits)
  moreover have "handed_over s2 s' = None"
    using d(2) s2(2) by (cases ok) (simp_all add: quiet_twice_handed_over quiet_handed_over)
  then have "handed_over s s' = None" using sc by (simp add: handed_over_def)
  ultimately show ?thesis
    using sc s(3,4) append_take_drop_id [of "unat n" "cb_contents (cs_mBuffer s)"] by (simp add: client_inv_balance wire)
qed


section \<open>The server\<close>

lemma post_recv_client:
  assumes "client_inv s None r e" and "cs_PostRecv wsa s = Inr (ok, s')"
  shows "client_inv s' (handed_over s s') r e \<and>
    (handed_over s s' = None \<or> ok \<and> (\<exists>c. handed_over s s' = Some c \<and> mIoType c = IO_RECV))"
proof -
  have s: "cb_inv (cs_mBuffer s)" "\<not> cs_mMutex s" "cs_balance s = 0" "r = e @ cb_contents (cs_mBuffer s)"
    using assms(1) by (simp_all add: client_inv_balance)
  define b where "b = snd (GetFreeSpaceSize (cs_mBuffer s))"
  have b: "cb_inv b" "cb_contents b = cb_contents (cs_mBuffer s)" "GetFreeSpaceSize b = GetFreeSpaceSize (cs_mBuffer s)"
    using cbq.room_inv [OF s(1)] cbq.room_contents [OF s(1)] by (simp_all add: b_def GetFreeSpaceSize_idem)
  note shape = PostRecv_shape [OF assms(2) s(2)]
  show ?thesis
  proof (cases ok)
    case True
    then have "handed_over s s' = Some (recv_context wsa s)" using shape by (simp add: handed_over_def)
    then show ?thesis
      using True shape b s(3,4)
      by (simp add: client_inv_balance flight_ok_def b_def [symmetric] prod_eq_iff recv_context_def new_context_def)
  next
    case False
    then show ?thesis using shape b s by (auto simp: client_inv_balance b_def)
  qed
qed

lemma server_step_inv:
  assumes "server_step on_zero v v'" and "server_inv v"
  shows "server_inv v'"
  using assms
proof (induction rule: server_step.induct)
  case (post_accept v i ok s)
  then show ?case
    by (intro server_inv_set_client)
      (auto simp: server_inv_def quiet_client_inv [OF quiet_PostAccept [OF post_accept(1)]])
next
  case (accept calls v i s)
  then show ?case
    by (intro server_inv_set_client)
      (auto simp: server_inv_def quiet_client_inv [OF quiet_AcceptCompletion [OF accept(1)]])
next
  case (post_recv v i wsa ok s)
  then have "client_inv (clients v i) None (received v i) (echoed v i)"
    unfolding server_inv_def by metis
  from conjunct1 [OF post_recv_client [OF this post_recv(2)]] post_recv(3) show ?case
    by (intro server_inv_set_client) simp_all
next
  case (recv_done v i c data s1 calls wsa s)
  then have "client_inv (clients v i) (Some c) (received v i) (echoed v i)"
    unfolding server_inv_def by metis
  from conjunct1 [OF recv_done_client [OF this recv_done(2-6)]] recv_done(7) show ?case
    by (intro server_inv_set_client) simp_all
next
  case (send_done v i c n bs calls wsa s)
  then have "client_inv (clients v i) (Some c) (received v i) (echoed v i)"
    unfolding server_inv_def by metis
  from conjunct1 [OF send_done_client [OF this send_done(2-6)]] send_done(7) show ?case
    by (intro server_inv_set_client) simp_all
next
  case (failed v i c packet calls wsa s)
  then have inv: "client_inv (clients v i) (Some c) (received v i) (echoed v i)"
    unfolding server_inv_def by metis
  then have "mIoType c = IO_RECV \<or> mIoType c = IO_SEND" by (auto simp: client_inv_balance flight_ok_def)
  from worker_failed [OF failed(4,2) this failed(3)] have "quiet (clients v i) s" .
  with inv failed(5) show ?case
    by (intro server_inv_set_client) (simp_all add: quiet_handed_over quiet_def client_inv_balance)
qed

lemma server_reachable_inv: "server_reachable on_zero v \<Longrightarrow> server_inv v"
proof (induction rule: server_reachable.induct)
  case (init junk sock addr)
  then show ?case
    by (simp add: server_inv_def server_init_def client_inv_balance cs_balance_def ClientSession_new_def cb_new_inv cb_new_contents)
next
  case (step v v')
  then show ?case by (blast intro: server_step_inv)
qed

text \<open>A whole exchange with one client, as three steps of the server.\<close>

lemma exchange_steps:
  assumes inv: "server_inv v" and idle: "flight v i = None" and conn: "cs_IsConnected (clients v i)"
    and room: "length (cs_contexts (clients v i)) < 2 ^ 31 - 3"
    and data: "data \<noteq> []" "length data \<le> unat (fst (GetFreeSpaceSize (cs_mBuffer (clients v i))))"
  shows "\<exists>s wire v' c. (server_step on_zero)\<^sup>*\<^sup>* v v' \<and>
    flight v' i = Some c \<and> mIoType c = IO_SEND \<and> received v' i = received v i @ data \<and> echoed v' i = echoed v i \<and>
    server_step on_zero v' (set_client i s None data wire v) \<and> wire \<noteq> [] \<and> cs_IsConnected s"
proof -
  have "cs_inv (clients v i)" using inv by (simp add: server_inv_def client_inv_def)
  from exchange_parts [OF this conn room data, of on_zero demo_calls]
  obtain recv send c1 c2 c3 c4 wire where
    1: "cs_PostRecv WsaOk (clients v i) = Inr (True, c1)" "cs_contexts c1 = recv # cs_contexts (clients v i)"
      "submitted recv" "mIoType recv = IO_RECV" "length data \<le> unat (mWsaBuf_len recv)"
    and 2: "deliver data recv c1 = Inr c2" "cs_contexts c2 = cs_contexts c1"
      "IoWorkerThread_step on_zero demo_calls WsaOk (ok_packet recv (of_nat (length data))) c2 = Inr c3"
      "cs_contexts c3 = send # cs_contexts c2" "submitted send" "mIoType send = IO_SEND"
    and 3: "mWsaBuf_len send \<noteq> 0" "context_bytes send c3 = Inr wire" "length wire = unat (mWsaBuf_len send)"
      "IoWorkerThread_step on_zero demo_calls WsaOk (ok_packet send (mWsaBuf_len send)) c3 = Inr c4"
      "cs_contexts c4 = new_context IO_RECV # cs_contexts c3" "cs_IsConnected c4" by metis
  have h: "handed_over (clients v i) c1 = Some recv" "handed_over c2 c3 = Some send" "handed_over c3 c4 = None"
    using 1(2,3) 2(4,5) 3(5) by (simp_all add: handed_over_def)
  define v1 where "v1 = set_client i c1 (Some recv) [] [] v"
  define v2 where "v2 = set_client i c3 (Some send) data [] v1"
  have "server_step on_zero v v1"
    using server_step.post_recv [OF idle 1(1), of on_zero] by (simp add: v1_def h)
  moreover have "server_step on_zero v1 v2"
    using server_step.recv_done [of v1 i recv data c2 on_zero demo_calls WsaOk c3] 1(4,5) data(1) 2(1,3)
    by (simp add: v2_def h) (simp add: v1_def set_client_def)
  moreover have "server_step on_zero v2 (set_client i c4 None [] wire v2)"
    using server_step.send_done [of v2 i send "mWsaBuf_len send" wire on_zero demo_calls WsaOk c4] 2(6) 3(1-4)
    by (simp add: v2_def set_client_def h word_gt_0)
  moreover have "set_client i c4 None [] wire v2 = set_client i c4 None data wire v"
    by (simp add: v2_def v1_def set_client_def fun_upd_def fun_eq_iff)
  ultimately have "(server_step on_zero)\<^sup>*\<^sup>* v v2" "server_step on_zero v2 (set_client i c4 None data wire v)" by simp_all
  moreover have "flight v2 i = Some send" "received v2 i = received v i @ data" "echoed v2 i = echoed v i"
    by (simp_all add: v2_def v1_def set_client_def)
  moreover have "wire \<noteq> []" using 3(1,3) by (auto simp: unat_eq_0)
  ultimately show ?thesis using 2(6) 3(6) by blast
qed

lemma server_steps_reachable:
  "(server_step on_zero)\<^sup>*\<^sup>* v v' \<Longrightarrow> server_reachable on_zero v \<Longrightarrow> server_reachable on_zero v'"
  by (induction rule: rtranclp_induct) (auto intro: server_reachable.step)

section \<open>Properties of the server\<close>

text \<open>C2: However the completions of the clients are interleaved, and whether they transfer everything, a part,
  or fail: what the server has put on the wire for a client is a prefix of what it received from
  that client, and the bytes in between are, in order, those in the client's buffer. The
  reference counter of the client is the number of contexts allocated for it.\<close>

theorem server_echoes_in_order:
  assumes "server_reachable on_zero v"
  shows "received v i = echoed v i @ cb_contents (cs_mBuffer (clients v i)) \<and>
    cs_mRefCount (clients v i) = of_nat (length (cs_contexts (clients v i)))"
  using server_reachable_inv [OF assms] by (simp add: server_inv_def client_inv_def cs_inv_def)

definition greeted_server :: server where
  "greeted_server =
     set_client 3 (cs_adds (demo_client\<lparr>cs_mClientAddr := 7\<rparr>) (new_context IO_RECV)) None [] []
       (server_init (\<lambda>_ _. 0) (\<lambda>_. 1) (\<lambda>_. 0))"

lemma greeted_server:
  "server_reachable on_zero greeted_server" "clients greeted_server 3 =
     cs_adds (demo_client\<lparr>cs_mClientAddr := 7\<rparr>) (new_context IO_RECV)"
  "received greeted_server 3 = []" "echoed greeted_server 3 = []" "flight greeted_server 3 = None"
proof -
  have "cs_inv (demo_client\<lparr>cs_mClientAddr := 7\<rparr>)" "cs_IsConnected (demo_client\<lparr>cs_mClientAddr := 7\<rparr>)"
    "cs_room (demo_client\<lparr>cs_mClientAddr := 7\<rparr>)"
    using demo_client(1,2,3) by (simp_all add: cs_inv_def cs_IsConnected_def cs_room_def)
  then have "cs_AcceptCompletion THREAD_IO_WORKER demo_calls (ClientSession_new (\<lambda>_. 0) 1 0) =
      Inr (cs_adds (demo_client\<lparr>cs_mClientAddr := 7\<rparr>) (new_context IO_RECV))"
    using cs_PreRecv_ok [of "demo_client\<lparr>cs_mClientAddr := 7\<rparr>"]
    by (simp add: cs_AcceptCompletion_def accept_setup_def demo_calls_def demo_client_def ClientSession_new_def)
  then have "server_step on_zero (server_init (\<lambda>_ _. 0) (\<lambda>_. 1) (\<lambda>_. 0)) greeted_server"
    using server_step.accept [of demo_calls "server_init (\<lambda>_ _. 0) (\<lambda>_. 1) (\<lambda>_. 0)" 3]
    by (simp add: greeted_server_def server_init_def)
  then show "server_reachable on_zero greeted_server"
    by (rule server_reachable.step [OF server_reachable.init])
qed (simp_all add: greeted_server_def set_client_def server_init_def)

lemma greeted_exchange:
  obtains s wire v c where "server_reachable Inr v" "flight v 3 = Some c" "mIoType c = IO_SEND"
    "received v 3 = [104, 105]" "echoed v 3 = []"
    "server_step Inr v (set_client 3 s None [104, 105] wire greeted_server)" "wire \<noteq> []"
proof -
  have "fst (GetFreeSpaceSize (cs_mBuffer (clients greeted_server 3))) = fst (GetFreeSpaceSize (cs_mBuffer demo_client))"
    by (simp add: greeted_server(2))
  then obtain s wire v c where "(server_step Inr)\<^sup>*\<^sup>* greeted_server v" and v: "flight v 3 = Some c" "mIoType c = IO_SEND"
    "received v 3 = [104, 105]" "echoed v 3 = []" "server_step Inr v (set_client 3 s None [104, 105] wire greeted_server)" "wire \<noteq> []"
    using exchange_steps [OF server_reachable_inv [OF greeted_server(1)] greeted_server(5), of "[104, 105]" Inr]
      demo_client(2,3,5) by (auto simp: greeted_server(2-4) cs_IsConnected_def)
  from server_steps_reachable [OF this(1) greeted_server(1)] v show thesis by (rule that)
qed

theorem server_echoes_in_order_witness:
  "\<exists>v. server_reachable Inr v \<and> received v 3 = [104, 105] \<and> echoed v 3 \<noteq> [] \<and>
     [104, 105] = echoed v 3 @ cb_contents (cs_mBuffer (clients v 3))"
proof -
  obtain s wire v' where run: "server_reachable Inr v'" "wire \<noteq> []"
    "server_step Inr v' (set_client 3 s None [104, 105] wire greeted_server)" by (rule greeted_exchange)
  define v where "v = set_client 3 s None [104, 105] wire greeted_server"
  have "server_reachable Inr v" using server_reachable.step [OF run(1,3)] by (simp add: v_def)
  moreover have "received v 3 = [104, 105]" "echoed v 3 \<noteq> []"
    using run(2) by (simp_all add: v_def set_client_def greeted_server)
  ultimately show ?thesis using server_echoes_in_order [of Inr v 3] by auto
qed



end
