(* ===== verification/MssqlSession.thy ===== *)
theory MssqlSession
  imports Session_Base
begin

text \<open>
  \<open>win-iocp-mssql-usage/Session.hpp\<close> and \<open>OverlappedIOContext.hpp\<close>: a session with separate send and
  receive buffers, a spin lock around the send buffer, and contexts that are deleted. The record
  holds the members of \<open>Session\<close>, the contexts that are allocated, and the calls of the two
  virtual hooks (\<open>OnRelease\<close> is counted, \<open>OnDisconnect\<close> is logged). Contexts are values here; the
  pool their operators \<open>new\<close> and \<open>delete\<close> use is \<open>ObjectPool\<close>.
\<close>

record Session =
  ss_mSocket :: nat
  ss_mRecvBuffer :: CircularBuffer
  ss_mSendBuffer :: CircularBuffer
  ss_mSendBufferLock :: LONG
  ss_mSendPendingCount :: "32 word"
  ss_mRefCount :: LONG
  ss_mConnected :: LONG
  ss_contexts :: "io_context list"
  ss_on_release :: nat
  ss_on_disconnect :: "DisconnectReason list"

section \<open>Operations\<close>

definition Session_new :: "(nat \<Rightarrow> byte) \<Rightarrow> nat \<Rightarrow> size_t \<Rightarrow> size_t \<Rightarrow> Session" where
  "Session_new junk sock sendBufSize recvBufSize =
     \<lparr>ss_mSocket = sock, ss_mRecvBuffer = CircularBuffer_new junk recvBufSize,
      ss_mSendBuffer = CircularBuffer_new junk sendBufSize, ss_mSendBufferLock = 0,
      ss_mSendPendingCount = 0, ss_mRefCount = 0, ss_mConnected = 0, ss_contexts = [],
      ss_on_release = 0, ss_on_disconnect = []\<rparr>"

definition ss_IsConnected :: "Session \<Rightarrow> bool" where
  "ss_IsConnected s \<longleftrightarrow> ss_mConnected s \<noteq> 0"

definition ss_SetSocket :: "nat \<Rightarrow> Session \<Rightarrow> Session" where
  "ss_SetSocket sock s = s\<lparr>ss_mSocket := sock\<rparr>"

definition ss_GetSocket :: "Session \<Rightarrow> nat" where
  "ss_GetSocket s = ss_mSocket s"

definition ss_AddRef :: "Session \<Rightarrow> Session result" where
  "ss_AddRef s =
     (let ref = ss_mRefCount s + 1 in
      bindR (CRASH_ASSERT (sint ref > 0)) (\<lambda>_. Inr (s\<lparr>ss_mRefCount := ref\<rparr>)))"

definition ss_ReleaseRef :: "Session \<Rightarrow> Session result" where
  "ss_ReleaseRef s =
     (let ret = ss_mRefCount s - 1; s' = s\<lparr>ss_mRefCount := ret\<rparr> in
      bindR (CRASH_ASSERT (sint ret \<ge> 0)) (\<lambda>_.
      Inr (if ret = 0 then s'\<lparr>ss_on_release := ss_on_release s' + 1\<rparr> else s')))"

text \<open>The constructor of a context and its deletion. A context is entered in \<open>ss_contexts\<close> when its
  fields are set.\<close>

definition OverlappedIOContext_new :: "IOType \<Rightarrow> Session \<Rightarrow> (io_context \<times> Session) result" where
  "OverlappedIOContext_new ioType s = bindR (ss_AddRef s) (\<lambda>s'. Inr (new_context ioType, s'))"

definition ss_keep :: "io_context \<Rightarrow> Session \<Rightarrow> Session" where
  "ss_keep context s = s\<lparr>ss_contexts := context # ss_contexts s\<rparr>"

definition DeleteIoContext :: "io_context option \<Rightarrow> Session \<Rightarrow> Session result" where
  "DeleteIoContext context s =
     (case context of
        None \<Rightarrow> Inr s
      | Some c \<Rightarrow>
          bindR (ss_ReleaseRef s) (\<lambda>s.
          if mIoType c = IO_NONE then bindR (CRASH_ASSERT False) (\<lambda>_. Inr s)
          else Inr (s\<lparr>ss_contexts := remove1 c (ss_contexts s)\<rparr>)))"

text \<open>\<open>DisconnectRequest\<close>: the comma expression in the condition has the value 0, so the branch is always
  taken and no disconnect is requested; \<open>lastError\<close> is what \<open>WSAGetLastError()\<close> returns there.\<close>

definition ss_DisconnectRequest :: "DWORD \<Rightarrow> DisconnectReason \<Rightarrow> Session \<Rightarrow> Session result" where
  "ss_DisconnectRequest lastError dr s =
     (let s' = s\<lparr>ss_mConnected := 0\<rparr> in
      if ss_mConnected s = 0 then Inr s'
      else bindR (OverlappedIOContext_new IO_DISCONNECT s') (\<lambda>(context, s).
        let context = context\<lparr>mDisconnectReason := dr\<rparr>; s = ss_keep context s in
        if lastError \<noteq> WSA_IO_PENDING then DeleteIoContext (Some context) s else Inr s))"

definition ss_submit :: "wsa_status \<Rightarrow> io_context \<Rightarrow> Session \<Rightarrow> (bool \<times> Session) result" where
  "ss_submit wsa context s =
     (if accepted wsa then Inr (True, ss_keep (context\<lparr>submitted := True\<rparr>) s)
      else bindR (DeleteIoContext (Some context) (ss_keep context s)) (\<lambda>s. Inr (False, s)))"

definition ss_PreRecv :: "wsa_status \<Rightarrow> Session \<Rightarrow> (bool \<times> Session) result" where
  "ss_PreRecv wsa s =
     (if \<not> ss_IsConnected s then Inr (False, s)
      else bindR (OverlappedIOContext_new IO_RECV_ZERO s) (\<lambda>(context, s).
        ss_submit wsa (context\<lparr>mWsaBuf_len := 0, mWsaBuf_buf := None\<rparr>) s))"

definition ss_PostRecv :: "wsa_status \<Rightarrow> Session \<Rightarrow> (bool \<times> Session) result" where
  "ss_PostRecv wsa s =
     (if \<not> ss_IsConnected s then Inr (False, s)
      else let (free, buffer) = GetFreeSpaceSize (ss_mRecvBuffer s); s = s\<lparr>ss_mRecvBuffer := buffer\<rparr> in
      if free = 0 then Inr (False, s)
      else bindR (OverlappedIOContext_new IO_RECV s) (\<lambda>(context, s).
        ss_submit wsa (context\<lparr>mWsaBuf_len := 0, mWsaBuf_buf := None\<rparr>) s))"

text \<open>\<open>FastSpinlockGuard criticalSection(mSendBufferLock)\<close> around a body.\<close>

definition ss_guarded :: "(Session \<Rightarrow> ('a \<times> Session) result) \<Rightarrow> Session \<Rightarrow> ('a \<times> Session) result" where
  "ss_guarded body s =
     (case FastSpinlockGuard True (ss_mSendBufferLock s) of
        None \<Rightarrow> Inl SelfDeadlock
      | Some locked \<Rightarrow> bindR (body (s\<lparr>ss_mSendBufferLock := locked\<rparr>)) (\<lambda>(r, s').
          Inr (r, s'\<lparr>ss_mSendBufferLock := FastSpinlockGuard_end True (ss_mSendBufferLock s')\<rparr>)))"

definition ss_PostSend :: "byte list \<Rightarrow> Session \<Rightarrow> (bool \<times> Session) result" where
  "ss_PostSend data s =
     (if \<not> ss_IsConnected s then Inr (False, s)
      else ss_guarded (\<lambda>s.
        let len = of_nat (length data);
            (free, buffer) = GetFreeSpaceSize (ss_mSendBuffer s);
            s = s\<lparr>ss_mSendBuffer := buffer\<rparr>
        in if free < len then Inr (False, s)
           else bindR (buffer_fill data (ss_mSendBuffer s)) (\<lambda>buffer.
             Inr (True, s\<lparr>ss_mSendBuffer := Commit len buffer\<rparr>))) s)"

definition ss_FlushSend :: "wsa_status \<Rightarrow> Session \<Rightarrow> (bool \<times> Session) result" where
  "ss_FlushSend wsa s =
     (if \<not> ss_IsConnected s then
        bindR (ss_DisconnectRequest 0 DR_SENDFLUSH_ERROR s) (\<lambda>s. Inr (True, s))
      else ss_guarded (\<lambda>s.
        if GetContiguiousBytes (ss_mSendBuffer s) = 0 then
          (if ss_mSendPendingCount s = 0 then Inr (True, s) else Inr (False, s))
        else if sint (ss_mSendPendingCount s) > 0 then Inr (False, s)
        else bindR (OverlappedIOContext_new IO_SEND s) (\<lambda>(context, s).
          let context = context\<lparr>mWsaBuf_len := GetContiguiousBytes (ss_mSendBuffer s),
                mWsaBuf_buf := GetBufferStart (ss_mSendBuffer s)\<rparr> in
          if \<not> accepted wsa then
            bindR (DeleteIoContext (Some context) (ss_keep context s)) (\<lambda>s.
            bindR (ss_DisconnectRequest (WSAGetLastError wsa) DR_SENDFLUSH_ERROR s) (\<lambda>s. Inr (True, s)))
          else
            (let s = (ss_keep (context\<lparr>submitted := True\<rparr>) s)
                   \<lparr>ss_mSendPendingCount := ss_mSendPendingCount s + 1\<rparr> in
             Inr (ss_mSendPendingCount s = 1, s)))) s)"

definition ss_DisconnectCompletion :: "DisconnectReason \<Rightarrow> Session \<Rightarrow> Session result" where
  "ss_DisconnectCompletion dr s = ss_ReleaseRef (s\<lparr>ss_on_disconnect := ss_on_disconnect s @ [dr]\<rparr>)"

definition ss_SendCompletion :: "DWORD \<Rightarrow> Session \<Rightarrow> Session result" where
  "ss_SendCompletion transferred s =
     bindR (ss_guarded (\<lambda>s. bindR (Remove transferred (ss_mSendBuffer s)) (\<lambda>buffer.
        Inr ((), s\<lparr>ss_mSendBuffer := buffer, ss_mSendPendingCount := ss_mSendPendingCount s - 1\<rparr>))) s)
       (\<lambda>(_, s). Inr s)"

definition ss_RecvCompletion :: "DWORD \<Rightarrow> Session \<Rightarrow> Session" where
  "ss_RecvCompletion transferred s = s\<lparr>ss_mRecvBuffer := Commit transferred (ss_mRecvBuffer s)\<rparr>"

definition EchoBack :: "Session \<Rightarrow> Session result" where
  "EchoBack s =
     (let len = GetContiguiousBytes (ss_mRecvBuffer s) in
      if len = 0 then Inr s
      else bindR (buffer_peek len (ss_mRecvBuffer s)) (\<lambda>data.
        bindR (ss_PostSend data s) (\<lambda>(ok, s).
        if \<not> ok then Inr s
        else bindR (Remove len (ss_mRecvBuffer s)) (\<lambda>buffer. Inr (s\<lparr>ss_mRecvBuffer := buffer\<rparr>)))))"

section \<open>The worker\<close>

text \<open>\<open>WorkerThread::DoIocpJob\<close>: the switch handles only connects, whose completion does nothing; the
  session is the owner of the context.\<close>

definition DoIocpJob :: "DWORD \<Rightarrow> completion \<Rightarrow> Session \<Rightarrow> Session result" where
  "DoIocpJob lastError packet s =
     (if (gqcs_ret packet = 0 \<or> dwTransferred packet = 0) \<and>
         gqcs_context packet = None \<and> gqcs_error packet = WAIT_TIMEOUT then Inr s
      else if (gqcs_ret packet = 0 \<or> dwTransferred packet = 0) \<and> gqcs_context packet = None then Inl NullDeref
      else case gqcs_context packet of
        None \<Rightarrow> bindR (CRASH_ASSERT False) (\<lambda>_. Inr s)
      | Some context \<Rightarrow>
          if (gqcs_ret packet = 0 \<or> dwTransferred packet = 0) \<and>
             (mIoType context = IO_RECV \<or> mIoType context = IO_SEND)
          then bindR (ss_DisconnectRequest lastError DR_COMPLETION_ERROR s) (DeleteIoContext (Some context))
          else Inr s)"

section \<open>Reference counting and the invariant\<close>

interpretation ssr: refcounted ss_mRefCount ss_AddRef ss_ReleaseRef
proof
  fix s :: Session
  show "\<exists>s'. ss_AddRef s = Inr s' \<and> sint (ss_mRefCount s') = sint (ss_mRefCount s) + 1"
    if "0 \<le> sint (ss_mRefCount s)" "sint (ss_mRefCount s) < 2 ^ 31 - 1"
    using that sint_incr [of "ss_mRefCount s"] by (simp add: ss_AddRef_def Let_def)
  show "ss_AddRef s = Inl CrashAssert" if "sint (ss_mRefCount s) = 2 ^ 31 - 1"
    using sint_incr_overflow [OF that] by (simp add: ss_AddRef_def Let_def)
  show "\<exists>s'. ss_ReleaseRef s = Inr s' \<and> sint (ss_mRefCount s') = sint (ss_mRefCount s) - 1"
    if "1 < sint (ss_mRefCount s)"
  proof -
    have "sint (ss_mRefCount s - 1) = sint (ss_mRefCount s) - 1" using that by (intro sint_decr) simp
    moreover from this that have "ss_mRefCount s - 1 \<noteq> 0" by auto
    ultimately show ?thesis using that by (simp add: ss_ReleaseRef_def Let_def)
  qed
  show "ss_ReleaseRef s = Inl CrashAssert" if "ss_mRefCount s = 0"
    using that by (simp add: ss_ReleaseRef_def Let_def)
qed

text \<open>The counter is the number of allocated contexts, the lock is free between operations, both buffers are
  well formed, and every context with the kernel has a type that can be deleted; a receive
  never has room in it.\<close>

definition ss_refs :: "Session \<Rightarrow> bool" where
  "ss_refs s \<longleftrightarrow> ss_mRefCount s = of_nat (length (ss_contexts s)) \<and> length (ss_contexts s) < 2 ^ 31 \<and>
     (\<forall>c \<in> set (ss_contexts s). mIoType c \<noteq> IO_NONE \<and> (mIoType c = IO_RECV \<longrightarrow> mWsaBuf_len c = 0) \<and>
        (mIoType c = IO_DISCONNECT \<longrightarrow> \<not> submitted c))"

definition ss_bufs :: "Session \<Rightarrow> bool" where
  "ss_bufs s \<longleftrightarrow> ss_mSendBufferLock s = 0 \<and> cb_inv (ss_mSendBuffer s) \<and> cb_inv (ss_mRecvBuffer s)"

definition ss_inv :: "Session \<Rightarrow> bool" where
  "ss_inv s \<longleftrightarrow> ss_refs s \<and> ss_mSendBufferLock s = 0 \<and> cb_inv (ss_mSendBuffer s) \<and> cb_inv (ss_mRecvBuffer s)"

lemma Session_new_inv: "ss_inv (Session_new junk sock n m)"
  by (simp add: ss_inv_def ss_refs_def Session_new_def cb_new_inv)

lemma context_new_ok:
  assumes "OverlappedIOContext_new t s = Inr (c, s')" and "ss_refs s"
  shows "c = new_context t \<and> s' = s\<lparr>ss_mRefCount := of_nat (Suc (length (ss_contexts s)))\<rparr> \<and>
    Suc (length (ss_contexts s)) < 2 ^ 31"
proof -
  have "c = new_context t" "s' = s\<lparr>ss_mRefCount := ss_mRefCount s + 1\<rparr>" "0 < sint (ss_mRefCount s + 1)"
    using assms(1) by (auto simp: OverlappedIOContext_new_def ss_AddRef_def Let_def bindR_Inr_iff CRASH_ASSERT_Inr)
  moreover have "Suc (length (ss_contexts s)) \<noteq> 2 ^ 31"
  proof
    assume "Suc (length (ss_contexts s)) = 2 ^ 31"
    then have "ss_mRefCount s = of_nat (2 ^ 31 - 1)" using assms(2) by (simp add: ss_refs_def)
    then have "sint (ss_mRefCount s) = 2 ^ 31 - 1" using sint_of_nat_small [of "2 ^ 31 - 1"] by simp
    from sint_incr_overflow [OF this] \<open>0 < sint (ss_mRefCount s + 1)\<close> show False by simp
  qed
  ultimately show ?thesis using assms(2) by (auto simp: ss_refs_def add.commute)
qed

lemma context_new_exists:
  assumes "ss_refs s" and "Suc (length (ss_contexts s)) < 2 ^ 31"
  shows "OverlappedIOContext_new t s =
    Inr (new_context t, s\<lparr>ss_mRefCount := of_nat (Suc (length (ss_contexts s)))\<rparr>)"
proof -
  have eq: "ss_mRefCount s + 1 = of_nat (Suc (length (ss_contexts s)))"
    using assms(1) by (simp add: ss_refs_def add.commute)
  show ?thesis
    using sint_of_nat_small [OF assms(2)]
    by (simp add: OverlappedIOContext_new_def ss_AddRef_def Let_def eq del: of_nat_Suc)
qed

text \<open>A new context in the list, and one taken out of it.\<close>

definition ss_adds :: "io_context \<Rightarrow> Session \<Rightarrow> Session" where
  "ss_adds c s = s\<lparr>ss_mRefCount := of_nat (Suc (length (ss_contexts s))), ss_contexts := c # ss_contexts s\<rparr>"

definition ss_drop :: "io_context \<Rightarrow> Session \<Rightarrow> Session" where
  "ss_drop c s = s\<lparr>ss_mRefCount := of_nat (length (ss_contexts s) - 1), ss_contexts := remove1 c (ss_contexts s),
     ss_on_release := ss_on_release s + (if length (ss_contexts s) = 1 then 1 else 0)\<rparr>"

definition context_ok :: "io_context \<Rightarrow> bool" where
  "context_ok c \<longleftrightarrow> mIoType c \<noteq> IO_NONE \<and> (mIoType c = IO_RECV \<longrightarrow> mWsaBuf_len c = 0) \<and>
     (mIoType c = IO_DISCONNECT \<longrightarrow> \<not> submitted c)"

lemma ss_refs_adds: "ss_refs s \<Longrightarrow> Suc (length (ss_contexts s)) < 2 ^ 31 \<Longrightarrow> context_ok c \<Longrightarrow> ss_refs (ss_adds c s)"
  by (simp add: ss_refs_def ss_adds_def context_ok_def)

lemma DeleteIoContext_ok:
  assumes refs: "ss_refs s" and c: "c \<in> set (ss_contexts s)"
  shows "DeleteIoContext (Some c) s = Inr (ss_drop c s) \<and> ss_refs (ss_drop c s)"
proof -
  define n where "n = length (ss_contexts s)"
  have n: "0 < n" "n < 2 ^ 31" using c refs by (auto simp: n_def ss_refs_def)
  then have ret: "ss_mRefCount s - 1 = of_nat (n - 1)"
    using refs by (cases n) (simp_all add: ss_refs_def n_def [symmetric])
  have "sint (of_nat (n - 1) :: LONG) = int (n - 1)" using n by (intro sint_of_nat_small) simp
  moreover from this have "(of_nat (n - 1) :: LONG) = 0 \<longleftrightarrow> n = 1" using n by (cases "n = 1") auto
  ultimately have "ss_ReleaseRef s = Inr (s\<lparr>ss_mRefCount := of_nat (n - 1),
      ss_on_release := ss_on_release s + (if n = 1 then 1 else 0)\<rparr>)"
    using ret by (cases s) (simp add: ss_ReleaseRef_def Let_def)
  moreover have "mIoType c \<noteq> IO_NONE" using refs c by (simp add: ss_refs_def)
  moreover have "ss_refs (ss_drop c s)"
    using refs c notin_set_remove1 by (auto simp: ss_refs_def ss_drop_def length_remove1 dest: notin_set_remove1)
  ultimately show ?thesis by (simp add: DeleteIoContext_def ss_drop_def n_def)
qed

lemma delete_fresh:
  assumes "ss_refs s" and "Suc (length (ss_contexts s)) < 2 ^ 31" and "context_ok c"
  shows "DeleteIoContext (Some c) (ss_adds c s) =
    Inr (s\<lparr>ss_on_release := ss_on_release s + (if ss_contexts s = [] then 1 else 0)\<rparr>)"
  using DeleteIoContext_ok [OF ss_refs_adds [OF assms], of c] assms(1)
  by (cases s) (simp add: ss_drop_def ss_adds_def ss_refs_def)

definition ss_ref1 :: "Session \<Rightarrow> Session" where
  "ss_ref1 s = s\<lparr>ss_mRefCount := of_nat (Suc (length (ss_contexts s)))\<rparr>"

lemma keep_new: "ss_keep c (ss_ref1 s) = ss_adds c s"
  by (simp add: ss_keep_def ss_adds_def ss_ref1_def)

lemma ss_ref1_frame [simp]: "ss_mSendBuffer (ss_ref1 s) = ss_mSendBuffer s"
  "ss_mSendPendingCount (ss_ref1 s) = ss_mSendPendingCount s"
  by (simp_all add: ss_ref1_def)

lemma new_context_blank [simp]: "(new_context t)\<lparr>mWsaBuf_len := 0, mWsaBuf_buf := None\<rparr> = new_context t"
  by (simp add: new_context_def)

lemma context_ok_new [simp]:
  "t \<noteq> IO_NONE \<Longrightarrow> context_ok (new_context t)"
  "t \<noteq> IO_NONE \<Longrightarrow> context_ok ((new_context t)\<lparr>mDisconnectReason := dr\<rparr>)"
  "t \<noteq> IO_NONE \<Longrightarrow> t \<noteq> IO_DISCONNECT \<Longrightarrow> n = 0 \<or> t \<noteq> IO_RECV \<Longrightarrow>
     context_ok ((new_context t)\<lparr>mWsaBuf_len := n, mWsaBuf_buf := b, submitted := sb\<rparr>)"
  by (auto simp: context_ok_def new_context_def)

text \<open>The guard on a free lock.\<close>

lemma ss_guarded_free:
  assumes "ss_mSendBufferLock s = 0"
  shows "ss_guarded body s = bindR (body (s\<lparr>ss_mSendBufferLock := LF_WRITE_FLAG\<rparr>)) (\<lambda>(r, s').
    Inr (r, s'\<lparr>ss_mSendBufferLock := ss_mSendBufferLock s' - LF_WRITE_FLAG\<rparr>))"
proof -
  have "lock_free 0" by (simp add: lock_free_def)
  then show ?thesis
    using assms by (simp add: ss_guarded_def FastSpinlockGuard_def FastSpinlockGuard_end_def EnterWriteLock_free
        LeaveWriteLock_def)
qed

section \<open>What each operation does\<close>

text \<open>The operations that touch contexts, when the counter has room for one more.\<close>

definition ss_room :: "Session \<Rightarrow> bool" where
  "ss_room s \<longleftrightarrow> Suc (length (ss_contexts s)) < 2 ^ 31"

definition ss_after_reject :: "Session \<Rightarrow> Session" where
  "ss_after_reject s = s\<lparr>ss_on_release := ss_on_release s + (if ss_contexts s = [] then 1 else 0)\<rparr>"

lemma new_context_bind:
  assumes "ss_refs s"
  shows "bindR (OverlappedIOContext_new t s) f =
    (if ss_room s then f (new_context t, ss_ref1 s) else Inl CrashAssert)"
proof (cases "ss_room s")
  case True
  then show ?thesis using context_new_exists [OF assms, of t] by (simp add: ss_room_def ss_ref1_def)
next
  case False
  then have "length (ss_contexts s) = 2 ^ 31 - 1" using assms by (simp add: ss_room_def ss_refs_def)
  then have "sint (ss_mRefCount s) = 2 ^ 31 - 1"
    using sint_of_nat_small [of "2 ^ 31 - 1"] assms by (simp add: ss_refs_def)
  then show ?thesis using False by (simp add: OverlappedIOContext_new_def ssr.addref_overflow)
qed

lemma submit_ok:
  assumes "ss_refs s" and "ss_room s" and "context_ok c"
  shows "ss_submit wsa c (ss_ref1 s) =
    Inr (accepted wsa, if accepted wsa then ss_adds (c\<lparr>submitted := True\<rparr>) s else ss_after_reject s)"
  using assms delete_fresh [of s c] by (simp add: ss_submit_def keep_new ss_room_def ss_after_reject_def)

lemma DisconnectRequest_ok:
  assumes "ss_refs s" and "ss_room s"
  shows "ss_DisconnectRequest e dr s =
    Inr (if ss_mConnected s = 0 then s
         else if e = WSA_IO_PENDING
         then ss_adds ((new_context IO_DISCONNECT)\<lparr>mDisconnectReason := dr\<rparr>) (s\<lparr>ss_mConnected := 0\<rparr>)
         else ss_after_reject (s\<lparr>ss_mConnected := 0\<rparr>))"
proof (cases "ss_mConnected s = 0")
  case True
  then show ?thesis by (cases s) (simp add: ss_DisconnectRequest_def)
next
  case False
  define t where "t = s\<lparr>ss_mConnected := 0\<rparr>"
  have t: "ss_refs t" "ss_room t" using assms by (simp_all add: ss_refs_def ss_room_def t_def)
  show ?thesis
    using False t delete_fresh [OF t(1), of "(new_context IO_DISCONNECT)\<lparr>mDisconnectReason := dr\<rparr>"]
    by (simp add: ss_DisconnectRequest_def t_def [symmetric] Let_def new_context_bind keep_new)
      (simp add: ss_room_def ss_after_reject_def)
qed

lemma PreRecv_ok:
  assumes "ss_refs s" and "ss_room s"
  shows "ss_PreRecv wsa s =
    (if ss_IsConnected s then Inr (accepted wsa, if accepted wsa
       then ss_adds ((new_context IO_RECV_ZERO)\<lparr>submitted := True\<rparr>) s else ss_after_reject s)
     else Inr (False, s))"
  using assms submit_ok [OF assms, of "new_context IO_RECV_ZERO" wsa]
  by (simp add: ss_PreRecv_def new_context_bind)

lemma PostRecv_ok:
  fixes s :: Session
  assumes "ss_refs s" and "ss_room s"
  defines "s1 \<equiv> s\<lparr>ss_mRecvBuffer := snd (GetFreeSpaceSize (ss_mRecvBuffer s))\<rparr>"
  shows "ss_PostRecv wsa s =
    (if \<not> ss_IsConnected s then Inr (False, s)
     else if fst (GetFreeSpaceSize (ss_mRecvBuffer s)) = 0 then Inr (False, s1)
     else Inr (accepted wsa, if accepted wsa
       then ss_adds ((new_context IO_RECV)\<lparr>submitted := True\<rparr>) s1 else ss_after_reject s1))"
proof -
  have s1: "ss_refs s1" "ss_room s1" using assms by (simp_all add: s1_def ss_refs_def ss_room_def)
  show ?thesis
    using submit_ok [OF s1, of "new_context IO_RECV" wsa] s1
    by (simp add: ss_PostRecv_def case_prod_beta Let_def s1_def [symmetric] new_context_bind)
qed

lemma PostSend_ok:
  assumes "ss_mSendBufferLock s = 0" and "ss_IsConnected s"
  shows "ss_PostSend data s =
    bindR (cb_step (Put data) (ss_mSendBuffer s)) (\<lambda>(acc, del, b).
      Inr (\<not> fst (GetFreeSpaceSize (ss_mSendBuffer s)) < of_nat (length data), s\<lparr>ss_mSendBuffer := b\<rparr>))"
  using assms
  by (cases s) (auto simp: ss_PostSend_def ss_guarded_free cb_step_def Let_def case_prod_beta bindR_assoc
      intro!: arg_cong2 [where f = bindR])

lemma ss_lock_frame [simp]:
  "ss_adds c (s\<lparr>ss_mSendBufferLock := x\<rparr>) = (ss_adds c s)\<lparr>ss_mSendBufferLock := x\<rparr>"
  "ss_after_reject (s\<lparr>ss_mSendBufferLock := x\<rparr>) = (ss_after_reject s)\<lparr>ss_mSendBufferLock := x\<rparr>"
  "ss_refs (s\<lparr>ss_mSendBufferLock := x\<rparr>) = ss_refs s" "ss_room (s\<lparr>ss_mSendBufferLock := x\<rparr>) = ss_room s"
  "ss_refs (ss_after_reject s) = ss_refs s" "ss_room (ss_after_reject s) = ss_room s"
  "ss_mConnected (ss_after_reject s) = ss_mConnected s"
  "ss_mSendBufferLock (ss_after_reject s) = ss_mSendBufferLock s"
  "ss_mSendBuffer (ss_after_reject s) = ss_mSendBuffer s" "ss_mRecvBuffer (ss_after_reject s) = ss_mRecvBuffer s"
  "ss_contexts (ss_after_reject s) = ss_contexts s"
  by (simp_all add: ss_adds_def ss_after_reject_def ss_refs_def ss_room_def)

lemma ss_adds_frame [simp]:
  "ss_mConnected (ss_adds c s) = ss_mConnected s" "ss_mSendBufferLock (ss_adds c s) = ss_mSendBufferLock s"
  "ss_mSendBuffer (ss_adds c s) = ss_mSendBuffer s" "ss_mRecvBuffer (ss_adds c s) = ss_mRecvBuffer s"
  "ss_contexts (ss_adds c s) = c # ss_contexts s" "ss_mSendPendingCount (ss_adds c s) = ss_mSendPendingCount s"
  by (simp_all add: ss_adds_def)

definition flush_context :: "Session \<Rightarrow> io_context" where
  "flush_context s = (new_context IO_SEND)\<lparr>mWsaBuf_len := GetContiguiousBytes (ss_mSendBuffer s),
     mWsaBuf_buf := GetBufferStart (ss_mSendBuffer s)\<rparr>"

lemma flush_context_ok [simp]: "context_ok (flush_context s)" "context_ok ((flush_context s)\<lparr>submitted := x\<rparr>)"
  "mIoType (flush_context s) = IO_SEND"
  by (simp_all add: flush_context_def context_ok_def new_context_def)

lemma lock_zero: "ss_mSendBufferLock s = 0 \<Longrightarrow> s\<lparr>ss_mSendBufferLock := 0\<rparr> = s"
  by (cases s) simp

lemma FlushSend_busy:
  assumes "ss_mSendBufferLock s = 0" and "ss_IsConnected s" and "sint (ss_mSendPendingCount s) > 0"
  shows "ss_FlushSend wsa s = Inr (False, s)"
proof -
  have "ss_mSendPendingCount s \<noteq> 0" using assms(3) by auto
  then show ?thesis using assms by (simp add: ss_FlushSend_def ss_guarded_free lock_zero)
qed

text \<open>A rejected send deletes its context and then one more for the disconnect.\<close>

lemma FlushSend_ok:
  assumes inv: "ss_inv s" and room: "ss_room s" and conn: "ss_IsConnected s"
  shows "ss_FlushSend wsa s =
    (if GetContiguiousBytes (ss_mSendBuffer s) = 0 then Inr (ss_mSendPendingCount s = 0, s)
     else if sint (ss_mSendPendingCount s) > 0 then Inr (False, s)
     else if accepted wsa
     then Inr (ss_mSendPendingCount s + 1 = 1, (ss_adds ((flush_context s)\<lparr>submitted := True\<rparr>) s)
       \<lparr>ss_mSendPendingCount := ss_mSendPendingCount s + 1\<rparr>)
     else Inr (True, ss_after_reject ((ss_after_reject s)\<lparr>ss_mConnected := 0\<rparr>)))"
proof -
  define t where "t = s\<lparr>ss_mSendBufferLock := LF_WRITE_FLAG\<rparr>"
  have t: "ss_refs t" "ss_room t" "ss_mConnected t = ss_mConnected s" "ss_mSendBuffer t = ss_mSendBuffer s"
    "ss_mSendPendingCount t = ss_mSendPendingCount s" "ss_mSendBufferLock t = LF_WRITE_FLAG"
    using inv room by (simp_all add: t_def ss_inv_def)
  have c: "ss_mConnected s \<noteq> 0" using conn by (simp add: ss_IsConnected_def)
  have lock: "ss_mSendBufferLock s = 0" using inv by (simp add: ss_inv_def)
  have fc: "flush_context t = flush_context s" by (simp add: flush_context_def t(4))
  have del: "DeleteIoContext (Some (flush_context s)) (ss_adds (flush_context s) t) = Inr (ss_after_reject t)"
    using delete_fresh [OF t(1), of "flush_context s"] t(2) by (simp add: ss_room_def ss_after_reject_def)
  have disc: "ss_DisconnectRequest (WSAGetLastError wsa) DR_SENDFLUSH_ERROR (ss_after_reject t) =
      Inr (ss_after_reject ((ss_after_reject t)\<lparr>ss_mConnected := 0\<rparr>))" if "\<not> accepted wsa"
    using DisconnectRequest_ok [of "ss_after_reject t"] t c rejected_error [OF that] by simp
  have restored: "(ss_after_reject ((ss_after_reject t)\<lparr>ss_mConnected := 0\<rparr>))\<lparr>ss_mSendBufferLock := 0\<rparr> =
      ss_after_reject ((ss_after_reject s)\<lparr>ss_mConnected := 0\<rparr>)"
    using lock by (cases s) (simp add: t_def ss_after_reject_def)
  show ?thesis
    using conn lock t del disc restored
    by (simp add: ss_FlushSend_def ss_guarded_free t_def [symmetric] Let_def new_context_bind
        flush_context_def [symmetric] keep_new fc)
      (cases s, auto simp: t_def ss_adds_def)
qed

lemma SendCompletion_ok:
  assumes "ss_bufs s"
  shows "\<exists>b. ss_SendCompletion n s =
      Inr (s\<lparr>ss_mSendBuffer := b, ss_mSendPendingCount := ss_mSendPendingCount s - 1\<rparr>) \<and>
    cb_inv b \<and> cb_contents b = drop (unat n) (cb_contents (ss_mSendBuffer s))"
proof -
  obtain b where "Remove n (ss_mSendBuffer s) = Inr b" "cb_inv b"
    "cb_contents b = drop (unat n) (cb_contents (ss_mSendBuffer s))"
    using cbq.remove_ok [of "ss_mSendBuffer s" n] assms by (auto simp: ss_bufs_def)
  then show ?thesis
    using assms by (cases s) (auto simp: ss_SendCompletion_def ss_guarded_free ss_bufs_def)
qed

lemma PostSend_result:
  assumes bufs: "ss_bufs s" and len: "length data < 2 ^ 32"
  defines "ok \<equiv> ss_IsConnected s \<and> length data \<le> unat (fst (GetFreeSpaceSize (ss_mSendBuffer s)))"
  shows "\<exists>b. ss_PostSend data s = Inr (ok, s\<lparr>ss_mSendBuffer := b\<rparr>) \<and> cb_inv b \<and>
    cb_contents b = cb_contents (ss_mSendBuffer s) @ (if ok then data else [])"
proof (cases "ss_IsConnected s")
  case False
  then show ?thesis using bufs
    by (intro exI [of _ "ss_mSendBuffer s"]) (simp add: ss_PostSend_def ss_bufs_def ok_def)
next
  case True
  have cb: "cb_inv (ss_mSendBuffer s)" using bufs by (simp add: ss_bufs_def)
  obtain acc del b where st: "cb_step (Put data) (ss_mSendBuffer s) = Inr (acc, del, b)"
    using Put_fifo [OF cb len] by blast
  have ok: "ok \<longleftrightarrow> \<not> fst (GetFreeSpaceSize (ss_mSendBuffer s)) < of_nat (length data)"
    using True len by (simp add: ok_def word_less_nat_alt unat_of_nat_small not_less)
  then have "acc = (if ok then data else [])"
    using st by (auto simp: cb_step_def Let_def case_prod_beta bindR_Inr_iff split: if_splits)
  then show ?thesis
    using PostSend_ok [OF _ True, of data] bufs st cb_step_Put_contents [OF cb len st] ok
    by (auto simp: ss_bufs_def)
qed

text \<open>\<open>EchoBack\<close> moves the contiguous front of the received bytes if it can be posted, and otherwise nothing.\<close>

lemma EchoBack_result:
  assumes bufs: "ss_bufs s"
  defines "len \<equiv> unat (GetContiguiousBytes (ss_mRecvBuffer s))"
  defines "moved \<equiv> if ss_IsConnected s \<and> len \<le> unat (fst (GetFreeSpaceSize (ss_mSendBuffer s))) then len else 0"
  shows "\<exists>s' b q. EchoBack s = Inr s' \<and> s' = s\<lparr>ss_mSendBuffer := b, ss_mRecvBuffer := q\<rparr> \<and> cb_inv b \<and> cb_inv q \<and>
    cb_contents q = drop moved (cb_contents (ss_mRecvBuffer s)) \<and>
    cb_contents b = cb_contents (ss_mSendBuffer s) @ take moved (cb_contents (ss_mRecvBuffer s))"
proof (cases "GetContiguiousBytes (ss_mRecvBuffer s) = 0")
  case True
  then have "moved = 0" by (simp add: moved_def len_def)
  then show ?thesis using bufs True
    by (intro exI [of _ s] exI [of _ "ss_mSendBuffer s"] exI [of _ "ss_mRecvBuffer s"]) (simp add: EchoBack_def ss_bufs_def)
next
  case False
  have cb: "cb_inv (ss_mRecvBuffer s)" using bufs by (simp add: ss_bufs_def)
  obtain chunk q where d: "buffer_peek (GetContiguiousBytes (ss_mRecvBuffer s)) (ss_mRecvBuffer s) = Inr chunk"
    "Remove (GetContiguiousBytes (ss_mRecvBuffer s)) (ss_mRecvBuffer s) = Inr q" "cb_inv q"
    "cb_contents (ss_mRecvBuffer s) = chunk @ cb_contents q" "length chunk = len"
    using cbq.drain [OF cb] by (metis len_def)
  have "length chunk < 2 ^ 32" using d(5) unat32_less [of "GetContiguiousBytes (ss_mRecvBuffer s)"] by (simp add: len_def)
  then obtain b where p: "ss_PostSend chunk s = Inr (ss_IsConnected s \<and> len \<le> unat (fst (GetFreeSpaceSize (ss_mSendBuffer s))),
      s\<lparr>ss_mSendBuffer := b\<rparr>)" "cb_inv b"
    "cb_contents b = cb_contents (ss_mSendBuffer s) @ take moved (cb_contents (ss_mRecvBuffer s))"
    using PostSend_result [OF bufs, of chunk] d(4,5) by (auto simp: moved_def)
  show ?thesis
  proof (cases "ss_IsConnected s \<and> len \<le> unat (fst (GetFreeSpaceSize (ss_mSendBuffer s)))")
    case True
    then show ?thesis
      using d p False
      by (intro exI [of _ "s\<lparr>ss_mSendBuffer := b, ss_mRecvBuffer := q\<rparr>"] exI [of _ b] exI [of _ q])
        (simp add: EchoBack_def Let_def moved_def)
  next
    case False: False
    then have "moved = 0" by (auto simp: moved_def)
    then show ?thesis
      using bufs d(1) p False \<open>GetContiguiousBytes (ss_mRecvBuffer s) \<noteq> 0\<close>
      by (intro exI [of _ "s\<lparr>ss_mSendBuffer := b\<rparr>"] exI [of _ b] exI [of _ "ss_mRecvBuffer s"])
        (cases s, simp add: EchoBack_def Let_def ss_bufs_def)
  qed
qed

section \<open>The life of a session\<close>

lemma ss_inv_adds: "ss_inv s \<Longrightarrow> ss_room s \<Longrightarrow> context_ok c \<Longrightarrow> ss_inv (ss_adds c s)"
  using ss_refs_adds [of s c] by (simp add: ss_inv_def ss_room_def)

lemma ss_inv_frame [simp]:
  "ss_inv (ss_after_reject s) = ss_inv s" "ss_inv (s\<lparr>ss_mConnected := x\<rparr>) = ss_inv s"
  "ss_inv (s\<lparr>ss_mSendPendingCount := y\<rparr>) = ss_inv s" "ss_room (s\<lparr>ss_mConnected := x\<rparr>) = ss_room s"
  by (simp_all add: ss_inv_def ss_room_def) (simp_all add: ss_refs_def)

lemma ss_inv_refs: "ss_inv s \<Longrightarrow> ss_refs s"
  by (simp add: ss_inv_def)

lemma ss_inv_bufs: "ss_inv s \<Longrightarrow> ss_bufs s"
  by (simp add: ss_inv_def ss_bufs_def)

text \<open>The balance \<open>k\<close>: references that belong to no context, taken by \<open>AddRef\<close> directly or given up by \<open>ReleaseRef\<close>
  and \<open>DisconnectCompletion\<close> without the deletion of a context. The assertions keep the counter within the
  non-negative values of a \<open>long\<close>, so the count is exact.\<close>

definition ss_bal :: "int \<Rightarrow> Session \<Rightarrow> bool" where
  "ss_bal k s \<longleftrightarrow> sint (ss_mRefCount s) = int (length (ss_contexts s)) + k \<and> 0 \<le> sint (ss_mRefCount s) \<and>
     list_all context_ok (ss_contexts s)"

lemma ss_bal_frame [simp]:
  "ss_bal k (s\<lparr>ss_mSendBufferLock := a\<rparr>) = ss_bal k s" "ss_bal k (s\<lparr>ss_mSendBuffer := b\<rparr>) = ss_bal k s"
  "ss_bal k (s\<lparr>ss_mRecvBuffer := c\<rparr>) = ss_bal k s" "ss_bal k (s\<lparr>ss_mConnected := d\<rparr>) = ss_bal k s"
  "ss_bal k (s\<lparr>ss_mSendPendingCount := e\<rparr>) = ss_bal k s" "ss_bal k (s\<lparr>ss_mSocket := f\<rparr>) = ss_bal k s"
  "ss_bal k (s\<lparr>ss_on_disconnect := g\<rparr>) = ss_bal k s"
  by (simp_all add: ss_bal_def)

lemma ss_inv_bal: "ss_inv s \<longleftrightarrow> ss_bal 0 s \<and> ss_bufs s"
proof
  assume "ss_inv s"
  then show "ss_bal 0 s \<and> ss_bufs s"
    using sint_of_nat_small [of "length (ss_contexts s)"]
    by (auto simp: ss_inv_def ss_refs_def ss_bal_def ss_bufs_def list_all_iff context_ok_def)
next
  assume a: "ss_bal 0 s \<and> ss_bufs s"
  then have n: "sint (ss_mRefCount s) = int (length (ss_contexts s))" by (simp add: ss_bal_def)
  moreover have "sint (ss_mRefCount s) < 2 ^ 31" using sint_range [of "ss_mRefCount s"] by simp
  ultimately have "length (ss_contexts s) < 2 ^ 31" by simp
  moreover have "ss_mRefCount s = of_nat (length (ss_contexts s))"
    using arg_cong [OF n, of "of_int :: int \<Rightarrow> LONG"] by simp
  ultimately show "ss_inv s"
    using a by (auto simp: ss_inv_def ss_refs_def ss_bal_def ss_bufs_def list_all_iff context_ok_def)
qed

text \<open>What the session's own state is besides the counter, the contexts and the hooks.\<close>

definition ss_rest :: "Session \<Rightarrow> LONG \<times> CircularBuffer \<times> CircularBuffer" where
  "ss_rest s = (ss_mSendBufferLock s, ss_mSendBuffer s, ss_mRecvBuffer s)"

lemma ss_rest_frame [simp]:
  "ss_rest (s\<lparr>ss_mSendPendingCount := x\<rparr>) = ss_rest s" "ss_rest (s\<lparr>ss_mConnected := y\<rparr>) = ss_rest s"
  "ss_rest (s\<lparr>ss_mSocket := z\<rparr>) = ss_rest s" "ss_rest (s\<lparr>ss_on_disconnect := d\<rparr>) = ss_rest s"
  by (simp_all add: ss_rest_def)

lemma ss_bufs_rest: "ss_rest s' = ss_rest s \<Longrightarrow> ss_bufs s' = ss_bufs s"
  by (simp add: ss_rest_def ss_bufs_def)

lemma AddRef_bal:
  assumes "ss_bal k s" and "ss_AddRef s = Inr s'"
  shows "s' = s\<lparr>ss_mRefCount := ss_mRefCount s + 1\<rparr>" "ss_bal (k + 1) s'" "ss_rest s' = ss_rest s"
proof -
  show s': "s' = s\<lparr>ss_mRefCount := ss_mRefCount s + 1\<rparr>"
    using assms(2) by (auto simp: ss_AddRef_def Let_def bindR_Inr_iff)
  have "0 < sint (ss_mRefCount s + 1)" using assms(2) by (auto simp: ss_AddRef_def Let_def bindR_Inr_iff)
  then have "sint (ss_mRefCount s) \<noteq> 2 ^ 31 - 1" using sint_incr_overflow [of "ss_mRefCount s"] by auto
  then have "sint (ss_mRefCount s + 1) = sint (ss_mRefCount s) + 1"
    using sint_range [of "ss_mRefCount s"] by (intro sint_incr) simp
  then show "ss_bal (k + 1) s'" using assms(1) by (simp add: s' ss_bal_def)
  show "ss_rest s' = ss_rest s" by (simp add: s' ss_rest_def)
qed

lemma ReleaseRef_bal:
  assumes "ss_bal k s"
  shows "ss_ReleaseRef s = (if ss_mRefCount s = 0 then Inl CrashAssert
      else Inr (s\<lparr>ss_mRefCount := ss_mRefCount s - 1, ss_on_release := ss_on_release s + (if ss_mRefCount s = 1 then 1 else 0)\<rparr>))"
    and "ss_ReleaseRef s = Inr s' \<Longrightarrow> ss_bal (k - 1) s' \<and> ss_rest s' = ss_rest s \<and> ss_contexts s' = ss_contexts s"
proof -
  have d: "sint (ss_mRefCount s - 1) = sint (ss_mRefCount s) - 1" if "ss_mRefCount s \<noteq> 0"
    using assms by (intro sint_decr) (simp add: ss_bal_def)
  have pos: "0 < sint (ss_mRefCount s)" if "ss_mRefCount s \<noteq> 0"
    using that assms by (auto simp: ss_bal_def order_less_le signed_eq_0_iff)
  have "ss_mRefCount s - 1 = 0 \<longleftrightarrow> ss_mRefCount s = 1" by simp
  with d pos show eq: "ss_ReleaseRef s = (if ss_mRefCount s = 0 then Inl CrashAssert
      else Inr (s\<lparr>ss_mRefCount := ss_mRefCount s - 1, ss_on_release := ss_on_release s + (if ss_mRefCount s = 1 then 1 else 0)\<rparr>))"
    by (cases s) (simp add: ss_ReleaseRef_def Let_def)
  show "ss_bal (k - 1) s' \<and> ss_rest s' = ss_rest s \<and> ss_contexts s' = ss_contexts s" if "ss_ReleaseRef s = Inr s'"
    using that assms d pos by (auto simp: eq ss_bal_def ss_rest_def split: if_splits)
qed

lemma new_context_bal:
  assumes "ss_bal k s" and "OverlappedIOContext_new t s = Inr (c, s')"
  shows "c = new_context t \<and> ss_rest s' = ss_rest s \<and> ss_mConnected s' = ss_mConnected s \<and> ss_contexts s' = ss_contexts s \<and>
    ss_mSendPendingCount s' = ss_mSendPendingCount s \<and> (\<forall>c. context_ok c \<longrightarrow> ss_bal k (ss_keep c s'))"
  using assms AddRef_bal [OF assms(1)]
  by (auto simp: OverlappedIOContext_new_def bindR_Inr_iff ss_keep_def ss_bal_def)

lemma ss_keep_frame [simp]: "ss_contexts (ss_keep c s) = c # ss_contexts s" "ss_rest (ss_keep c s) = ss_rest s"
  "ss_mConnected (ss_keep c s) = ss_mConnected s"
  by (simp_all add: ss_keep_def ss_rest_def)

lemma delete_bal:
  assumes "ss_bal k s" and "c \<in> set (ss_contexts s)" and "DeleteIoContext (Some c) s = Inr s'"
  shows "ss_bal k s' \<and> ss_rest s' = ss_rest s \<and> ss_contexts s' = remove1 c (ss_contexts s)"
proof -
  obtain s1 where s1: "ss_ReleaseRef s = Inr s1" "s' = s1\<lparr>ss_contexts := remove1 c (ss_contexts s1)\<rparr>"
    using assms(3) by (auto simp: DeleteIoContext_def bindR_Inr_iff split: if_splits)
  have "0 < length (ss_contexts s)" using assms(2) by auto
  moreover have "list_all context_ok (remove1 c (ss_contexts s))"
    using assms(1) by (auto simp: ss_bal_def list_all_iff dest: notin_set_remove1)
  ultimately show ?thesis
    using ReleaseRef_bal(2) [OF assms(1) s1(1)] assms(2) by (auto simp: s1(2) ss_bal_def ss_rest_def length_remove1 of_nat_diff Suc_leI)
qed

text \<open>Every method keeps the balance, and only appends to the contexts or gives up those it has made.\<close>

lemma submit_bal:
  assumes "ss_bal k s" and "OverlappedIOContext_new t s = Inr (c, s1)" and "context_ok c'" "context_ok (c'\<lparr>submitted := True\<rparr>)"
    and "ss_submit wsa c' s1 = Inr (ok, s')"
  shows "ss_bal k s' \<and> ss_rest s' = ss_rest s"
  using new_context_bal [OF assms(1,2)] assms(3-5) delete_bal [of k "ss_keep c' s1" c']
  by (auto simp: ss_submit_def bindR_Inr_iff split: if_splits)

lemma DisconnectRequest_bal:
  assumes "ss_bal k s" and "ss_DisconnectRequest e dr s = Inr s'"
  shows "ss_bal k s' \<and> ss_rest s' = ss_rest s \<and> set (ss_contexts s) \<subseteq> set (ss_contexts s')"
proof (cases "ss_mConnected s = 0")
  case True
  then show ?thesis using assms by (auto simp: ss_DisconnectRequest_def Let_def ss_rest_def)
next
  case False
  define t where "t = s\<lparr>ss_mConnected := 0\<rparr>"
  have t: "ss_bal k t" "ss_rest t = ss_rest s" "ss_contexts t = ss_contexts s" using assms(1) by (simp_all add: t_def ss_rest_def)
  obtain c s1 where n: "OverlappedIOContext_new IO_DISCONNECT t = Inr (c, s1)"
    and r: "(let context = c\<lparr>mDisconnectReason := dr\<rparr>; s = ss_keep context s1 in
        if e \<noteq> WSA_IO_PENDING then DeleteIoContext (Some context) s else Inr s) = Inr s'"
    using assms(2) False by (auto simp: ss_DisconnectRequest_def Let_def t_def bindR_Inr_iff)
  note nb = new_context_bal [OF t(1) n]
  have "ss_bal k (ss_keep (c\<lparr>mDisconnectReason := dr\<rparr>) s1)" using nb by simp
  from delete_bal [OF this, of "c\<lparr>mDisconnectReason := dr\<rparr>" s'] this nb t(2,3) r show ?thesis
    by (auto simp: Let_def split: if_splits)
qed

lemma receive_bal:
  assumes "ss_bal k s" and "t \<noteq> IO_NONE" "t \<noteq> IO_DISCONNECT"
    and res: "bindR (OverlappedIOContext_new t s) (\<lambda>(c, s). ss_submit wsa (c\<lparr>mWsaBuf_len := 0, mWsaBuf_buf := None\<rparr>) s) = Inr (ok, s')"
  shows "ss_bal k s' \<and> ss_rest s' = ss_rest s"
proof -
  obtain c s1 where n: "OverlappedIOContext_new t s = Inr (c, s1)"
    and sub: "ss_submit wsa (c\<lparr>mWsaBuf_len := 0, mWsaBuf_buf := None\<rparr>) s1 = Inr (ok, s')"
    using res by (auto simp: bindR_Inr_iff)
  have "c = new_context t" using new_context_bal [OF assms(1) n] by simp
  then show ?thesis
    using submit_bal [OF assms(1) n _ _ sub] assms(2,3) by (simp add: context_ok_def new_context_def)
qed

lemma recv_bal:
  assumes "ss_bal k s" and "ss_bufs s"
  shows "ss_PreRecv wsa s = Inr (ok, s') \<Longrightarrow> ss_bal k s' \<and> ss_bufs s'"
    and "ss_PostRecv wsa s = Inr (ok, s') \<Longrightarrow> ss_bal k s' \<and> ss_bufs s'"
proof -
  assume "ss_PreRecv wsa s = Inr (ok, s')"
  then show "ss_bal k s' \<and> ss_bufs s'"
    using receive_bal [OF assms(1), of IO_RECV_ZERO wsa ok s'] assms ss_bufs_rest [of s' s] by (auto simp: ss_PreRecv_def split: if_splits)
next
  define s1 where "s1 = s\<lparr>ss_mRecvBuffer := snd (GetFreeSpaceSize (ss_mRecvBuffer s))\<rparr>"
  have s1: "ss_bal k s1" "ss_bufs s1"
    using assms GetFreeSpaceSize_inv [of "ss_mRecvBuffer s"] by (simp_all add: s1_def ss_bufs_def)
  assume "ss_PostRecv wsa s = Inr (ok, s')"
  then show "ss_bal k s' \<and> ss_bufs s'"
    using receive_bal [OF s1(1), of IO_RECV wsa ok s'] assms s1 ss_bufs_rest [of s' s1]
    by (auto simp: ss_PostRecv_def case_prod_beta Let_def s1_def [symmetric] split: if_splits)
qed

lemma FlushSend_bal:
  assumes bal: "ss_bal k s" and bufs: "ss_bufs s" and res: "ss_FlushSend wsa s = Inr (ok, s')"
  shows "ss_bal k s' \<and> ss_bufs s'"
proof (cases "ss_IsConnected s")
  case False
  then show ?thesis
    using res DisconnectRequest_bal [OF bal] bufs ss_bufs_rest [of s' s] by (auto simp: ss_FlushSend_def bindR_Inr_iff)
next
  case True
  define t where "t = s\<lparr>ss_mSendBufferLock := LF_WRITE_FLAG\<rparr>"
  have t: "ss_bal k t" using bal by (simp add: t_def)
  have rest: "ss_bufs (u\<lparr>ss_mSendBufferLock := ss_mSendBufferLock u - LF_WRITE_FLAG\<rparr>)" if "ss_rest u = ss_rest t" for u
    using that bufs by (simp add: ss_rest_def t_def ss_bufs_def)
  have lock: "ss_mSendBufferLock s = 0" using bufs by (simp add: ss_bufs_def)
  have posts: "ss_bal k u \<and> ss_rest u = ss_rest t"
    if n: "OverlappedIOContext_new IO_SEND t = Inr (c, s1)"
      and r: "(let context = c\<lparr>mWsaBuf_len := n, mWsaBuf_buf := b\<rparr> in
          if \<not> accepted wsa then
            bindR (DeleteIoContext (Some context) (ss_keep context s1)) (\<lambda>s.
            bindR (ss_DisconnectRequest (WSAGetLastError wsa) DR_SENDFLUSH_ERROR s) (\<lambda>s. Inr (True, s)))
          else
            (let s = (ss_keep (context\<lparr>submitted := True\<rparr>) s1)\<lparr>ss_mSendPendingCount := ss_mSendPendingCount s1 + 1\<rparr> in
             Inr (ss_mSendPendingCount s = 1, s))) = Inr (ok', u)" for c s1 n b ok' u
  proof -
    note nb = new_context_bal [OF t n]
    define c' where "c' = c\<lparr>mWsaBuf_len := n, mWsaBuf_buf := b\<rparr>"
    have ok: "context_ok c'" "context_ok (c'\<lparr>submitted := True\<rparr>)" using nb by (simp_all add: c'_def context_ok_def new_context_def)
    show ?thesis
    proof (cases "accepted wsa")
      case True
      then show ?thesis using r nb ok by (auto simp: c'_def [symmetric] Let_def)
    next
      case False
      then obtain s2 where d: "DeleteIoContext (Some c') (ss_keep c' s1) = Inr s2"
        "ss_DisconnectRequest (WSAGetLastError wsa) DR_SENDFLUSH_ERROR s2 = Inr u"
        using r by (auto simp: c'_def [symmetric] Let_def bindR_Inr_iff)
      have "ss_bal k s2 \<and> ss_rest s2 = ss_rest (ss_keep c' s1)" using delete_bal [OF _ _ d(1), of k] nb ok by simp
      then show ?thesis using DisconnectRequest_bal [OF _ d(2), of k] nb by simp
    qed
  qed
  obtain u where u: "ss_bal k u" "ss_rest u = ss_rest t" "s' = u\<lparr>ss_mSendBufferLock := ss_mSendBufferLock u - LF_WRITE_FLAG\<rparr>"
    using res True posts t
    by (auto simp: ss_FlushSend_def ss_guarded_free [OF lock] t_def [symmetric] bindR_Inr_iff split: if_splits) blast
  then show ?thesis using rest by simp
qed

lemma DoIocpJob_bal:
  assumes bal: "ss_bal k s" and c: "gqcs_context packet = Some c" "c \<in> set (ss_contexts s)"
    and res: "DoIocpJob e packet s = Inr s'"
  shows "ss_bal k s' \<and> ss_rest s' = ss_rest s"
proof -
  have "ss_bal k s2 \<and> ss_rest s2 = ss_rest s"
    if "ss_DisconnectRequest e DR_COMPLETION_ERROR s = Inr s1" "DeleteIoContext (Some c) s1 = Inr s2" for s1 s2
    using DisconnectRequest_bal [OF bal that(1)] c(2) delete_bal [OF _ _ that(2), of k] by auto
  then show ?thesis using res bal c(1) by (auto simp: DoIocpJob_def bindR_Inr_iff split: if_splits)
qed

lemma DisconnectRequest_inv:
  "ss_inv s \<Longrightarrow> ss_DisconnectRequest e dr s = Inr s' \<Longrightarrow> ss_inv s' \<and> set (ss_contexts s) \<subseteq> set (ss_contexts s')"
  using DisconnectRequest_bal [of 0 s e dr s'] ss_bufs_rest [of s' s] by (simp add: ss_inv_bal)

lemma DoIocpJob_inv:
  "ss_inv s \<Longrightarrow> gqcs_context packet = Some c \<Longrightarrow> c \<in> set (ss_contexts s) \<Longrightarrow> DoIocpJob e packet s = Inr s' \<Longrightarrow> ss_inv s'"
  using DoIocpJob_bal [of 0 s packet c e s'] ss_bufs_rest [of s' s] by (simp add: ss_inv_bal)

text \<open>From its construction on, with the balance of the references that belong to no context: a derived class marks the session
  connected (nothing in \<open>Session\<close> does), any public method is called, and the worker handles completions of contexts that are with
  the kernel. A receive completes with at most as many bytes as the buffer has room for.\<close>

inductive ss_reachable :: "int \<Rightarrow> Session \<Rightarrow> bool" where
  new: "ss_reachable 0 (Session_new junk sock sendBufSize recvBufSize)"
| connect: "ss_reachable k s \<Longrightarrow> ss_reachable k (s\<lparr>ss_mConnected := 1\<rparr>)"
| setSocket: "ss_reachable k s \<Longrightarrow> ss_reachable k (ss_SetSocket sock s)"
| preRecv: "ss_reachable k s \<Longrightarrow> ss_PreRecv wsa s = Inr (ok, s') \<Longrightarrow> ss_reachable k s'"
| postRecv: "ss_reachable k s \<Longrightarrow> ss_PostRecv wsa s = Inr (ok, s') \<Longrightarrow> ss_reachable k s'"
| postSend: "ss_reachable k s \<Longrightarrow> length data < 2 ^ 32 \<Longrightarrow> ss_PostSend data s = Inr (ok, s') \<Longrightarrow> ss_reachable k s'"
| flush: "ss_reachable k s \<Longrightarrow> ss_FlushSend wsa s = Inr (ok, s') \<Longrightarrow> ss_reachable k s'"
| disconnect: "ss_reachable k s \<Longrightarrow> ss_DisconnectRequest e dr s = Inr s' \<Longrightarrow> ss_reachable k s'"
| disconnected: "ss_reachable k s \<Longrightarrow> ss_DisconnectCompletion dr s = Inr s' \<Longrightarrow> ss_reachable (k - 1) s'"
| sent: "ss_reachable k s \<Longrightarrow> ss_SendCompletion n s = Inr s' \<Longrightarrow> ss_reachable k s'"
| received: "ss_reachable k s \<Longrightarrow> unat n \<le> cb_room (ss_mRecvBuffer s) \<Longrightarrow> ss_reachable k (ss_RecvCompletion n s)"
| addRef: "ss_reachable k s \<Longrightarrow> ss_AddRef s = Inr s' \<Longrightarrow> ss_reachable (k + 1) s'"
| releaseRef: "ss_reachable k s \<Longrightarrow> ss_ReleaseRef s = Inr s' \<Longrightarrow> ss_reachable (k - 1) s'"
| delete: "ss_reachable k s \<Longrightarrow> c \<in> set (ss_contexts s) \<Longrightarrow> DeleteIoContext (Some c) s = Inr s' \<Longrightarrow> ss_reachable k s'"
| echo: "ss_reachable k s \<Longrightarrow> EchoBack s = Inr s' \<Longrightarrow> ss_reachable k s'"
| job: "ss_reachable k s \<Longrightarrow> gqcs_context packet = Some c \<Longrightarrow> c \<in> set (ss_contexts s) \<Longrightarrow>
    DoIocpJob e packet s = Inr s' \<Longrightarrow> ss_reachable k s'"

lemma ss_inv_buffers: "ss_inv s \<Longrightarrow> cb_inv b \<Longrightarrow> ss_inv (s\<lparr>ss_mSendBuffer := b\<rparr>)"
  by (simp add: ss_inv_def ss_refs_def)

lemma ss_reachable_bal: "ss_reachable k s \<Longrightarrow> ss_bal k s \<and> ss_bufs s"
proof (induction rule: ss_reachable.induct)
  case (new junk sock n m)
  show ?case using Session_new_inv ss_inv_bal by blast
next
  case (postSend k s data ok s')
  then show ?case using PostSend_result [of s data] by (auto simp: ss_bufs_def)
next
  case (disconnected k s dr s')
  then show ?case
    using ReleaseRef_bal(2) [of k "s\<lparr>ss_on_disconnect := ss_on_disconnect s @ [dr]\<rparr>" s'] ss_bufs_rest [of s' s]
    by (simp add: ss_DisconnectCompletion_def)
next
  case (sent k s n s')
  then show ?case using SendCompletion_ok [of s n] by (auto simp: ss_bufs_def)
next
  case (received k s n)
  then show ?case using Commit_inv [of "ss_mRecvBuffer s" n] by (simp add: ss_RecvCompletion_def ss_bufs_def)
next
  case (echo k s s')
  then show ?case using EchoBack_result [of s] by (auto simp: ss_bufs_def)
next
  case (connect k s)
  then show ?case using ss_bufs_rest [of "s\<lparr>ss_mConnected := 1\<rparr>" s] by simp
next
  case (setSocket k s sock)
  then show ?case using ss_bufs_rest [of "s\<lparr>ss_mSocket := sock\<rparr>" s] by (simp add: ss_SetSocket_def)
next
  case (disconnect k s e dr s')
  then show ?case using DisconnectRequest_bal ss_bufs_rest by blast
next
  case (addRef k s s')
  then show ?case using AddRef_bal(2,3) [of k s s'] ss_bufs_rest [of s' s] by simp
next
  case (releaseRef k s s')
  then show ?case using ReleaseRef_bal(2) ss_bufs_rest by blast
next
  case (delete k s c s')
  then show ?case using delete_bal ss_bufs_rest by blast
next
  case (job k s packet c e s')
  then show ?case using DoIocpJob_bal ss_bufs_rest by blast
next
  case (preRecv k s wsa ok s')
  then show ?case using recv_bal(1) [of k s wsa ok s'] by blast
next
  case (postRecv k s wsa ok s')
  then show ?case using recv_bal(2) [of k s wsa ok s'] by blast
next
  case (flush k s wsa ok s')
  then show ?case using FlushSend_bal [of k s wsa ok s'] by blast
qed

lemma ss_reachable_inv: "ss_reachable 0 s \<Longrightarrow> ss_inv s"
  using ss_reachable_bal [of 0 s] by (simp add: ss_inv_bal)

section \<open>Properties of the session\<close>

definition demo_session :: Session where
  "demo_session = (Session_new (\<lambda>_. 0) 1 16 16)\<lparr>ss_mConnected := 1\<rparr>"

lemma demo_session: "ss_reachable 0 demo_session" "ss_IsConnected demo_session" "ss_contexts demo_session = []"
  "ss_mSendPendingCount demo_session = 0" "ss_room demo_session" "ss_on_release demo_session = 0"
  "ss_mSendBuffer demo_session = CircularBuffer_new (\<lambda>_. 0) 16"
  using ss_reachable.connect [OF ss_reachable.new]
  by (simp_all add: demo_session_def Session_new_def ss_IsConnected_def ss_room_def)

text \<open>C8: In every state the public methods can reach, the reference counter is the number of contexts that are allocated
  and not deleted plus the balance of the calls that touch no context (\<open>AddRef\<close> counts one, \<open>ReleaseRef\<close> and
  \<open>DisconnectCompletion\<close> minus one), so with no such call it is the number of contexts; the counter is never negative, deleting a
  context runs into the assertion exactly when the counter is 0, the send lock is free, and every posted
  receive offers a buffer of length 0.\<close>

theorem refs_match_contexts:
  assumes "ss_reachable k s"
  shows "sint (ss_mRefCount s) = int (length (ss_contexts s)) + k \<and> 0 \<le> sint (ss_mRefCount s) \<and>
    list_all (\<lambda>c. DeleteIoContext (Some c) s = Inl CrashAssert \<longleftrightarrow> ss_mRefCount s = 0) (ss_contexts s) \<and>
    ss_mSendBufferLock s = 0 \<and> list_all (\<lambda>c. mIoType c = IO_RECV \<longrightarrow> mWsaBuf_len c = 0) (ss_contexts s)"
proof -
  note bal = ss_reachable_bal [OF assms]
  then have "list_all context_ok (ss_contexts s)" by (simp add: ss_bal_def)
  with ReleaseRef_bal(1) [of k s] bal show ?thesis
    by (auto simp: ss_bal_def ss_bufs_def list_all_iff context_ok_def DeleteIoContext_def)
qed

text \<open>After a receive is posted, \<open>DisconnectCompletion\<close> gives up the context's reference, and the context can no
  longer be deleted.\<close>

theorem refs_match_contexts_witness:
  "\<exists>s s' c. ss_PostRecv WsaOk demo_session = Inr (True, s) \<and> ss_mRefCount s = 1 \<and>
     ss_DisconnectCompletion DR_NONE s = Inr s' \<and> ss_contexts s' = [c] \<and> DeleteIoContext (Some c) s' = Inl CrashAssert"
proof -
  have free: "fst (GetFreeSpaceSize (ss_mRecvBuffer demo_session)) = 16"
    by (simp add: demo_session_def Session_new_def CircularBuffer_new_def GetFreeSpaceSize_def GetAFreeSpace_def)
  obtain s c where s: "ss_PostRecv WsaOk demo_session = Inr (True, s)" "ss_contexts s = [c]" "ss_mRefCount s = 1"
    using PostRecv_ok [OF ss_inv_refs [OF ss_reachable_inv [OF demo_session(1)]] demo_session(5), of WsaOk]
      demo_session(2,3) free by (simp add: ss_adds_def)
  obtain s' where s': "ss_DisconnectCompletion DR_NONE s = Inr s'" "ss_contexts s' = [c]" "ss_mRefCount s' = 0"
    using s(2,3) by (simp add: ss_DisconnectCompletion_def ss_ReleaseRef_def)
  note run = ss_reachable.disconnected [OF ss_reachable.postRecv [OF demo_session(1) s(1)] s'(1)]
  show ?thesis using refs_match_contexts [OF run] s s' by auto
qed

text \<open>C25: As long as all references belong to contexts (balance 0): deleting any allocated context succeeds, gives up one
  reference, and runs \<open>OnRelease\<close> exactly when it was the last one.\<close>

theorem last_context_runs_OnRelease:
  assumes "ss_reachable 0 s" and "c \<in> set (ss_contexts s)"
  shows "\<exists>s'. DeleteIoContext (Some c) s = Inr s' \<and> ss_contexts s' = remove1 c (ss_contexts s) \<and>
    unat (ss_mRefCount s') = length (ss_contexts s') \<and>
    ss_on_release s' = ss_on_release s + (if ss_contexts s' = [] then 1 else 0)"
proof -
  have "DeleteIoContext (Some c) s = Inr (ss_drop c s)" "ss_refs (ss_drop c s)"
    using DeleteIoContext_ok [OF ss_inv_refs [OF ss_reachable_inv [OF assms(1)]] assms(2)] by simp_all
  moreover from this have "unat (ss_mRefCount (ss_drop c s)) = length (ss_contexts (ss_drop c s))"
    by (simp add: ss_refs_def unat_of_nat_small)
  moreover have "remove1 c (ss_contexts s) = [] \<longleftrightarrow> length (ss_contexts s) = 1"
  proof -
    have "length (remove1 c (ss_contexts s)) = length (ss_contexts s) - 1" "0 < length (ss_contexts s)"
      using assms(2) by (auto simp: length_remove1)
    then show ?thesis unfolding length_0_conv [symmetric] by linarith
  qed
  ultimately show ?thesis by (intro exI [of _ "ss_drop c s"]) (simp add: ss_drop_def)
qed

theorem last_context_runs_OnRelease_witness:
  "\<exists>s s'. ss_PreRecv WsaOk demo_session = Inr (True, s) \<and>
     DeleteIoContext (Some ((new_context IO_RECV_ZERO)\<lparr>submitted := True\<rparr>)) s = Inr s' \<and>
     ss_contexts s' = [] \<and> ss_on_release s' = 1"
proof -
  define c where "c = (new_context IO_RECV_ZERO)\<lparr>submitted := True\<rparr>"
  have p: "ss_PreRecv WsaOk demo_session = Inr (True, ss_adds c demo_session)"
    using PreRecv_ok [OF ss_inv_refs [OF ss_reachable_inv [OF demo_session(1)]] demo_session(5), of WsaOk] demo_session(2)
    by (simp add: c_def)
  have "\<exists>s'. DeleteIoContext (Some c) (ss_adds c demo_session) = Inr s' \<and>
      ss_contexts s' = remove1 c (ss_contexts (ss_adds c demo_session)) \<and>
      unat (ss_mRefCount s') = length (ss_contexts s') \<and>
      ss_on_release s' = ss_on_release (ss_adds c demo_session) + (if ss_contexts s' = [] then 1 else 0)"
    by (rule last_context_runs_OnRelease [OF ss_reachable.preRecv [OF demo_session(1) p]]) simp
  moreover have "ss_on_release (ss_adds c demo_session) = 0" by (simp add: ss_adds_def demo_session(6))
  ultimately show ?thesis using p demo_session(3) by (auto simp: c_def)
qed

fun post_all :: "byte list list \<Rightarrow> Session \<Rightarrow> Session result" where
  "post_all [] s = Inr s"
| "post_all (data # ds) s = bindR (ss_PostSend data s) (\<lambda>(_, s). post_all ds s)"

lemma post_all_inflight:
  assumes "ss_inv s" and "ss_IsConnected s" and "n \<noteq> 0" and "unat n \<le> unat (GetContiguiousBytes (ss_mSendBuffer s))"
    and "list_all (\<lambda>d. length d < 2 ^ 32) ds"
  shows "\<exists>b. post_all ds s = Inr (s\<lparr>ss_mSendBuffer := b\<rparr>) \<and> cb_inv b \<and>
    GetBufferStart b = GetBufferStart (ss_mSendBuffer s) \<and> buffer_peek n b = buffer_peek n (ss_mSendBuffer s) \<and>
    unat n \<le> unat (GetContiguiousBytes b)"
  using assms
proof (induction ds arbitrary: s)
  case Nil
  then show ?case by (intro exI [of _ "ss_mSendBuffer s"]) (simp add: ss_inv_def)
next
  case (Cons d ds)
  have cb: "cb_inv (ss_mSendBuffer s)" and lock: "ss_mSendBufferLock s = 0"
    using Cons.prems(1) by (simp_all add: ss_inv_def)
  have len: "length d < 2 ^ 32" using Cons.prems(5) by simp
  obtain acc del b where st: "cb_step (Put d) (ss_mSendBuffer s) = Inr (acc, del, b)"
    using Put_fifo [OF cb len] by blast
  note inflight = cb_step_Put_inflight [OF cb Cons.prems(3,4) st len]
  define s1 where "s1 = s\<lparr>ss_mSendBuffer := b\<rparr>"
  have s1: "ss_inv s1" "ss_IsConnected s1"
    using ss_inv_buffers [OF Cons.prems(1) cb_step_Put_contents(1) [OF cb len st]] Cons.prems(2)
    by (simp_all add: s1_def ss_IsConnected_def)
  have "unat n \<le> unat (GetContiguiousBytes (ss_mSendBuffer s1))"
    using inflight Cons.prems(4) by (simp add: s1_def)
  from Cons.IH [OF s1 Cons.prems(3) this] Cons.prems(5) obtain b2 where
    "post_all ds s1 = Inr (s1\<lparr>ss_mSendBuffer := b2\<rparr>)" "cb_inv b2"
    "GetBufferStart b2 = GetBufferStart b" "buffer_peek n b2 = buffer_peek n b"
    "unat n \<le> unat (GetContiguiousBytes b2)" by (auto simp: s1_def)
  moreover have "post_all (d # ds) s = post_all ds s1"
    using PostSend_ok [OF lock Cons.prems(2), of d] st by (simp add: s1_def)
  ultimately show ?case using inflight by (intro exI [of _ b2]) (simp add: s1_def)
qed

text \<open>C12: In a session whose references belong to contexts: while a send is in flight, any number of further \<open>PostSend\<close> calls leaves the bytes the kernel was
  given where they are, and a second \<open>FlushSend\<close> posts nothing.\<close>

theorem inflight_send_is_stable:
  assumes "ss_reachable 0 s" and "ss_IsConnected s" and "ss_room s" and "ss_mSendPendingCount s = 0"
    and "cb_contents (ss_mSendBuffer s) \<noteq> []" and "list_all (\<lambda>d. length d < 2 ^ 32) ds"
  shows "\<exists>s1 s2. ss_FlushSend WsaOk s = Inr (True, s1) \<and> post_all ds s1 = Inr s2 \<and>
    ss_mSendPendingCount s2 = 1 \<and>
    (let c = hd (ss_contexts s1) in
     mWsaBuf_buf c = GetBufferStart (ss_mSendBuffer s2) \<and>
     buffer_peek (mWsaBuf_len c) (ss_mSendBuffer s2) =
       Inr (take (unat (mWsaBuf_len c)) (cb_contents (ss_mSendBuffer s)))) \<and>
    (\<forall>wsa. ss_FlushSend wsa s2 = Inr (False, s2))"
proof -
  note inv = ss_reachable_inv [OF assms(1)]
  have cb: "cb_inv (ss_mSendBuffer s)" using inv by (simp add: ss_inv_def)
  define n where "n = GetContiguiousBytes (ss_mSendBuffer s)"
  have n0: "n \<noteq> 0" using cbq.contig_pos [OF cb assms(5)] by (simp add: n_def)
  define c where "c = (flush_context s)\<lparr>submitted := True\<rparr>"
  define s1 where "s1 = (ss_adds c s)\<lparr>ss_mSendPendingCount := 1\<rparr>"
  have f: "ss_FlushSend WsaOk s = Inr (True, s1)"
    using FlushSend_ok [OF inv assms(3,2), of WsaOk] n0 assms(4) by (simp add: n_def s1_def c_def)
  have s1: "ss_inv s1" "ss_IsConnected s1" "ss_mSendBuffer s1 = ss_mSendBuffer s"
    using ss_inv_adds [OF inv assms(3), of c] assms(2) by (simp_all add: s1_def c_def ss_IsConnected_def)
  obtain b where b: "post_all ds s1 = Inr (s1\<lparr>ss_mSendBuffer := b\<rparr>)" "cb_inv b"
    "GetBufferStart b = GetBufferStart (ss_mSendBuffer s)" "buffer_peek n b = buffer_peek n (ss_mSendBuffer s)"
    "unat n \<le> unat (GetContiguiousBytes b)"
    using post_all_inflight [OF s1(1,2) n0 _ assms(6)] s1(3) by (auto simp: n_def)
  define s2 where "s2 = s1\<lparr>ss_mSendBuffer := b\<rparr>"
  have "ss_FlushSend wsa s2 = Inr (False, s2)" for wsa
    using s1(1,2) by (intro FlushSend_busy) (simp_all add: s2_def s1_def ss_inv_def ss_IsConnected_def)
  moreover have "mWsaBuf_len c = n" "mWsaBuf_buf c = GetBufferStart (ss_mSendBuffer s)"
    by (simp_all add: c_def flush_context_def n_def)
  moreover have "hd (ss_contexts s1) = c" "ss_mSendPendingCount s2 = 1" by (simp_all add: s1_def s2_def)
  ultimately show ?thesis
    using f b(1,3,4) cbq.peek_ok [OF cb, of n]
    by (intro exI [of _ s1] exI [of _ s2]) (simp add: s2_def n_def)
qed

definition loaded_session :: Session where
  "loaded_session = demo_session\<lparr>ss_mSendBuffer := Commit 2 ((CircularBuffer_new (\<lambda>_. 0) 16)
     \<lparr>mBuffer := [7, 8, 0, 0, 0, 0, 0, 0, 0, 0, 0, 0, 0, 0, 0, 0]\<rparr>)\<rparr>"

lemma loaded_session: "ss_PostSend [7, 8] demo_session = Inr (True, loaded_session)" "ss_reachable 0 loaded_session"
  "ss_IsConnected loaded_session" "ss_room loaded_session" "ss_mSendPendingCount loaded_session = 0"
  "cb_contents (ss_mSendBuffer loaded_session) = [7, 8]" "ss_contexts loaded_session = []"
  "ss_mSendBufferLock loaded_session = 0" "ss_on_release loaded_session = 0"
proof -
  have lock: "ss_mSendBufferLock demo_session = 0"
    using ss_reachable_inv [OF demo_session(1)] by (simp add: ss_inv_def)
  show p: "ss_PostSend [7, 8] demo_session = Inr (True, loaded_session)"
    by (simp add: PostSend_ok [OF lock demo_session(2)] demo_session(7) cb_step_def GetFreeSpaceSize_def
        GetAFreeSpace_def CircularBuffer_new_def buffer_fill_def GetBuffer_def memcpy_def overwrite_def
        loaded_session_def Commit_def upt_rec)
  show "ss_reachable 0 loaded_session" by (rule ss_reachable.postSend [OF demo_session(1) _ p]) simp
  show "cb_contents (ss_mSendBuffer loaded_session) = [7, 8]"
    by (simp add: loaded_session_def cb_contents_def Commit_def CircularBuffer_new_def segment_def)
qed (use demo_session(2-6) ss_reachable_inv [OF demo_session(1)]
    in \<open>simp_all add: loaded_session_def ss_IsConnected_def ss_room_def ss_inv_def\<close>)

theorem inflight_send_is_stable_witness:
  "\<exists>s1 s2. ss_FlushSend WsaOk loaded_session = Inr (True, s1) \<and> post_all [[1], [2, 3]] s1 = Inr s2 \<and>
     mWsaBuf_buf (hd (ss_contexts s1)) = GetBufferStart (ss_mSendBuffer s2) \<and>
     ss_FlushSend WsaOk s2 = Inr (False, s2)"
  using inflight_send_is_stable [OF loaded_session(2-5), of "[[1], [2, 3]]"] loaded_session(6)
  by (auto simp: Let_def)



text \<open>\<open>DisconnectRequest\<close> never asks the socket to disconnect: it only marks the session disconnected, and
  the context it makes is deleted again at once, so no disconnect ever completes.\<close>

lemma DisconnectRequest_posts_nothing:
  assumes "ss_reachable 0 s" and "ss_room s" and "lastError \<noteq> WSA_IO_PENDING"
  shows "\<exists>s'. ss_DisconnectRequest lastError dr s = Inr s' \<and> \<not> ss_IsConnected s' \<and>
    ss_contexts s' = ss_contexts s \<and> ss_mRefCount s' = ss_mRefCount s \<and> ss_on_disconnect s' = ss_on_disconnect s"
  using DisconnectRequest_ok [OF ss_inv_refs [OF ss_reachable_inv [OF assms(1)]] assms(2), of lastError dr] assms(3)
  by (simp add: ss_IsConnected_def) (simp add: ss_after_reject_def)

text \<open>The worker drops completed sends: it neither removes the sent bytes nor lowers the pending count nor
  deletes the context, and from then on \<open>FlushSend\<close> posts nothing more.\<close>

lemma worker_never_drains:
  assumes "ss_reachable 0 s" and "ss_IsConnected s" and "sint (ss_mSendPendingCount s) > 0"
    and "gqcs_context packet = Some c" and "mIoType c = IO_SEND" and "gqcs_ret packet \<noteq> 0" and "dwTransferred packet \<noteq> 0"
  shows "\<exists>s'. DoIocpJob e packet s = Inr s' \<and> s' = s \<and> (\<forall>wsa. ss_FlushSend wsa s' = Inr (False, s'))"
proof -
  have "ss_mSendBufferLock s = 0" using ss_reachable_inv [OF assms(1)] by (simp add: ss_inv_def)
  then show ?thesis using assms(2-) FlushSend_busy [of s] by (simp add: DoIocpJob_def)
qed

text \<open>C26: When the session is connected and the send buffer reports enough room for the contiguous front of the received
  bytes, \<open>EchoBack\<close> moves exactly that front to the end of the send stream, and the front is not empty unless nothing
  is stored; otherwise it moves nothing. In both cases no byte is lost or duplicated and no context changes.\<close>

theorem EchoBack_moves_bytes:
  assumes "ss_inv s"
  shows "let recv = cb_contents (ss_mRecvBuffer s); send = cb_contents (ss_mSendBuffer s);
        len = unat (GetContiguiousBytes (ss_mRecvBuffer s));
        fits = ss_IsConnected s \<and> len \<le> unat (fst (GetFreeSpaceSize (ss_mSendBuffer s)))
    in (\<exists>s'. EchoBack s = Inr s' \<and> ss_inv s' \<and>
      cb_contents (ss_mRecvBuffer s') = (if fits then drop len recv else recv) \<and>
      cb_contents (ss_mSendBuffer s') = (if fits then send @ take len recv else send) \<and>
      ss_contexts s' = ss_contexts s \<and> ss_mRefCount s' = ss_mRefCount s) \<and>
      len \<le> length recv \<and> (len = 0 \<longleftrightarrow> recv = [])"
proof -
  have cb: "cb_inv (ss_mRecvBuffer s)" using assms by (simp add: ss_inv_def)
  obtain s' b q where e: "EchoBack s = Inr s'" "s' = s\<lparr>ss_mSendBuffer := b, ss_mRecvBuffer := q\<rparr>" "cb_inv b" "cb_inv q"
    "cb_contents q = drop (if ss_IsConnected s \<and> unat (GetContiguiousBytes (ss_mRecvBuffer s))
         \<le> unat (fst (GetFreeSpaceSize (ss_mSendBuffer s))) then unat (GetContiguiousBytes (ss_mRecvBuffer s)) else 0)
       (cb_contents (ss_mRecvBuffer s))"
    "cb_contents b = cb_contents (ss_mSendBuffer s) @
       take (if ss_IsConnected s \<and> unat (GetContiguiousBytes (ss_mRecvBuffer s))
         \<le> unat (fst (GetFreeSpaceSize (ss_mSendBuffer s))) then unat (GetContiguiousBytes (ss_mRecvBuffer s)) else 0)
       (cb_contents (ss_mRecvBuffer s))"
    using EchoBack_result [OF ss_inv_bufs [OF assms]] by blast
  moreover have "ss_inv s'" using assms e(2-4) by (simp add: ss_inv_def ss_refs_def)
  ultimately show ?thesis
    using cbq.contig_le [OF cb] cbq.contig_zero_iff [OF cb] by (simp add: Let_def unat_eq_0)
qed

theorem EchoBack_moves_bytes_witness:
  "\<exists>s'. EchoBack (demo_session\<lparr>ss_mRecvBuffer := ss_mSendBuffer loaded_session\<rparr>) = Inr s' \<and>
     cb_contents (ss_mRecvBuffer s') = [] \<and> cb_contents (ss_mSendBuffer s') = [7, 8]"
proof -
  have "ss_inv (demo_session\<lparr>ss_mRecvBuffer := ss_mSendBuffer loaded_session\<rparr>)"
    using ss_reachable_inv [OF demo_session(1)] ss_reachable_inv [OF loaded_session(2)]
    by (simp add: ss_inv_def ss_refs_def)
  moreover have "cb_contents (ss_mSendBuffer demo_session) = []" "unat (fst (GetFreeSpaceSize (ss_mSendBuffer demo_session))) = 16"
    by (simp_all add: demo_session(7) cb_new_contents) (simp add: CircularBuffer_new_def GetFreeSpaceSize_def GetAFreeSpace_def)
  moreover have "GetContiguiousBytes (ss_mSendBuffer loaded_session) = 2"
    by (simp add: loaded_session_def Commit_def CircularBuffer_new_def GetContiguiousBytes_def)
  ultimately show ?thesis
    using EchoBack_moves_bytes [of "demo_session\<lparr>ss_mRecvBuffer := ss_mSendBuffer loaded_session\<rparr>"]
      loaded_session(6) demo_session(2) by (auto simp: Let_def ss_IsConnected_def)
qed

end
