(* ===== verification/MssqlServer.thy ===== *)
theory MssqlServer
  imports MssqlSession
begin

text \<open>
  \<open>win-iocp-mssql-usage/IocpManager.hpp\<close>, \<open>ServerSession.hpp\<close> and the loop of \<open>WorkerThread.hpp\<close>: start-up
  of the second server. Answers of the operating system are arguments, as in \<open>IocpManager\<close>.
  \<open>GClientSessionManager\<close> is not in the sources: what its \<open>AcceptClientSessions\<close> answers to the i-th
  call is the parameter \<open>accepts\<close>.
\<close>

section \<open>The worker thread\<close>

record WorkerThread =
  w_mThreadHandle :: nat
  w_mCompletionPort :: nat
  w_mWorkerThreadId :: "32 word"

definition WorkerThread_new :: "32 word \<Rightarrow> nat \<Rightarrow> nat \<Rightarrow> WorkerThread" where
  "WorkerThread_new workerThreadId hThread hCompletionPort =
     \<lparr>w_mThreadHandle = hThread, w_mCompletionPort = hCompletionPort, w_mWorkerThreadId = workerThreadId\<rparr>"

definition GetHandle :: "WorkerThread \<Rightarrow> nat" where
  "GetHandle w = w_mThreadHandle w"

text \<open>The destructor closes the thread's handle; the list is the handles it closes.\<close>

definition WorkerThread_end :: "WorkerThread \<Rightarrow> nat list" where
  "WorkerThread_end w = [w_mThreadHandle w]"

text \<open>The sessions are a store indexed by their identity. One job is the owner of the context that the k-th
  dequeue returns, the last error and the packet. \<open>DoSendJob\<close> has an empty body.\<close>

type_synonym job = "nat \<times> DWORD \<times> completion"

definition do_job :: "job \<Rightarrow> (nat \<Rightarrow> Session) \<Rightarrow> (nat \<Rightarrow> Session) result" where
  "do_job j ss = (case j of (remote, lastError, packet) \<Rightarrow>
     bindR (DoIocpJob lastError packet (ss remote)) (\<lambda>s. Inr (ss(remote := s))))"

definition DoSendJob :: "(nat \<Rightarrow> Session) \<Rightarrow> (nat \<Rightarrow> Session)" where
  "DoSendJob ss = ss"

text \<open>\<open>Run\<close> loops without an exit: it ends only when a job faults. Not ending is \<open>None\<close>.\<close>

definition run_job :: "(nat \<Rightarrow> job) \<Rightarrow> nat \<Rightarrow> (nat \<Rightarrow> Session) \<Rightarrow> (nat \<Rightarrow> Session) result" where
  "run_job jobs k ss = bindR (do_job (jobs k) ss) (\<lambda>ss. Inr (DoSendJob ss))"

definition Run :: "(nat \<Rightarrow> job) \<Rightarrow> (nat \<Rightarrow> Session) \<Rightarrow> DWORD result option" where
  "Run jobs ss = map_option Inl (forever (run_job jobs) 0 ss)"

section \<open>The manager\<close>

definition MAX_IOTHREAD :: nat where "MAX_IOTHREAD = 8"

text \<open>A pointer to a worker is null or an address together with the object there. The three static function
  pointers are null until \<open>Initailze\<close> has fetched them.\<close>

type_synonym worker_ptr = "(nat \<times> WorkerThread) option"

record MssqlIocpManager =
  ms_mCompletionPort :: nat
  ms_mIoThreadCount :: "32 word"
  ms_mListenSocket :: "32 word"
  ms_mWorkerThread :: "worker_ptr list"
  mFnDisconnectEx :: "nat option"
  mFnAcceptEx :: "nat option"
  mFnConnectEx :: "nat option"

definition MssqlIocpManager_new :: MssqlIocpManager where
  "MssqlIocpManager_new = \<lparr>ms_mCompletionPort = 0, ms_mIoThreadCount = 2, ms_mListenSocket = 0,
     ms_mWorkerThread = replicate MAX_IOTHREAD None,
     mFnDisconnectEx = None, mFnAcceptEx = None, mFnConnectEx = None\<rparr>"

text \<open>What the system calls of \<open>Initailze\<close> answer; a successful \<open>WSAIoctl\<close> stores a function pointer.\<close>

record ms_init_calls =
  si_dwNumberOfProcessors :: "32 word"
  ms_WSAStartup_ret :: int
  ms_created_port :: nat
  ms_created_socket :: "32 word"
  ms_associated_port :: nat
  ms_bind_ok :: bool
  ioctl_DisconnectEx :: "nat option"
  ioctl_AcceptEx :: "nat option"
  ioctl_ConnectEx :: "nat option"

definition Initailze :: "ms_init_calls \<Rightarrow> MssqlIocpManager \<Rightarrow> bool \<times> MssqlIocpManager" where
  "Initailze calls im =
     (let im = im\<lparr>ms_mIoThreadCount := min (si_dwNumberOfProcessors calls) (of_nat MAX_IOTHREAD)\<rparr> in
      if ms_WSAStartup_ret calls \<noteq> 0 then (False, im)
      else let im = im\<lparr>ms_mCompletionPort := ms_created_port calls\<rparr> in
      if ms_mCompletionPort im = 0 then (False, im)
      else let im = im\<lparr>ms_mListenSocket := ms_created_socket calls\<rparr> in
      if ms_mListenSocket im = - 1 then (False, im)
      else if ms_associated_port calls \<noteq> ms_mCompletionPort im then (False, im)
      else if \<not> ms_bind_ok calls then (False, im)
      else if ioctl_DisconnectEx calls = None then (False, im)
      else let im = im\<lparr>mFnDisconnectEx := ioctl_DisconnectEx calls\<rparr> in
      if ioctl_AcceptEx calls = None then (False, im)
      else let im = im\<lparr>mFnAcceptEx := ioctl_AcceptEx calls\<rparr> in
      if ioctl_ConnectEx calls = None then (False, im)
      else (True, im\<lparr>mFnConnectEx := ioctl_ConnectEx calls\<rparr>))"

text \<open>The global wrappers call through the pointers. \<open>call\<close> is what the function at an address answers.\<close>

definition call_pointer :: "(nat \<Rightarrow> bool) \<Rightarrow> nat option \<Rightarrow> bool result" where
  "call_pointer call fn = (case fn of None \<Rightarrow> Inl NullDeref | Some p \<Rightarrow> Inr (call p))"

definition DisconnectEx :: "(nat \<Rightarrow> bool) \<Rightarrow> MssqlIocpManager \<Rightarrow> bool result" where
  "DisconnectEx call im = call_pointer call (mFnDisconnectEx im)"

definition AcceptEx :: "(nat \<Rightarrow> bool) \<Rightarrow> MssqlIocpManager \<Rightarrow> bool result" where
  "AcceptEx call im = call_pointer call (mFnAcceptEx im)"

definition ConnectEx :: "(nat \<Rightarrow> bool) \<Rightarrow> MssqlIocpManager \<Rightarrow> bool result" where
  "ConnectEx call im = call_pointer call (mFnConnectEx im)"

text \<open>\<open>StartIoThreads\<close>: first every thread is created suspended and its worker stored, then every one is
  resumed. \<open>spawned i\<close> is the handle of the i-th thread, or \<open>None\<close>, and \<open>new_worker i\<close> the address of its
  worker; the result lists the handles that were resumed.\<close>

function create_threads ::
  "(nat \<Rightarrow> nat option) \<Rightarrow> (nat \<Rightarrow> nat) \<Rightarrow> nat \<Rightarrow> nat \<Rightarrow> nat \<Rightarrow> worker_ptr list \<Rightarrow>
     (bool \<times> worker_ptr list) result" where
  "create_threads spawned new_worker port i count workers =
     (if i < count then
        (case spawned i of
           None \<Rightarrow> Inr (False, workers)
         | Some hThread \<Rightarrow>
             bindR (store_slot (int i) (Some (new_worker i, WorkerThread_new (of_nat i) hThread port)) workers)
               (create_threads spawned new_worker port (Suc i) count))
      else Inr (True, workers))"
  by pat_completeness auto
termination
  by (relation "measure (\<lambda>(spawned, new_worker, port, i, count, workers). count - i)") auto

declare create_threads.simps [simp del]

function resume_threads :: "nat \<Rightarrow> nat \<Rightarrow> worker_ptr list \<Rightarrow> nat list result" where
  "resume_threads i count workers =
     (if i < count then
        bindR (load_slot (int i) workers) (\<lambda>w.
        case w of
          None \<Rightarrow> Inl NullDeref
        | Some (addr, worker) \<Rightarrow>
            bindR (resume_threads (Suc i) count workers) (\<lambda>hs. Inr (GetHandle worker # hs)))
      else Inr [])"
  by pat_completeness auto
termination
  by (relation "measure (\<lambda>(i, count, workers). count - i)") auto

declare resume_threads.simps [simp del]

definition ms_StartIoThreads ::
  "(nat \<Rightarrow> nat option) \<Rightarrow> (nat \<Rightarrow> nat) \<Rightarrow> MssqlIocpManager \<Rightarrow>
     (bool \<times> nat list \<times> MssqlIocpManager) result" where
  "ms_StartIoThreads spawned new_worker im =
     (let count = nat (sint (ms_mIoThreadCount im)) in
      bindR (create_threads spawned new_worker (ms_mCompletionPort im) 0 count (ms_mWorkerThread im)) (\<lambda>(ok, workers).
      let im = im\<lparr>ms_mWorkerThread := workers\<rparr> in
      if \<not> ok then Inr (False, [], im)
      else bindR (resume_threads 0 count workers) (\<lambda>resumed. Inr (True, resumed, im))))"

text \<open>\<open>Finalize\<close> passes the worker pointers themselves to \<open>CloseHandle\<close>; a null pointer is the handle 0.\<close>

definition pointer_value :: "worker_ptr \<Rightarrow> nat" where
  "pointer_value w = (case w of None \<Rightarrow> 0 | Some (addr, worker) \<Rightarrow> addr)"

function close_workers :: "nat \<Rightarrow> nat \<Rightarrow> worker_ptr list \<Rightarrow> shutdown_call list result" where
  "close_workers i count workers =
     (if i < count then
        bindR (load_slot (int i) workers) (\<lambda>w.
        bindR (close_workers (Suc i) count workers) (\<lambda>calls. Inr (CloseHandle (pointer_value w) # calls)))
      else Inr [])"
  by pat_completeness auto
termination
  by (relation "measure (\<lambda>(i, count, workers). count - i)") auto

declare close_workers.simps [simp del]

definition ms_Finalize :: "MssqlIocpManager \<Rightarrow> shutdown_call list result" where
  "ms_Finalize im =
     bindR (close_workers 0 (nat (sint (ms_mIoThreadCount im))) (ms_mWorkerThread im)) (\<lambda>calls.
     Inr (calls @ [CloseHandle (ms_mCompletionPort im), WSACleanup]))"

partial_function (option) ms_accept_loop :: "(nat \<Rightarrow> bool) \<Rightarrow> nat \<Rightarrow> nat option" where
  "ms_accept_loop accepts i = (if accepts i then ms_accept_loop accepts (Suc i) else Some i)"

text \<open>The value of \<open>StartAccept\<close> is the number of times it sleeps between two calls.\<close>

definition ms_StartAccept :: "bool \<Rightarrow> (nat \<Rightarrow> bool) \<Rightarrow> nat option" where
  "ms_StartAccept listen_ok accepts = (if \<not> listen_ok then Some 0 else ms_accept_loop accepts 0)"

definition ms_GetCompletionPort :: "MssqlIocpManager \<Rightarrow> nat" where
  "ms_GetCompletionPort im = ms_mCompletionPort im"

definition ms_GetIoThreadCount :: "MssqlIocpManager \<Rightarrow> 32 word" where
  "ms_GetIoThreadCount im = ms_mIoThreadCount im"

text \<open>The entry point of a thread. It stores its parameter in \<open>LWorkerThread\<close> and then indexes the array with
  \<open>LWorkerThreadId\<close>, which nothing assigns. Neither variable is declared in the sources.\<close>

record thread_locals = io_thread_locals +
  LWorkerThread :: "32 word"
  LWorkerThreadId :: "32 word"
  LSendRequestSessionList :: "nat list"

definition IoWorkerThread ::
  "(nat \<Rightarrow> job) \<Rightarrow> (nat \<Rightarrow> Session) \<Rightarrow> MssqlIocpManager \<Rightarrow> 32 word \<Rightarrow> thread_locals \<Rightarrow>
     (thread_locals \<times> WorkerThread \<times> DWORD result option) result" where
  "IoWorkerThread jobs ss im lpParam locals =
     (let locals = locals\<lparr>tl_LThreadType := THREAD_IO_WORKER, LWorkerThread := lpParam, LSendRequestSessionList := []\<rparr> in
      bindR (load_slot (sint (LWorkerThreadId locals)) (ms_mWorkerThread im)) (\<lambda>w.
      case w of
        None \<Rightarrow> Inl NullDeref
      | Some (addr, worker) \<Rightarrow> Inr (locals, worker, Run jobs ss)))"

section \<open>Sessions to other servers\<close>

definition SERVER_BUFSIZE :: size_t where "SERVER_BUFSIZE = 65536 * 4"

record ServerSession =
  base_session :: Session
  mServerAddr :: string
  mPort :: "16 word"

definition ServerSession_new :: "(nat \<Rightarrow> byte) \<Rightarrow> nat \<Rightarrow> string \<Rightarrow> 16 word \<Rightarrow> ServerSession" where
  "ServerSession_new junk sock serverAddr port =
     \<lparr>base_session = Session_new junk sock SERVER_BUFSIZE SERVER_BUFSIZE, mServerAddr = serverAddr, mPort = port\<rparr>"

text \<open>\<open>ConnectRequest\<close>: after associating the socket with the port it reaches the end of the function without a
  return statement; its value is then indeterminate (\<open>None\<close>). \<open>bound\<close> is what \<open>bind\<close> answers for an address
  and a port. \<open>ConnectCompletion\<close> has an empty body.\<close>

definition ConnectRequest :: "(string \<Rightarrow> 16 word \<Rightarrow> bool) \<Rightarrow> ServerSession \<Rightarrow> bool option result" where
  "ConnectRequest bound s =
     (if ss_mConnected (base_session s) \<noteq> 0 then bindR (CRASH_ASSERT False) (\<lambda>_. Inr (Some False))
      else if \<not> bound (mServerAddr s) (mPort s) then Inr (Some False)
      else Inr None)"

definition ConnectCompletion :: "ServerSession \<Rightarrow> ServerSession" where
  "ConnectCompletion s = s"

section \<open>Lemmas\<close>

lemma create_threads_ok:
  assumes "count \<le> length workers"
  shows "\<exists>ok ws. create_threads spawned new_worker port i count workers = Inr (ok, ws) \<and> length ws = length workers \<and>
    (ok \<longleftrightarrow> (\<forall>j. i \<le> j \<and> j < count \<longrightarrow> spawned j \<noteq> None)) \<and>
    (ok \<longrightarrow> (\<forall>j < length workers. ws ! j = (if i \<le> j \<and> j < count
       then Some (new_worker j, WorkerThread_new (of_nat j) (the (spawned j)) port) else workers ! j)))"
  using assms
proof (induction spawned new_worker port i count workers rule: create_threads.induct)
  case (1 spawned new_worker port i count workers)
  show ?case
  proof (cases "i < count \<and> spawned i \<noteq> None")
    case True
    then obtain h where h: "spawned i = Some h" by blast
    define ws1 where "ws1 = workers[i := Some (new_worker i, WorkerThread_new (of_nat i) h port)]"
    have st: "store_slot (int i) (Some (new_worker i, WorkerThread_new (of_nat i) h port)) workers = Inr ws1"
      using True 1(2) by (simp add: store_slot_def ws1_def)
    obtain ok ws where ws: "create_threads spawned new_worker port (Suc i) count ws1 = Inr (ok, ws)"
      "length ws = length workers" "ok \<longleftrightarrow> (\<forall>j. Suc i \<le> j \<and> j < count \<longrightarrow> spawned j \<noteq> None)"
      "ok \<longrightarrow> (\<forall>j < length workers. ws ! j = (if Suc i \<le> j \<and> j < count
         then Some (new_worker j, WorkerThread_new (of_nat j) (the (spawned j)) port) else ws1 ! j))"
      using 1(1) [OF _ h, of ws1] True 1(2) by (auto simp: ws1_def)
    have "create_threads spawned new_worker port i count workers = Inr (ok, ws)"
      using True h st ws(1) by (simp add: create_threads.simps [of spawned new_worker port i])
    moreover have "ok \<longleftrightarrow> (\<forall>j. i \<le> j \<and> j < count \<longrightarrow> spawned j \<noteq> None)"
    proof -
      have "i \<le> j \<and> j < count \<longleftrightarrow> j = i \<or> Suc i \<le> j \<and> j < count" for j using True by auto
      then show ?thesis using ws(3) True by auto
    qed
    ultimately show ?thesis using ws(2,4) True h 1(2) by (auto simp: ws1_def nth_list_update Suc_le_eq)
  next
    case False
    then show ?thesis by (auto simp: create_threads.simps [of spawned new_worker port i] split: option.splits)
  qed
qed

lemma resume_threads_ok:
  assumes "count \<le> length workers" and "\<forall>j. i \<le> j \<and> j < count \<longrightarrow> workers ! j \<noteq> None"
  shows "resume_threads i count workers = Inr (map (\<lambda>j. GetHandle (snd (the (workers ! j)))) [i..<count])"
  using assms
proof (induction i count workers rule: resume_threads.induct)
  case (1 i count workers)
  show ?case
  proof (cases "i < count")
    case True
    then obtain a h where h: "workers ! i = Some (a, h)" using 1(3) by auto
    have "load_slot (int i) workers = Inr (Some (a, h))" using True 1(2) h by (simp add: load_slot_def)
    then show ?thesis
      using True 1 h by (simp add: resume_threads.simps [of i] upt_conv_Cons)
  qed (simp add: resume_threads.simps [of i])
qed

lemma close_workers_ok:
  "count \<le> length workers \<Longrightarrow>
    close_workers i count workers = Inr (map (\<lambda>j. CloseHandle (pointer_value (workers ! j))) [i..<count])"
proof (induction i count workers rule: close_workers.induct)
  case (1 i count workers)
  then show ?case
    by (cases "i < count") (simp_all add: close_workers.simps [of i] load_slot_def upt_conv_Cons)
qed

text \<open>What a successful \<open>Initailze\<close> leaves, and what \<open>StartIoThreads\<close> makes of it.\<close>

definition worker_count :: "ms_init_calls \<Rightarrow> nat" where
  "worker_count calls = min (unat (si_dwNumberOfProcessors calls)) 8"

lemma Initailze_counts:
  assumes "Initailze calls MssqlIocpManager_new = (True, im)"
  shows "nat (sint (ms_mIoThreadCount im)) = worker_count calls" "length (ms_mWorkerThread im) = 8"
proof -
  have im: "ms_mIoThreadCount im = min (si_dwNumberOfProcessors calls) 8"
    using assms
    by (auto simp: Initailze_def Let_def MAX_IOTHREAD_def MssqlIocpManager_new_def split: if_splits)
  have "unat (ms_mIoThreadCount im) = worker_count calls"
    by (simp add: im worker_count_def min_def word_le_nat_alt)
  then have "ms_mIoThreadCount im = of_nat (worker_count calls)" by (metis of_nat_unat ucast_id)
  moreover have "worker_count calls \<le> 8" by (simp add: worker_count_def)
  ultimately show "nat (sint (ms_mIoThreadCount im)) = worker_count calls"
    by (simp add: signed_of_nat signed_take_bit_int_eq_self)
  show "length (ms_mWorkerThread im) = 8"
    using assms
    by (auto simp: Initailze_def Let_def MAX_IOTHREAD_def MssqlIocpManager_new_def split: if_splits)
qed

lemma StartIoThreads_cases:
  assumes "Initailze calls MssqlIocpManager_new = (True, im)"
  shows "\<exists>ws. length ws = 8 \<and>
    (if \<forall>j < worker_count calls. spawned j \<noteq> None
     then ms_StartIoThreads spawned new_worker im =
         Inr (True, map (the \<circ> spawned) [0..<worker_count calls], im\<lparr>ms_mWorkerThread := ws\<rparr>) \<and>
       (\<forall>j < worker_count calls.
          ws ! j = Some (new_worker j, WorkerThread_new (of_nat j) (the (spawned j)) (ms_mCompletionPort im)))
     else ms_StartIoThreads spawned new_worker im = Inr (False, [], im\<lparr>ms_mWorkerThread := ws\<rparr>))"
proof -
  define n where "n = worker_count calls"
  note c = Initailze_counts [OF assms, folded n_def]
  have n8: "n \<le> 8" by (simp add: n_def worker_count_def)
  obtain ok ws where ws: "create_threads spawned new_worker (ms_mCompletionPort im) 0 n (ms_mWorkerThread im) = Inr (ok, ws)"
    "length ws = 8" "ok \<longleftrightarrow> (\<forall>j < n. spawned j \<noteq> None)"
    "ok \<longrightarrow> (\<forall>j < 8. ws ! j = (if j < n
       then Some (new_worker j, WorkerThread_new (of_nat j) (the (spawned j)) (ms_mCompletionPort im))
       else ms_mWorkerThread im ! j))"
    using create_threads_ok [of n "ms_mWorkerThread im" spawned new_worker "ms_mCompletionPort im" 0] n8 c(2) by auto
  show ?thesis
  proof (cases ok)
    case True
    have r: "resume_threads 0 n ws = Inr (map (the \<circ> spawned) [0..<n])"
      using resume_threads_ok [of n ws 0] ws True n8 by (simp add: GetHandle_def WorkerThread_new_def)
    show ?thesis
      unfolding n_def [symmetric] using True ws r n8 c(1)
      by (intro exI [of _ ws]) (auto simp: ms_StartIoThreads_def)
  next
    case False
    then show ?thesis
      unfolding n_def [symmetric] using ws c(1) by (intro exI [of _ ws]) (auto simp: ms_StartIoThreads_def)
  qed
qed

text \<open>The accept loop leaves at the first refusal.\<close>

lemma ms_accept_loop_ends:
  "\<not> accepts n \<Longrightarrow> i \<le> n \<Longrightarrow> (\<And>j. i \<le> j \<Longrightarrow> j < n \<Longrightarrow> accepts j) \<Longrightarrow> ms_accept_loop accepts i = Some n"
proof (induction "n - i" arbitrary: i)
  case 0
  then show ?case by (simp add: ms_accept_loop.simps [of accepts i])
next
  case (Suc d)
  then have "accepts i" "ms_accept_loop accepts (Suc i) = Some n" by simp_all
  then show ?case by (simp add: ms_accept_loop.simps [of accepts i])
qed

lemma ms_accept_loop_refused: "ms_accept_loop accepts i = Some k \<Longrightarrow> \<not> accepts k"
  by (erule ms_accept_loop.raw_induct [rotated]) (auto split: if_splits)

section \<open>The worker loop as a sequence of jobs\<close>





section \<open>Properties of start-up and of the worker\<close>

definition start_calls :: ms_init_calls where
  "start_calls = \<lparr>si_dwNumberOfProcessors = 64, ms_WSAStartup_ret = 0, ms_created_port = 5,
     ms_created_socket = 3, ms_associated_port = 5, ms_bind_ok = True, ioctl_DisconnectEx = Some 11,
     ioctl_AcceptEx = Some 12, ioctl_ConnectEx = Some 13\<rparr>"

lemma start_calls: "\<exists>im. Initailze start_calls MssqlIocpManager_new = (True, im)" "worker_count start_calls = 8"
  by (simp_all add: Initailze_def start_calls_def Let_def worker_count_def)

text \<open>C27: After \<open>Initailze\<close> the worker array is never indexed out of range: at most eight threads are
  started. If every thread can be created, each one has its worker in the array and all are resumed in order; if
  one cannot, \<open>StartIoThreads\<close> fails and resumes none.\<close>

theorem worker_array_in_bounds:
  assumes "Initailze calls MssqlIocpManager_new = (True, im)"
  shows "\<exists>ok resumed im'. ms_StartIoThreads spawned new_worker im = Inr (ok, resumed, im') \<and>
    length (ms_mWorkerThread im') = 8 \<and> length resumed \<le> 8 \<and>
    (if list_all (\<lambda>i. spawned i \<noteq> None) [0..<min (unat (si_dwNumberOfProcessors calls)) 8]
     then ok \<and> resumed = map (the \<circ> spawned) [0..<min (unat (si_dwNumberOfProcessors calls)) 8] \<and>
       map (GetHandle \<circ> snd \<circ> the) (take (length resumed) (ms_mWorkerThread im')) = resumed
     else \<not> ok \<and> resumed = [])"
proof -
  define n where "n = worker_count calls"
  have n8: "n \<le> 8" by (simp add: n_def worker_count_def)
  have all: "list_all (\<lambda>i. spawned i \<noteq> None) [0..<n] \<longleftrightarrow> (\<forall>j < n. spawned j \<noteq> None)" by (auto simp: list_all_iff)
  obtain ws where ws: "length ws = 8"
    "if \<forall>j < n. spawned j \<noteq> None
     then ms_StartIoThreads spawned new_worker im = Inr (True, map (the \<circ> spawned) [0..<n], im\<lparr>ms_mWorkerThread := ws\<rparr>) \<and>
       (\<forall>j < n. ws ! j = Some (new_worker j, WorkerThread_new (of_nat j) (the (spawned j)) (ms_mCompletionPort im)))
     else ms_StartIoThreads spawned new_worker im = Inr (False, [], im\<lparr>ms_mWorkerThread := ws\<rparr>)"
    using StartIoThreads_cases [OF assms, of spawned new_worker] unfolding n_def [symmetric] by blast
  have "map (GetHandle \<circ> snd \<circ> the) (take n ws) = map (the \<circ> spawned) [0..<n]" if "\<forall>j < n. spawned j \<noteq> None"
    using that ws n8 by (intro nth_equalityI) (auto simp: GetHandle_def WorkerThread_new_def)
  then show ?thesis
    unfolding worker_count_def [symmetric] n_def [symmetric] all using ws n8
    by (cases "\<forall>j < n. spawned j \<noteq> None") (simp_all only: if_True if_False, auto)
qed

theorem worker_array_in_bounds_witness:
  "\<exists>im ok resumed im'. Initailze start_calls MssqlIocpManager_new = (True, im) \<and>
     ms_StartIoThreads (\<lambda>i. Some (i + 100)) (\<lambda>i. 4096 + i) im = Inr (ok, resumed, im') \<and> ok \<and> length resumed = 8"
proof -
  obtain im where im: "Initailze start_calls MssqlIocpManager_new = (True, im)" using start_calls(1) by blast
  have "\<exists>ok resumed im'. ms_StartIoThreads (\<lambda>i. Some (i + 100)) (\<lambda>i. 4096 + i) im = Inr (ok, resumed, im') \<and> ok \<and>
      length resumed = 8"
    using worker_array_in_bounds [OF im, of "\<lambda>i. Some (i + 100)" "\<lambda>i. 4096 + i"] start_calls(2)
    by (auto simp: worker_count_def list_all_iff)
  with im show ?thesis by auto
qed

text \<open>\<open>Finalize\<close> after a complete start passes to \<open>CloseHandle\<close> the addresses of the worker objects and the
  completion port, in this order; the handles of the threads are not among its arguments unless an object happens to have
  such an address.\<close>

lemma Finalize_closes_objects:
  assumes "Initailze calls MssqlIocpManager_new = (True, im)"
    and "ms_StartIoThreads spawned new_worker im = Inr (True, resumed, im')"
  shows "ms_Finalize im' = Inr (map (\<lambda>i. CloseHandle (new_worker i)) [0..<length resumed] @
      [CloseHandle (ms_created_port calls), WSACleanup]) \<and> length resumed = min (unat (si_dwNumberOfProcessors calls)) 8"
proof -
  define n where "n = worker_count calls"
  have n8: "n \<le> 8" by (simp add: n_def worker_count_def)
  have port: "ms_mCompletionPort im = ms_created_port calls"
    using assms(1) by (auto simp: Initailze_def Let_def split: if_splits)
  obtain ws where ws: "length ws = 8" "im' = im\<lparr>ms_mWorkerThread := ws\<rparr>" "length resumed = n"
    "\<forall>j < n. ws ! j = Some (new_worker j, WorkerThread_new (of_nat j) (the (spawned j)) (ms_mCompletionPort im))"
    using StartIoThreads_cases [OF assms(1), of spawned new_worker] assms(2)
    unfolding n_def [symmetric] by (auto split: if_splits)
  have "map (\<lambda>j. CloseHandle (pointer_value (ws ! j))) [0..<n] = map (\<lambda>i. CloseHandle (new_worker i)) [0..<n]"
    using ws(4) by (simp add: pointer_value_def)
  then have "ms_Finalize im' = Inr (map (\<lambda>i. CloseHandle (new_worker i)) [0..<n] @
      [CloseHandle (ms_created_port calls), WSACleanup])"
    using Initailze_counts(1) [OF assms(1), folded n_def] close_workers_ok [of n ws 0] ws n8 port
    by (simp add: ms_Finalize_def)
  then show ?thesis using ws(3) by (simp add: n_def worker_count_def)
qed

text \<open>\<open>Initailze\<close> succeeds exactly when the wrapper \<open>ConnectEx\<close> can be called afterwards; then all three
  wrappers call the functions that were fetched, and after a failure \<open>ConnectEx\<close> dereferences a null pointer.\<close>

lemma extension_functions_ready:
  assumes "Initailze calls MssqlIocpManager_new = (ok, im)"
  shows "if ok
    then \<exists>d a c. ioctl_DisconnectEx calls = Some d \<and> ioctl_AcceptEx calls = Some a \<and> ioctl_ConnectEx calls = Some c \<and>
      DisconnectEx call im = Inr (call d) \<and> AcceptEx call im = Inr (call a) \<and> ConnectEx call im = Inr (call c)
    else ConnectEx call im = Inl NullDeref"
proof (cases ok)
  case True
  then show ?thesis
    using assms
    by (auto simp: Initailze_def Let_def DisconnectEx_def AcceptEx_def ConnectEx_def call_pointer_def split: if_splits)
next
  case False
  then show ?thesis
    using assms
    by (auto simp: Initailze_def Let_def ConnectEx_def call_pointer_def MssqlIocpManager_new_def split: if_splits)
qed

text \<open>\<open>StartAccept\<close> terminates exactly when \<open>listen\<close> fails or some call of \<open>AcceptClientSessions\<close> answers no,
  and then at the first such call; otherwise it never returns.\<close>

lemma StartAccept_ends_at_first_refusal:
  "ms_StartAccept listen_ok accepts =
     (if \<not> listen_ok then Some 0
      else if \<exists>n. \<not> accepts n then Some (LEAST n. \<not> accepts n)
      else None)"
proof (cases "\<exists>n. \<not> accepts n")
  case True
  define k where "k = (LEAST n. \<not> accepts n)"
  have "\<not> accepts k" "\<And>j. j < k \<Longrightarrow> accepts j"
    using LeastI_ex [OF True] not_less_Least [of _ "\<lambda>n. \<not> accepts n"] unfolding k_def by blast+
  then have "ms_accept_loop accepts 0 = Some k" by (intro ms_accept_loop_ends) simp_all
  then show ?thesis using True by (simp add: ms_StartAccept_def k_def)
next
  case False
  then show ?thesis
    using ms_accept_loop_refused [of accepts 0] by (cases "ms_accept_loop accepts 0") (auto simp: ms_StartAccept_def)
qed




text \<open>Every thread runs the worker named by \<open>LWorkerThreadId\<close>, whatever parameter it was started with.\<close>

lemma thread_ignores_parameter:
  "map_sum id snd (IoWorkerThread jobs ss im i locals) = map_sum id snd (IoWorkerThread jobs ss im j locals)"
  by (simp add: IoWorkerThread_def Let_def load_slot_def split: option.splits)

end
