(* ===== verification/Guarded_Threads.thy ===== *)
theory Guarded_Threads
  imports FastSpinLock
begin

text \<open>
  Threads whose operations run under a \<open>FastSpinlockGuard\<close>. The lock is the interleaved lock of
  \<open>FastSpinLock\<close>, with every read and interlocked addition of its flag a step of its own; what the
  client does between the constructor and the destructor of the guard is a sequence of statements
  on the shared data, one step each. The locale \<open>guarded_client\<close> states what a client provides (its
  statements, run without interruption, compute an operation that keeps an invariant) and proves
  once what the lock gives in return: the interleaved calls have the effect of the finished
  calls made one after the other.
\<close>

section \<open>Bodies and threads\<close>

datatype ('c, 'e) point = At 'c | Done 'e

type_synonym ('c, 'd, 'e) body = "'c \<Rightarrow> 'd \<Rightarrow> (('c, 'e) point \<times> 'd) result"

text \<open>The statements a body has executed since its call, up to a point.\<close>

inductive body_path :: "('c, 'd, 'e) body \<Rightarrow> 'c \<Rightarrow> 'd \<Rightarrow> ('c, 'e) point \<Rightarrow> 'd \<Rightarrow> bool"
  for body :: "('c, 'd, 'e) body" where
  start: "body_path body c d (At c) d"
| step: "body_path body c d (At c1) d1 \<Longrightarrow> body c1 d1 = Inr (pt, d2) \<Longrightarrow> body_path body c d pt d2"

text \<open>The threads: the lock, the shared data, for every thread the call it works on and the point it has
  reached, and the finished calls with their results in the order in which they left the lock.\<close>

record ('c, 'd, 'e) guarded =
  lk :: lock_sys
  shared :: 'd
  work :: "nat \<Rightarrow> ('c \<times> ('c, 'e) point) option"
  finished :: "('c \<times> 'e) list"

definition guarded_init :: "'d \<Rightarrow> ('c, 'd, 'e) guarded" where
  "guarded_init d = \<lparr>lk = lock_init, shared = d, work = (\<lambda>_. None), finished = []\<rparr>"

definition set_lock :: "nat \<Rightarrow> lock_pc \<Rightarrow> LONG \<Rightarrow> lock_sys \<Rightarrow> lock_sys" where
  "set_lock i pc f l = l\<lparr>flag := f, pcs := (pcs l)(i := pc)\<rparr>"

inductive guarded_step ::
  "nat \<Rightarrow> ('c \<Rightarrow> bool) \<Rightarrow> ('c, 'd, 'e) body \<Rightarrow> ('c, 'd, 'e) guarded \<Rightarrow> ('c, 'd, 'e) guarded \<Rightarrow> bool"
  for N :: nat and allowed :: "'c \<Rightarrow> bool" and body :: "('c, 'd, 'e) body" where
  call: "i < N \<Longrightarrow> pcs (lk s) i = Outside \<Longrightarrow> allowed c \<Longrightarrow>
     guarded_step N allowed body s
       (s\<lparr>lk := set_lock i SpinWrite (flag (lk s)) (lk s), work := (work s)(i \<mapsto> (c, At c))\<rparr>)"
| enter: "i < N \<Longrightarrow> pcs (lk s) i \<in> {SpinWrite, AddWrite, SpinRead, UndoWrite} \<Longrightarrow>
     EnterWriteLock_step (pcs (lk s) i) (flag (lk s)) = (pc', f') \<Longrightarrow>
     guarded_step N allowed body s (s\<lparr>lk := set_lock i pc' f' (lk s)\<rparr>)"
| run: "i < N \<Longrightarrow> pcs (lk s) i = Locked \<Longrightarrow> work s i = Some (c, At c1) \<Longrightarrow>
     body c1 (shared s) = Inr (pt, d) \<Longrightarrow>
     guarded_step N allowed body s (s\<lparr>shared := d, work := (work s)(i \<mapsto> (c, pt))\<rparr>)"
| leave: "i < N \<Longrightarrow> pcs (lk s) i = Locked \<Longrightarrow> work s i = Some (c, Done e) \<Longrightarrow>
     guarded_step N allowed body s
       (s\<lparr>lk := set_lock i Outside (LeaveWriteLock (flag (lk s))) (lk s), work := (work s)(i := None),
          finished := finished s @ [(c, e)]\<rparr>)"

inductive guarded_reachable ::
  "nat \<Rightarrow> ('c \<Rightarrow> bool) \<Rightarrow> ('c, 'd, 'e) body \<Rightarrow> 'd \<Rightarrow> ('c, 'd, 'e) guarded \<Rightarrow> bool"
  for N :: nat and allowed :: "'c \<Rightarrow> bool" and body :: "('c, 'd, 'e) body" and d0 :: 'd where
  init: "guarded_reachable N allowed body d0 (guarded_init d0)"
| step: "guarded_reachable N allowed body d0 s \<Longrightarrow> guarded_step N allowed body s s' \<Longrightarrow>
     guarded_reachable N allowed body d0 s'"

text \<open>The finished calls made one after the other.\<close>

fun replays :: "('c \<Rightarrow> 'd \<Rightarrow> ('e \<times> 'd) result) \<Rightarrow> 'd \<Rightarrow> ('c \<times> 'e) list \<Rightarrow> 'd \<Rightarrow> bool" where
  "replays op d [] d' \<longleftrightarrow> d' = d"
| "replays op d ((c, e) # log) d' \<longleftrightarrow> (\<exists>d1. op c d = Inr (e, d1) \<and> replays op d1 log d')"

lemma replays_append:
  "replays op d (log @ log') d' \<longleftrightarrow> (\<exists>d1. replays op d log d1 \<and> replays op d1 log' d')"
  by (induction op d log d' rule: replays.induct) auto

lemma replays_snoc:
  "replays op d (log @ [(c, e)]) d' \<longleftrightarrow> (\<exists>d1. replays op d log d1 \<and> op c d1 = Inr (e, d'))"
  by (simp add: replays_append)

lemma replays_inv:
  assumes "\<And>c d e d'. I d \<Longrightarrow> allowed c \<Longrightarrow> op c d = Inr (e, d') \<Longrightarrow> I d'"
  shows "replays op d log d' \<Longrightarrow> I d \<Longrightarrow> list_all (\<lambda>(c, e). allowed c) log \<Longrightarrow> I d'"
proof (induction log arbitrary: d)
  case (Cons a log)
  obtain c e where a: "a = (c, e)" by (cases a)
  obtain d1 where d1: "op c d = Inr (e, d1)" "replays op d1 log d'" using Cons.prems(1) by (auto simp: a)
  then show ?case using Cons assms [OF _ _ d1(1)] by (simp add: a)
qed simp

section \<open>The lock inside the system\<close>

lemma lock_of_guarded_step: "guarded_step N allowed body s s' \<Longrightarrow> lk s' = lk s \<or> lock_step N (lk s) (lk s')"
proof (induction rule: guarded_step.induct)
  case (call i s c)
  have "set_lock i SpinWrite (flag (lk s)) (lk s) = (lk s)\<lparr>pcs := (pcs (lk s))(i := SpinWrite)\<rparr>"
    by (simp add: set_lock_def)
  then show ?case using lock_step.call_write [OF call(1,2)] by simp
next
  case (enter i s pc' f')
  then show ?case using lock_step.in_write [of i N "lk s"] by (simp add: set_lock_def)
next
  case (leave i s c e)
  then show ?case using lock_step.leave_write [of i N "lk s"] by (simp add: set_lock_def)
qed simp

lemma lock_of_guarded: "guarded_reachable N allowed body d0 s \<Longrightarrow> lock_reachable N (lk s)"
proof (induction rule: guarded_reachable.induct)
  case init
  show ?case by (simp add: guarded_init_def lock_reachable.start)
next
  case (step s s')
  then show ?case using lock_of_guarded_step [OF step(2)] lock_reachable.step [OF step.IH] by auto
qed

section \<open>Threads that do not compete\<close>

text \<open>The body run for a number of statements, and calls made while nobody else is at the lock.\<close>

fun body_run :: "('c, 'd, 'e) body \<Rightarrow> nat \<Rightarrow> ('c, 'e) point \<Rightarrow> 'd \<Rightarrow> (('c, 'e) point \<times> 'd) result" where
  "body_run body (Suc n) (At c) d = bindR (body c d) (\<lambda>(pt, d). body_run body n pt d)"
| "body_run body n pt d = Inr (pt, d)"

lemma body_run_from:
  "body_run body n pt d = Inr (pt', d') \<Longrightarrow> body_path body c d0 pt d \<Longrightarrow> body_path body c d0 pt' d'"
proof (induction body n pt d rule: body_run.induct)
  case (1 body n c1 d)
  then show ?case using body_path.step [OF "1.prems"(2)] by (fastforce simp: bindR_Inr_iff)
qed auto

lemma body_run_path: "body_run body n (At c) d = Inr (pt, d') \<Longrightarrow> body_path body c d pt d'"
  by (erule body_run_from) (rule body_path.start)

definition quiet_at :: "'d \<Rightarrow> ('c \<times> 'e) list \<Rightarrow> ('c, 'd, 'e) guarded" where
  "quiet_at d log = \<lparr>lk = lock_init, shared = d, work = (\<lambda>_. None), finished = log\<rparr>"

definition inside_at :: "nat \<Rightarrow> 'c \<Rightarrow> ('c, 'e) point \<Rightarrow> 'd \<Rightarrow> ('c \<times> 'e) list \<Rightarrow> ('c, 'd, 'e) guarded" where
  "inside_at i c pt d log = \<lparr>lk = set_lock i Locked LF_WRITE_FLAG lock_init, shared = d,
     work = [i \<mapsto> (c, pt)], finished = log\<rparr>"

lemma quiet_start: "guarded_reachable N allowed body d (quiet_at d [])"
  using guarded_reachable.init [of N allowed body d] by (simp add: guarded_init_def quiet_at_def)

lemma quiet_enter:
  assumes "guarded_reachable N allowed body d0 (quiet_at d log)" and "i < N" and "allowed c"
  shows "guarded_reachable N allowed body d0 (inside_at i c (At c) d log)"
proof -
  let ?at = "\<lambda>pc f. \<lparr>lk = set_lock i pc f lock_init, shared = d, work = [i \<mapsto> (c, At c)], finished = log\<rparr>"
  have enter: "guarded_reachable N allowed body d0 (?at pc' f')"
    if "guarded_reachable N allowed body d0 (?at pc f)" "pc \<in> {SpinWrite, AddWrite, SpinRead, UndoWrite}"
      "EnterWriteLock_step pc f = (pc', f')" for pc f pc' f'
    using guarded_reachable.step [OF that(1) guarded_step.enter [of i N "?at pc f" pc' f']] assms(2) that(2,3)
    by (simp add: set_lock_def)
  have "guarded_reachable N allowed body d0 (?at SpinWrite 0)"
    using guarded_reachable.step [OF assms(1) guarded_step.call [of i N _ allowed c body]] assms(2,3)
    by (simp add: quiet_at_def set_lock_def lock_init_def FastSpinlock_new_def)
  from enter [OF this] have "guarded_reachable N allowed body d0 (?at AddWrite 0)" by simp
  from enter [OF this] have "guarded_reachable N allowed body d0 (?at SpinRead LF_WRITE_FLAG)" by (simp add: lock_masks)
  from enter [OF this] show ?thesis by (simp add: lock_masks inside_at_def)
qed

lemma quiet_inside:
  assumes "body_path body c d pt d'" and "guarded_reachable N allowed body d0 (quiet_at d log)" and "i < N" and "allowed c"
  shows "guarded_reachable N allowed body d0 (inside_at i c pt d' log)"
  using assms
proof (induction rule: body_path.induct)
  case (start c d)
  then show ?case by (rule quiet_enter)
next
  case (step c d c1 d1 pt d2)
  then show ?case
    using guarded_reachable.step [OF step.IH guarded_step.run [of i N _ c c1 body pt d2 allowed]]
    by (simp add: inside_at_def set_lock_def)
qed

lemma quiet_call:
  assumes "body_path body c d (Done e) d'" and "guarded_reachable N allowed body d0 (quiet_at d log)" and "0 < N" and "allowed c"
  shows "guarded_reachable N allowed body d0 (quiet_at d' (log @ [(c, e)]))"
  using guarded_reachable.step [OF quiet_inside [OF assms] guarded_step.leave [of 0 N _ c e allowed body]] assms(3)
  by (simp add: inside_at_def set_lock_def quiet_at_def lock_init_def FastSpinlock_new_def LeaveWriteLock_def fun_upd_idem)

section \<open>What the lock gives to a client\<close>

locale guarded_client =
  fixes body :: "('c, 'd, 'e) body"
    and allowed :: "'c \<Rightarrow> bool"
    and op :: "'c \<Rightarrow> 'd \<Rightarrow> ('e \<times> 'd) result"
    and inv :: "'d \<Rightarrow> bool"
  assumes body_computes: "inv d \<Longrightarrow> allowed c \<Longrightarrow> body_path body c d (Done e) d' \<Longrightarrow> op c d = Inr (e, d')"
    and body_safe: "inv d \<Longrightarrow> allowed c \<Longrightarrow> body_path body c d (At c1) d1 \<Longrightarrow> \<exists>pt d2. body c1 d1 = Inr (pt, d2)"
    and op_inv: "inv d \<Longrightarrow> allowed c \<Longrightarrow> op c d = Inr (e, d') \<Longrightarrow> inv d'"
begin

text \<open>Only the thread that is past \<open>EnterWriteLock\<close> has executed statements, and it has executed them on the
  data that the finished calls left.\<close>

definition thread_ok :: "'d \<Rightarrow> 'd \<Rightarrow> lock_pc \<Rightarrow> ('c \<times> ('c, 'e) point) option \<Rightarrow> bool" where
  "thread_ok d now pc w \<longleftrightarrow> (pc \<noteq> Outside \<longrightarrow> (\<exists>c pt. w = Some (c, pt) \<and> allowed c \<and>
     (if pc = Locked then body_path body c d pt now else pt = At c)))"

definition serial_at :: "'d \<Rightarrow> ('c, 'd, 'e) guarded \<Rightarrow> 'd \<Rightarrow> bool" where
  "serial_at d0 s d \<longleftrightarrow> replays op d0 (finished s) d \<and> list_all (\<lambda>(c, e). allowed c) (finished s) \<and>
     (\<forall>i. thread_ok d (shared s) (pcs (lk s) i) (work s i)) \<and>
     ((\<forall>i. pcs (lk s) i \<noteq> Locked) \<longrightarrow> shared s = d)"

lemma thread_ok_outside [simp]: "thread_ok d now Outside w"
  by (simp add: thread_ok_def)

lemma thread_ok_waiting: "pc \<noteq> Outside \<Longrightarrow> pc \<noteq> Locked \<Longrightarrow>
    thread_ok d now pc w \<longleftrightarrow> (\<exists>c. w = Some (c, At c) \<and> allowed c)"
  by (auto simp: thread_ok_def)

lemma thread_ok_locked: "thread_ok d now Locked w \<longleftrightarrow> (\<exists>c pt. w = Some (c, pt) \<and> allowed c \<and> body_path body c d pt now)"
  by (simp add: thread_ok_def)

lemma thread_ok_other: "thread_ok d now pc w \<Longrightarrow> pc \<noteq> Locked \<Longrightarrow> thread_ok d' now' pc w"
  by (simp add: thread_ok_def)

lemma serial_atD:
  assumes "serial_at d0 s d"
  shows "replays op d0 (finished s) d" "list_all (\<lambda>(c, e). allowed c) (finished s)"
    "thread_ok d (shared s) (pcs (lk s) i) (work s i)"
    "(\<And>i. pcs (lk s) i \<noteq> Locked) \<Longrightarrow> shared s = d"
  using assms by (simp_all add: serial_at_def)

lemma serial_at_inv: "serial_at d0 s d \<Longrightarrow> inv d0 \<Longrightarrow> inv d"
  using replays_inv [of inv allowed op] op_inv serial_atD(1,2) by metis

lemma serial_call:
  assumes ser: "serial_at d0 s d" and out: "pcs (lk s) i = Outside" and c: "allowed c"
  shows "serial_at d0 (s\<lparr>lk := set_lock i SpinWrite f (lk s), work := (work s)(i \<mapsto> (c, At c))\<rparr>) d"
proof -
  have "shared s = d" if "\<forall>j. j \<noteq> i \<longrightarrow> pcs (lk s) j \<noteq> Locked"
    using serial_atD(4) [OF ser] that out by (metis lock_pc.distinct(9))
  then show ?thesis
    using serial_atD(1-3) [OF ser] c by (auto simp: serial_at_def set_lock_def thread_ok_waiting)
qed

text \<open>A thread that leaves the waiting loop finds the data as the finished calls left them: nobody else can be
  past \<open>EnterWriteLock\<close>.\<close>

lemma serial_enter:
  assumes ser: "serial_at d0 s d" and lock: "lock_reachable N (lk s)" "N \<le> 2048"
    and pc: "pcs (lk s) i \<in> {SpinWrite, AddWrite, SpinRead, UndoWrite}"
    and st: "EnterWriteLock_step (pcs (lk s) i) (flag (lk s)) = (pc', f')"
  shows "serial_at d0 (s\<lparr>lk := set_lock i pc' f' (lk s)\<rparr>) d"
proof -
  obtain c where c: "work s i = Some (c, At c)" "allowed c"
    using serial_atD(3) [OF ser, of i] pc by (auto simp: thread_ok_waiting)
  have nl: "pcs (lk s) i \<noteq> Locked" "pc' \<noteq> Outside" using pc st by (auto split: if_splits)
  have alone: "shared s = d" if "\<forall>j. j \<noteq> i \<longrightarrow> pcs (lk s) j \<noteq> Locked"
    using serial_atD(4) [OF ser] that nl(1) by metis
  have "thread_ok d (shared s) pc' (work s i)"
  proof (cases "pc' = Locked")
    case True
    then have "is_owner (pcs (lk s) i)" using st pc by (auto split: if_splits)
    then have "pcs (lk s) j \<noteq> Locked" if "j \<noteq> i" for j
      using one_owner [OF lock, of i j] that by (metis pc_class_simps(14))
    then have "body_path body c d (At c) (shared s)" using alone by (simp add: body_path.start)
    then show ?thesis using c True by (simp add: thread_ok_locked)
  next
    case False
    then show ?thesis using c nl(2) by (simp add: thread_ok_waiting)
  qed
  then show ?thesis
    using serial_atD(1-3) [OF ser] alone by (auto simp: serial_at_def set_lock_def)
qed

lemma serial_run:
  assumes ser: "serial_at d0 s d" and lock: "lock_reachable N (lk s)" "N \<le> 2048"
    and pc: "pcs (lk s) i = Locked" and w: "work s i = Some (c, At c1)" and st: "body c1 (shared s) = Inr (pt, d1)"
  shows "serial_at d0 (s\<lparr>shared := d1, work := (work s)(i \<mapsto> (c, pt))\<rparr>) d"
proof -
  have c: "allowed c" "body_path body c d (At c1) (shared s)"
    using serial_atD(3) [OF ser, of i] pc w by (auto simp: thread_ok_locked)
  from c(2) st have "body_path body c d pt d1" by (rule body_path.step)
  moreover have "pcs (lk s) j \<noteq> Locked" if "j \<noteq> i" for j using one_owner [OF lock, of i j] pc that by auto
  ultimately show ?thesis
    using serial_atD(1,2) [OF ser] thread_ok_other [OF serial_atD(3) [OF ser]] c(1) pc
    by (auto simp: serial_at_def thread_ok_locked)
qed

lemma serial_leave:
  assumes ser: "serial_at d0 s d" and lock: "lock_reachable N (lk s)" "N \<le> 2048" and d0: "inv d0"
    and pc: "pcs (lk s) i = Locked" and w: "work s i = Some (c, Done e)"
  shows "serial_at d0 (s\<lparr>lk := set_lock i Outside f (lk s), work := (work s)(i := None),
    finished := finished s @ [(c, e)]\<rparr>) (shared s)"
proof -
  have c: "allowed c" "body_path body c d (Done e) (shared s)"
    using serial_atD(3) [OF ser, of i] pc w by (auto simp: thread_ok_locked)
  have "op c d = Inr (e, shared s)" by (rule body_computes [OF serial_at_inv [OF ser d0] c])
  then have "replays op d0 (finished s @ [(c, e)]) (shared s)"
    using serial_atD(1) [OF ser] by (auto simp: replays_snoc)
  moreover have "pcs (lk s) j \<noteq> Locked" if "j \<noteq> i" for j using one_owner [OF lock, of i j] pc that by auto
  ultimately show ?thesis
    using serial_atD(2) [OF ser] thread_ok_other [OF serial_atD(3) [OF ser]] c(1)
    by (auto simp: serial_at_def set_lock_def)
qed

lemma reachable_serial:
  assumes "guarded_reachable N allowed body d0 s" and "N \<le> 2048" and "inv d0"
  shows "\<exists>d. serial_at d0 s d"
  using assms(1)
proof (induction rule: guarded_reachable.induct)
  case init
  show ?case by (simp add: serial_at_def guarded_init_def lock_init_def)
next
  case (step s s')
  note lock = lock_of_guarded [OF step(1)] assms(2)
  obtain d where ser: "serial_at d0 s d" using step.IH by blast
  from step(2) show ?case
  proof cases
    case (call i c)
    then show ?thesis using serial_call [OF ser] by blast
  next
    case (enter i pc' f')
    then show ?thesis using serial_enter [OF ser lock] by blast
  next
    case (run i c c1 pt d1)
    then show ?thesis using serial_run [OF ser lock] by blast
  next
    case (leave i c e)
    then show ?thesis using serial_leave [OF ser lock assms(3)] by blast
  qed
qed

text \<open>The interleaved calls are linearised by the lock: at every moment the data are those after the finished
  calls, on which the thread in its critical section (if there is one) has executed its statements
  so far, and its next statement does not fault.\<close>

lemma linearised:
  assumes "guarded_reachable N allowed body d0 s" and "N \<le> 2048" and "inv d0"
  shows "\<exists>d. replays op d0 (finished s) d \<and> inv d \<and> list_all (\<lambda>(c, e). allowed c) (finished s) \<and>
    ((\<forall>i. pcs (lk s) i \<noteq> Locked) \<longrightarrow> shared s = d) \<and>
    (\<forall>i. pcs (lk s) i = Locked \<longrightarrow> (\<exists>c pt. work s i = Some (c, pt) \<and> allowed c \<and> body_path body c d pt (shared s))) \<and>
    (\<forall>i c c1. pcs (lk s) i = Locked \<longrightarrow> work s i = Some (c, At c1) \<longrightarrow> (\<exists>pt d2. body c1 (shared s) = Inr (pt, d2)))"
proof -
  obtain d where ser: "serial_at d0 s d" using reachable_serial [OF assms] by blast
  note inv_d = serial_at_inv [OF ser assms(3)]
  have held: "\<exists>c pt. work s i = Some (c, pt) \<and> allowed c \<and> body_path body c d pt (shared s)" if "pcs (lk s) i = Locked" for i
    using serial_atD(3) [OF ser, of i] that by (auto simp: thread_ok_locked)
  moreover have "\<exists>pt d2. body c1 (shared s) = Inr (pt, d2)"
    if "pcs (lk s) i = Locked" "work s i = Some (c, At c1)" for i c c1
    using body_safe [OF inv_d] held [OF that(1)] that(2) by force
  ultimately show ?thesis
    using serial_atD(1,2,4) [OF ser] inv_d by (intro exI [of _ d]) simp
qed

end

end
