(* ===== verification/Session_Threads.thy ===== *)
theory Session_Threads
  imports MssqlSession Guarded_Threads
begin

text \<open>
  The send side of a session of the second server (\<open>Session.hpp\<close>) used by several threads. \<open>PostSend\<close>,
  \<open>FlushSend\<close> and \<open>SendCompletion\<close> touch \<open>mSendBuffer\<close> and \<open>mSendPendingCount\<close> only under \<open>mSendBufferLock\<close>, and
  nothing else touches these two members, so they form a state of their own, whatever other threads do
  with the reference counter, the connection flag and the receive buffer. Here the statements of
  the three operations are single steps (\<open>memcpy\<close> copies one byte per step) under the interleaved
  spin lock.
\<close>

section \<open>The guarded statements\<close>

record SendSide =
  snd_buffer :: CircularBuffer
  snd_pending :: "32 word"

definition send_side_of :: "Session \<Rightarrow> SendSide" where
  "send_side_of s = \<lparr>snd_buffer = ss_mSendBuffer s, snd_pending = ss_mSendPendingCount s\<rparr>"

text \<open>Program points: \<open>P...\<close> in \<open>PostSend\<close>, \<open>F...\<close> in \<open>FlushSend\<close>, \<open>S...\<close> in \<open>SendCompletion\<close>, with the local
  variables still needed. The first point of each operation is its call. The outcome of \<open>WSASend\<close> is an
  argument of the call of \<open>FlushSend\<close>.\<close>

datatype send_point =
    PRoom "byte list" | PCopy "byte list" nat offset | PCommit "byte list"
  | FStored wsa_status | FIdle | FPending wsa_status | FSend wsa_status | FCount "offset option" size_t
  | SRemove DWORD | SCount

text \<open>What a call returns; a flush also tells what it handed to the kernel.\<close>

datatype send_event = Posted bool | Flushed bool "(offset option \<times> size_t) option" | Completed

fun send_body :: "send_point \<Rightarrow> SendSide \<Rightarrow> ((send_point, send_event) point \<times> SendSide) result" where
  "send_body (PRoom data) d =
     (let (free, buffer) = GetFreeSpaceSize (snd_buffer d); d = d\<lparr>snd_buffer := buffer\<rparr> in
      if free < of_nat (length data) then Inr (Done (Posted False), d)
      else Inr (At (PCopy data 0 (GetBuffer buffer)), d))"
| "send_body (PCopy data k destData) d =
     (if k < length data then
        bindR (store_slot (int (unat destData + k)) (data ! k) (mBuffer (snd_buffer d))) (\<lambda>bs.
        Inr (At (PCopy data (Suc k) destData), d\<lparr>snd_buffer := (snd_buffer d)\<lparr>mBuffer := bs\<rparr>\<rparr>))
      else Inr (At (PCommit data), d))"
| "send_body (PCommit data) d =
     Inr (Done (Posted True), d\<lparr>snd_buffer := Commit (of_nat (length data)) (snd_buffer d)\<rparr>)"
| "send_body (FStored wsa) d =
     Inr (At (if GetContiguiousBytes (snd_buffer d) = 0 then FIdle else FPending wsa), d)"
| "send_body FIdle d = Inr (Done (Flushed (snd_pending d = 0) None), d)"
| "send_body (FPending wsa) d =
     (if sint (snd_pending d) > 0 then Inr (Done (Flushed False None), d) else Inr (At (FSend wsa), d))"
| "send_body (FSend wsa) d =
     (if \<not> accepted wsa then Inr (Done (Flushed True None), d)
      else Inr (At (FCount (GetBufferStart (snd_buffer d)) (GetContiguiousBytes (snd_buffer d))), d))"
| "send_body (FCount buf len) d =
     (let d = d\<lparr>snd_pending := snd_pending d + 1\<rparr> in
      Inr (Done (Flushed (snd_pending d = 1) (Some (buf, len))), d))"
| "send_body (SRemove transferred) d =
     bindR (Remove transferred (snd_buffer d)) (\<lambda>buffer. Inr (At SCount, d\<lparr>snd_buffer := buffer\<rparr>))"
| "send_body SCount d = Inr (Done Completed, d\<lparr>snd_pending := snd_pending d - 1\<rparr>)"

fun send_call :: "send_point \<Rightarrow> bool" where
  "send_call (PRoom data) \<longleftrightarrow> length data < 2 ^ 32"
| "send_call (FStored wsa) \<longleftrightarrow> True"
| "send_call (SRemove transferred) \<longleftrightarrow> True"
| "send_call _ \<longleftrightarrow> False"

section \<open>The operations as a whole\<close>

text \<open>Only calls have a meaning here.\<close>

fun send_op :: "send_point \<Rightarrow> SendSide \<Rightarrow> (send_event \<times> SendSide) result" where
  "send_op (PRoom data) d =
     (let (free, buffer) = GetFreeSpaceSize (snd_buffer d) in
      if free < of_nat (length data) then Inr (Posted False, d\<lparr>snd_buffer := buffer\<rparr>)
      else bindR (buffer_fill data buffer) (\<lambda>buffer.
        Inr (Posted True, d\<lparr>snd_buffer := Commit (of_nat (length data)) buffer\<rparr>)))"
| "send_op (FStored wsa) d =
     Inr (if GetContiguiousBytes (snd_buffer d) = 0 then (Flushed (snd_pending d = 0) None, d)
          else if sint (snd_pending d) > 0 then (Flushed False None, d)
          else if \<not> accepted wsa then (Flushed True None, d)
          else (Flushed (snd_pending d + 1 = 1)
                  (Some (GetBufferStart (snd_buffer d), GetContiguiousBytes (snd_buffer d))),
                d\<lparr>snd_pending := snd_pending d + 1\<rparr>))"
| "send_op (SRemove transferred) d =
     bindR (Remove transferred (snd_buffer d)) (\<lambda>buffer.
     Inr (Completed, d\<lparr>snd_buffer := buffer, snd_pending := snd_pending d - 1\<rparr>))"
| "send_op _ d = Inl OutOfBounds"

definition send_inv :: "SendSide \<Rightarrow> bool" where
  "send_inv d \<longleftrightarrow> cb_inv (snd_buffer d)"

text \<open>How far a call has come: every point determines the data from the data at the call.\<close>

definition posting :: "byte list \<Rightarrow> nat \<Rightarrow> SendSide \<Rightarrow> SendSide" where
  "posting data k d =
     (let b = snd (GetFreeSpaceSize (snd_buffer d)) in
      d\<lparr>snd_buffer := b\<lparr>mBuffer := overwrite (unat (GetBuffer b)) (take k data) (mBuffer b)\<rparr>\<rparr>)"

fun reached :: "send_point \<Rightarrow> SendSide \<Rightarrow> (send_point, send_event) point \<Rightarrow> SendSide \<Rightarrow> bool" where
  "reached c d (At (PRoom data)) d1 \<longleftrightarrow> c = PRoom data \<and> d1 = d"
| "reached c d (At (PCopy data k dest)) d1 \<longleftrightarrow> c = PRoom data \<and> k \<le> length data \<and>
     dest = GetBuffer (snd (GetFreeSpaceSize (snd_buffer d))) \<and>
     \<not> fst (GetFreeSpaceSize (snd_buffer d)) < of_nat (length data) \<and> d1 = posting data k d"
| "reached c d (At (PCommit data)) d1 \<longleftrightarrow> c = PRoom data \<and>
     \<not> fst (GetFreeSpaceSize (snd_buffer d)) < of_nat (length data) \<and> d1 = posting data (length data) d"
| "reached c d (At (FStored wsa)) d1 \<longleftrightarrow> c = FStored wsa \<and> d1 = d"
| "reached c d (At FIdle) d1 \<longleftrightarrow> (\<exists>wsa. c = FStored wsa) \<and> GetContiguiousBytes (snd_buffer d) = 0 \<and> d1 = d"
| "reached c d (At (FPending wsa)) d1 \<longleftrightarrow> c = FStored wsa \<and> GetContiguiousBytes (snd_buffer d) \<noteq> 0 \<and> d1 = d"
| "reached c d (At (FSend wsa)) d1 \<longleftrightarrow> c = FStored wsa \<and> GetContiguiousBytes (snd_buffer d) \<noteq> 0 \<and>
     \<not> sint (snd_pending d) > 0 \<and> d1 = d"
| "reached c d (At (FCount buf len)) d1 \<longleftrightarrow> (\<exists>wsa. c = FStored wsa \<and> accepted wsa) \<and> GetContiguiousBytes (snd_buffer d) \<noteq> 0 \<and>
     \<not> sint (snd_pending d) > 0 \<and> buf = GetBufferStart (snd_buffer d) \<and> len = GetContiguiousBytes (snd_buffer d) \<and> d1 = d"
| "reached c d (At (SRemove n)) d1 \<longleftrightarrow> c = SRemove n \<and> d1 = d"
| "reached c d (At SCount) d1 \<longleftrightarrow> (\<exists>n b. c = SRemove n \<and> Remove n (snd_buffer d) = Inr b \<and> d1 = d\<lparr>snd_buffer := b\<rparr>)"
| "reached c d (Done e) d1 \<longleftrightarrow> send_op c d = Inr (e, d1)"

section \<open>Copying byte by byte\<close>

lemma overwrite_take_Suc:
  assumes "k < length data" and "p + length data \<le> length bs"
  shows "(overwrite p (take k data) bs)[p + k := data ! k] = overwrite p (take (Suc k) data) bs"
  using assms
  by (intro nth_equalityI) (auto simp: overwrite_def nth_append nth_list_update min_def take_Suc_conv_app_nth)

lemma store_slot_nat:
  "store_slot (int n) v xs = (if n < length xs then Inr (xs[n := v]) else Inl OutOfBounds)"
  by (simp add: store_slot_def)

lemma post_fits:
  assumes "send_inv d" and "length data < 2 ^ 32" and "\<not> fst (GetFreeSpaceSize (snd_buffer d)) < of_nat (length data)"
  defines "b \<equiv> snd (GetFreeSpaceSize (snd_buffer d))"
  shows "unat (GetBuffer b) + length data \<le> length (mBuffer b)" "length data \<le> cb_room b" "cb_inv b"
    "cb_contents b = cb_contents (snd_buffer d)"
proof -
  have inv: "cb_inv (snd_buffer d)" using assms(1) by (simp add: send_inv_def)
  have "length data \<le> unat (fst (GetFreeSpaceSize (snd_buffer d)))"
    using assms(2,3) by (simp add: word_less_nat_alt unat_of_nat_small not_less)
  then show "length data \<le> cb_room b" using GetFreeSpaceSize_room [OF inv] by (simp add: b_def)
  show "cb_inv b" "cb_contents b = cb_contents (snd_buffer d)"
    unfolding b_def by (rule GetFreeSpaceSize_inv [OF inv], rule GetFreeSpaceSize_contents [OF inv])
  with \<open>length data \<le> cb_room b\<close> show "unat (GetBuffer b) + length data \<le> length (mBuffer b)"
    using cb_room_bound [of b] by linarith
qed

lemma posting_0: "posting data 0 d = d\<lparr>snd_buffer := snd (GetFreeSpaceSize (snd_buffer d))\<rparr>"
  by (simp add: posting_def overwrite_def)

lemma copy_step:
  assumes "reached c d (At (PCopy data k dest)) d1" and "send_inv d" and "send_call c"
  shows "\<exists>pt d2. send_body (PCopy data k dest) d1 = Inr (pt, d2) \<and> reached c d pt d2"
proof (cases "k < length data")
  case True
  define b where "b = snd (GetFreeSpaceSize (snd_buffer d))"
  have c: "c = PRoom data" "dest = GetBuffer b" "d1 = posting data k d"
    "\<not> fst (GetFreeSpaceSize (snd_buffer d)) < of_nat (length data)"
    using assms(1) by (simp_all add: b_def)
  have fits: "unat dest + length data \<le> length (mBuffer b)"
    using post_fits(1) [OF assms(2) _ c(4)] assms(3) c(1,2) by (simp add: b_def)
  have buf: "mBuffer (snd_buffer d1) = overwrite (unat dest) (take k data) (mBuffer b)"
    by (simp add: c(2,3) posting_def b_def Let_def)
  have "store_slot (int (unat dest + k)) (data ! k) (mBuffer (snd_buffer d1)) =
      Inr (overwrite (unat dest) (take (Suc k) data) (mBuffer b))"
    unfolding store_slot_nat buf using True fits overwrite_take_Suc [OF True fits] by simp
  then have "send_body (PCopy data k dest) d1 = Inr (At (PCopy data (Suc k) dest), posting data (Suc k) d)"
    using True by (simp add: c(2,3) posting_def b_def Let_def)
  then show ?thesis using True c by (simp add: b_def)
next
  case False
  then show ?thesis using assms(1) by auto
qed

lemma commit_step:
  assumes "reached c d (At (PCommit data)) d1" and "send_inv d" and "send_call c"
  shows "\<exists>pt d2. send_body (PCommit data) d1 = Inr (pt, d2) \<and> reached c d pt d2"
proof -
  define b where "b = snd (GetFreeSpaceSize (snd_buffer d))"
  have c: "c = PRoom data" "d1 = posting data (length data) d" "\<not> fst (GetFreeSpaceSize (snd_buffer d)) < of_nat (length data)"
    using assms(1) by simp_all
  have "buffer_fill data b = Inr (b\<lparr>mBuffer := overwrite (unat (GetBuffer b)) data (mBuffer b)\<rparr>)"
    using post_fits [OF assms(2) _ c(3)] assms(3) c(1) by (intro buffer_fill_ok) (simp_all add: b_def)
  then show ?thesis
    using c by (simp add: case_prod_unfold posting_def b_def [symmetric] Let_def)
qed

lemma reached_step:
  assumes "reached c d (At c1) d1" and "send_inv d" and "send_call c"
  shows "\<exists>pt d2. send_body c1 d1 = Inr (pt, d2) \<and> reached c d pt d2"
proof (cases c1)
  case (PRoom data)
  then show ?thesis using assms(1) by (auto simp: case_prod_unfold Let_def posting_0)
next
  case (PCopy data k dest)
  then show ?thesis using copy_step assms by blast
next
  case (PCommit data)
  then show ?thesis using commit_step assms by blast
next
  case (SRemove n)
  have "\<exists>b. Remove n (snd_buffer d) = Inr b" using cbq.remove_ok assms(2) by (auto simp: send_inv_def)
  then show ?thesis using assms(1) SRemove by auto
qed (use assms(1) in auto)

lemma path_reached:
  "body_path send_body c d pt d1 \<Longrightarrow> send_inv d \<Longrightarrow> send_call c \<Longrightarrow> reached c d pt d1"
proof (induction rule: body_path.induct)
  case (start c d)
  then show ?case by (cases c) simp_all
next
  case (step c d c1 d1 pt d2)
  then show ?case using reached_step [of c d c1 d1] by auto
qed

text \<open>The effect of an operation on the bytes waiting to be sent.\<close>

fun stream_event :: "send_point \<times> send_event \<Rightarrow> byte list \<Rightarrow> byte list" where
  "stream_event (PRoom data, Posted True) xs = xs @ data"
| "stream_event (SRemove n, Completed) xs = drop (unat n) xs"
| "stream_event _ xs = xs"

lemma send_op_spec:
  assumes inv: "send_inv d" and call: "send_call c"
  shows "\<exists>e d'. send_op c d = Inr (e, d') \<and> send_inv d' \<and>
    cb_contents (snd_buffer d') = stream_event (c, e) (cb_contents (snd_buffer d))"
proof (cases c)
  case (PRoom data)
  obtain free b where room: "GetFreeSpaceSize (snd_buffer d) = (free, b)" by fastforce
  note b = GetFreeSpaceSize_inv [of "snd_buffer d"] GetFreeSpaceSize_contents [of "snd_buffer d"]
  have len: "unat (of_nat (length data) :: size_t) = length data" using call PRoom by (simp add: unat_of_nat_small)
  show ?thesis
  proof (cases "free < of_nat (length data)")
    case True
    then show ?thesis using PRoom inv room b by (simp add: send_inv_def)
  next
    case False
    then have "length data \<le> unat free" using len by (simp add: word_less_nat_alt)
    then show ?thesis
      using PRoom inv room False cbq.append_ok [OF _ room len] by (auto simp: send_inv_def)
  qed
next
  case (SRemove n)
  then show ?thesis using inv cbq.remove_ok [of "snd_buffer d" n] by (auto simp: send_inv_def)
qed (use inv call in \<open>auto simp: send_inv_def\<close>)

lemma send_op_inv: "send_inv d \<Longrightarrow> send_call c \<Longrightarrow> send_op c d = Inr (e, d') \<Longrightarrow> send_inv d'"
  using send_op_spec by fastforce

interpretation send_side: guarded_client send_body send_call send_op send_inv
proof
  fix d d' :: SendSide and c c1 e
  assume inv: "send_inv d" "send_call c"
  show "send_op c d = Inr (e, d')" if "body_path send_body c d (Done e) d'"
    using path_reached [OF that inv] by simp
  show "\<exists>pt d2. send_body c1 d' = Inr (pt, d2)" if "body_path send_body c d (At c1) d'"
    using reached_step [OF path_reached [OF that inv] inv] by blast
  show "send_inv d'" if "send_op c d = Inr (e, d')" by (rule send_op_inv [OF inv that])
qed

section \<open>The stream and the bytes in flight\<close>

lemma replays_send_inv:
  "replays send_op d log d' \<Longrightarrow> send_inv d \<Longrightarrow> list_all (\<lambda>(c, e). send_call c) log \<Longrightarrow> send_inv d'"
  by (rule replays_inv [of send_inv send_call send_op]) (use send_op_inv in auto)

lemma replays_stream:
  "replays send_op d log d' \<Longrightarrow> send_inv d \<Longrightarrow> list_all (\<lambda>(c, e). send_call c) log \<Longrightarrow>
     cb_contents (snd_buffer d') = fold stream_event log (cb_contents (snd_buffer d))"
proof (induction log arbitrary: d)
  case (Cons a log)
  obtain c e where a: "a = (c, e)" by (cases a)
  obtain d1 where d1: "send_op c d = Inr (e, d1)" "replays send_op d1 log d'" using Cons.prems(1) by (auto simp: a)
  have "send_inv d1" "cb_contents (snd_buffer d1) = stream_event (c, e) (cb_contents (snd_buffer d))"
    using send_op_spec [OF Cons.prems(2), of c] Cons.prems(3) d1(1) by (auto simp: a)
  then show ?case using Cons.IH [OF d1(2)] Cons.prems(3) by (simp add: a)
qed simp

text \<open>\<open>xs\<close> is the front of the queue and lies at \<open>p\<close>.\<close>

definition front :: "offset \<Rightarrow> byte list \<Rightarrow> CircularBuffer \<Rightarrow> bool" where
  "front p xs b \<longleftrightarrow> cb_inv b \<and> mARegionPointer b = p \<and> length xs \<le> unat (mARegionSize b) \<and>
     take (length xs) (cb_contents b) = xs"

lemma front_read:
  assumes "front p xs b"
  shows "memread (unat p) (length xs) (mBuffer b) = Inr xs"
proof -
  note b = assms [unfolded front_def]
  have le: "unat p + length xs \<le> length (mBuffer b)" using b cb_invD(1,3) [of b] by auto
  have "take (length xs) (cb_contents b) = segment (unat p) (length xs) (mBuffer b)"
    using b cb_invD(1,3) [of b] by (auto simp: cb_contents_def segment_simps min_def)
  then show ?thesis using b le by (simp add: memread_ok)
qed

lemma front_contents:
  assumes "front p xs b" and "cb_inv b'" and "mARegionPointer b' = mARegionPointer b" and "mARegionSize b \<le> mARegionSize b'"
    and "cb_contents b' = cb_contents b @ ys"
  shows "front p xs b'"
proof -
  have "length xs \<le> length (cb_contents b)" using assms(1) length_cb_contents [of b] by (auto simp: front_def)
  then show ?thesis using assms by (auto simp: front_def word_le_nat_alt)
qed

lemma GetFreeSpaceSize_regions:
  "mARegionPointer (snd (GetFreeSpaceSize b)) = mARegionPointer b" "mARegionSize (snd (GetFreeSpaceSize b)) = mARegionSize b"
  by (simp_all add: GetFreeSpaceSize_def AllocateB_def Let_def)

lemma send_op_front:
  assumes "front p xs (snd_buffer d)" and "send_call c" and "send_op c d = Inr (e, d')" and "e \<noteq> Completed"
  shows "front p xs (snd_buffer d')"
proof (cases c)
  case (PRoom data)
  have inv: "cb_inv (snd_buffer d)" using assms(1) by (simp add: front_def)
  have st: "\<exists>acc del. cb_step (Put data) (snd_buffer d) = Inr (acc, del, snd_buffer d')"
    using assms(3) PRoom by (auto simp: cb_step_def Let_def bindR_Inr_iff case_prod_unfold split: if_splits)
  then obtain acc del where st: "cb_step (Put data) (snd_buffer d) = Inr (acc, del, snd_buffer d')" by blast
  have sz: "length data < 2 ^ 32" using assms(2) PRoom by simp
  show ?thesis
    using front_contents [OF assms(1) cb_step_Put_contents(1) [OF inv sz st]] cb_step_Put_front [OF inv sz st]
      cb_step_Put_contents(2) [OF inv sz st] by blast
next
  case (SRemove n)
  then show ?thesis using assms(3,4) by (auto simp: bindR_Inr_iff)
qed (use assms in \<open>auto split: if_splits\<close>)

lemma replays_front:
  "replays send_op d log d' \<Longrightarrow> front p xs (snd_buffer d) \<Longrightarrow> list_all (\<lambda>(c, e). send_call c) log \<Longrightarrow>
     list_all (\<lambda>(c, e). e \<noteq> Completed) log \<Longrightarrow> front p xs (snd_buffer d')"
proof (induction log arbitrary: d)
  case (Cons a log)
  then show ?case using send_op_front by (cases a) fastforce
qed simp

text \<open>A call that is not a completion leaves the front alone at every statement, also while it copies.\<close>

lemma reached_front:
  assumes "front p xs (snd_buffer d)" and "send_call c" and "reached c d pt d1" and "\<forall>n. c \<noteq> SRemove n"
  shows "front p xs (snd_buffer d1)"
proof -
  have inv: "send_inv d" using assms(1) by (simp add: front_def send_inv_def)
  have posting: "front p xs (snd_buffer (posting data k d))"
    if "c = PRoom data" "\<not> fst (GetFreeSpaceSize (snd_buffer d)) < of_nat (length data)" for data k
  proof -
    define b where "b = snd (GetFreeSpaceSize (snd_buffer d))"
    have f: "length (take k data) \<le> cb_room b" "cb_inv b" "cb_contents b = cb_contents (snd_buffer d)"
      using post_fits(2-4) [OF inv _ that(2)] assms(2) that(1) by (simp_all add: b_def)
    show ?thesis
      using front_contents [OF assms(1), of "snd_buffer (posting data k d)" "[]"] fill_unseen [OF f(2,1)] f(3)
      by (simp add: posting_def b_def [symmetric] Let_def) (simp add: b_def GetFreeSpaceSize_regions)
  qed
  show ?thesis
  proof (cases pt)
    case (At c1)
    then show ?thesis using assms posting by (cases c1) auto
  next
    case (Done e)
    then have "e \<noteq> Completed" using assms(3,4) by (cases c) (auto split: if_splits simp: bindR_Inr_iff case_prod_unfold Let_def)
    then show ?thesis using send_op_front [OF assms(1,2)] assms(3) Done by simp
  qed
qed

lemma flush_front:
  assumes "send_inv d" and "send_op (FStored wsa) d = Inr (Flushed ok (Some (buf, len)), d')"
  shows "\<exists>p. buf = Some p \<and> front p (take (unat len) (cb_contents (snd_buffer d))) (snd_buffer d') \<and>
    unat len \<le> length (cb_contents (snd_buffer d))"
proof -
  have inv: "cb_inv (snd_buffer d)" using assms(1) by (simp add: send_inv_def)
  have c: "buf = GetBufferStart (snd_buffer d)" "len = GetContiguiousBytes (snd_buffer d)" "len \<noteq> 0"
    "snd_buffer d' = snd_buffer d" using assms(2) by (auto split: if_splits)
  then have "mARegionSize (snd_buffer d) > 0" using GetContiguiousBytes_A [OF inv] by (simp add: word_gt_0)
  then show ?thesis
    using c inv GetContiguiousBytes_A [OF inv] length_cb_contents [OF inv]
    by (auto simp: GetBufferStart_def front_def min_def)
qed

text \<open>The sends in flight after a sequence of calls; \<open>None\<close> when a completion comes without a send.\<close>

fun in_flight :: "nat \<Rightarrow> (send_point \<times> send_event) list \<Rightarrow> nat option" where
  "in_flight n [] = Some n"
| "in_flight n ((c, Flushed ok (Some h)) # log) = in_flight (Suc n) log"
| "in_flight n ((c, Completed) # log) = (if n = 0 then None else in_flight (n - 1) log)"
| "in_flight n ((c, Posted ok) # log) = in_flight n log"
| "in_flight n ((c, Flushed ok None) # log) = in_flight n log"

lemma replays_in_flight:
  "replays send_op d log d' \<Longrightarrow> list_all (\<lambda>(c, e). send_call c) log \<Longrightarrow> in_flight n log = Some m \<Longrightarrow>
     snd_pending d = of_nat n \<Longrightarrow> n \<le> 1 \<Longrightarrow> snd_pending d' = of_nat m \<and> m \<le> 1"
proof (induction n log arbitrary: d rule: in_flight.induct)
  case (2 n c ok h log)
  then obtain wsa where "c = FStored wsa" by (cases c) (auto simp: bindR_Inr_iff Let_def case_prod_unfold split: if_splits)
  with 2 show ?case by (cases n) (auto split: if_splits)
next
  case (3 n c log)
  then obtain k where "c = SRemove k" by (cases c) (auto simp: bindR_Inr_iff Let_def case_prod_unfold split: if_splits)
  with 3 show ?case by (cases n) (auto simp: bindR_Inr_iff split: if_splits)
next
  case (4 n c ok log)
  then obtain data where "c = PRoom data" by (cases c) (auto simp: bindR_Inr_iff Let_def case_prod_unfold split: if_splits)
  with 4 show ?case by (auto simp: bindR_Inr_iff case_prod_unfold Let_def split: if_splits)
next
  case (5 n c ok log)
  then obtain wsa where "c = FStored wsa" by (cases c) (auto simp: bindR_Inr_iff Let_def case_prod_unfold split: if_splits)
  with 5 show ?case by (auto split: if_splits)
qed simp

section \<open>A run\<close>

text \<open>A post of two bytes, a flush of them, and a second post half way through its copy.\<close>

definition demo_side :: SendSide where
  "demo_side = \<lparr>snd_buffer = CircularBuffer_new (\<lambda>_. 0) 4, snd_pending = 0\<rparr>"

definition demo_posted :: "byte list \<Rightarrow> 32 word \<Rightarrow> SendSide" where
  "demo_posted bs k = \<lparr>snd_buffer = (CircularBuffer_new (\<lambda>_. 0) 4)\<lparr>mBuffer := bs, mARegionSize := 2\<rparr>, snd_pending = k\<rparr>"

definition demo_log :: "(send_point \<times> send_event) list" where
  "demo_log = [(PRoom [7, 8], Posted True), (FStored WsaOk, Flushed True (Some (Some 0, 2)))]"

lemmas demo_simps = demo_side_def demo_posted_def CircularBuffer_new_def GetFreeSpaceSize_def GetAFreeSpace_def
  GetBuffer_def Commit_def GetContiguiousBytes_def GetBufferStart_def store_slot_def upt_rec

lemma demo_inv: "send_inv demo_side" "snd_pending demo_side = 0" "cb_contents (snd_buffer demo_side) = []"
  by (simp_all add: send_inv_def demo_side_def cb_new_inv cb_new_contents)

lemma demo_paths:
  "body_path send_body (PRoom [7, 8]) demo_side (Done (Posted True)) (demo_posted [7, 8, 0, 0] 0)"
  "body_path send_body (FStored WsaOk) (demo_posted [7, 8, 0, 0] 0)
     (Done (Flushed True (Some (Some 0, 2)))) (demo_posted [7, 8, 0, 0] 1)"
  "body_path send_body (PRoom [9]) (demo_posted [7, 8, 0, 0] 1) (At (PCopy [9] 1 2)) (demo_posted [7, 8, 9, 0] 1)"
proof -
  have "body_run send_body (Suc (Suc (Suc (Suc (Suc 0))))) (At (PRoom [7, 8])) demo_side = Inr (Done (Posted True), demo_posted [7, 8, 0, 0] 0)"
    by (simp add: demo_simps)
  then show "body_path send_body (PRoom [7, 8]) demo_side (Done (Posted True)) (demo_posted [7, 8, 0, 0] 0)"
    by (rule body_run_path)
  have "body_run send_body (Suc (Suc (Suc (Suc 0)))) (At (FStored WsaOk)) (demo_posted [7, 8, 0, 0] 0) =
      Inr (Done (Flushed True (Some (Some 0, 2))), demo_posted [7, 8, 0, 0] 1)"
    by (simp add: demo_simps)
  then show "body_path send_body (FStored WsaOk) (demo_posted [7, 8, 0, 0] 0)
      (Done (Flushed True (Some (Some 0, 2)))) (demo_posted [7, 8, 0, 0] 1)"
    by (rule body_run_path)
  have "body_run send_body (Suc (Suc 0)) (At (PRoom [9])) (demo_posted [7, 8, 0, 0] 1) =
      Inr (At (PCopy [9] 1 2), demo_posted [7, 8, 9, 0] 1)"
    by (simp add: demo_simps)
  then show "body_path send_body (PRoom [9]) (demo_posted [7, 8, 0, 0] 1) (At (PCopy [9] 1 2)) (demo_posted [7, 8, 9, 0] 1)"
    by (rule body_run_path)
qed

definition demo_threads :: "(send_point, SendSide, send_event) guarded" where
  "demo_threads = inside_at 1 (PRoom [9]) (At (PCopy [9] 1 2)) (demo_posted [7, 8, 9, 0] 1) demo_log"

lemma demo_threads: "finished demo_threads = demo_log" "shared demo_threads = demo_posted [7, 8, 9, 0] 1"
  "pcs (lk demo_threads) 1 = Locked" "work demo_threads 1 = Some (PRoom [9], At (PCopy [9] 1 2))"
  by (simp_all add: demo_threads_def inside_at_def set_lock_def)

lemma demo_stream: "fold stream_event demo_log [] = [7, 8]"
  by (simp add: demo_log_def)

lemma demo_reachable:
  "guarded_reachable 2 send_call send_body demo_side (quiet_at (demo_posted [7, 8, 0, 0] 1) demo_log)"
  "guarded_reachable 2 send_call send_body demo_side demo_threads"
proof -
  have "guarded_reachable 2 send_call send_body demo_side
      (quiet_at (demo_posted [7, 8, 0, 0] 0) ([] @ [(PRoom [7, 8], Posted True)]))"
    by (rule quiet_call [OF demo_paths(1) quiet_start]) simp_all
  from quiet_call [OF demo_paths(2) this]
  show r: "guarded_reachable 2 send_call send_body demo_side (quiet_at (demo_posted [7, 8, 0, 0] 1) demo_log)"
    by (simp add: demo_log_def)
  show "guarded_reachable 2 send_call send_body demo_side demo_threads"
    unfolding demo_threads_def by (rule quiet_inside [OF demo_paths(3) r]) simp_all
qed

section \<open>Properties of the send side\<close>

text \<open>C3: However the threads that post, flush and complete sends are interleaved, statement by statement and
  byte by byte, what they do is what the finished calls do one after the other, in the order in which
  they left the lock: the bytes waiting to be sent are the accepted posts less the completed sends, no
  call is torn, and the thread inside the lock never faults.\<close>

theorem concurrent_sends_are_serial:
  assumes "guarded_reachable N send_call send_body d0 s" and "N \<le> 2048" and "send_inv d0"
  shows "\<exists>d. replays send_op d0 (finished s) d \<and>
    cb_contents (snd_buffer d) = fold stream_event (finished s) (cb_contents (snd_buffer d0)) \<and>
    ((\<forall>i. pcs (lk s) i \<noteq> Locked) \<longrightarrow> shared s = d) \<and>
    (\<forall>i c c1. pcs (lk s) i = Locked \<longrightarrow> work s i = Some (c, At c1) \<longrightarrow> (\<exists>pt d2. send_body c1 (shared s) = Inr (pt, d2)))"
proof -
  obtain d where d: "replays send_op d0 (finished s) d" "list_all (\<lambda>(c, e). send_call c) (finished s)"
    "(\<forall>i. pcs (lk s) i \<noteq> Locked) \<longrightarrow> shared s = d"
    "\<forall>i c c1. pcs (lk s) i = Locked \<longrightarrow> work s i = Some (c, At c1) \<longrightarrow> (\<exists>pt d2. send_body c1 (shared s) = Inr (pt, d2))"
    using send_side.linearised [OF assms] by blast
  with replays_stream [OF d(1) assms(3) d(2)] show ?thesis by blast
qed

theorem concurrent_sends_are_serial_witness:
  "\<exists>d. replays send_op demo_side demo_log d \<and> cb_contents (snd_buffer d) = [7, 8] \<and> (2 :: nat) \<le> 2048 \<and>
     (\<exists>pt d2. send_body (PCopy [9] 1 2) (demo_posted [7, 8, 9, 0] 1) = Inr (pt, d2))"
  using concurrent_sends_are_serial [OF demo_reachable(2) _ demo_inv(1)] demo_threads(3,4)
  unfolding demo_threads(1,2) demo_inv(3) demo_stream by force

text \<open>C6: The bytes a flush has handed to the kernel stay what they are, at the address the kernel was given,
  until the send completes: no concurrent \<open>PostSend\<close> (even half way through its copy) and no other
  flush writes to them.\<close>

theorem kernel_reads_stable_bytes:
  assumes "guarded_reachable N send_call send_body d0 s" and "N \<le> 2048" and "send_inv d0"
    and "finished s = before @ (FStored wsa, Flushed ok (Some (buf, len))) # after"
    and "list_all (\<lambda>(c, e). e \<noteq> Completed) after"
    and "\<And>i n pt. pcs (lk s) i = Locked \<Longrightarrow> work s i \<noteq> Some (SRemove n, pt)"
  shows "\<exists>p. buf = Some p \<and> memread (unat p) (unat len) (mBuffer (snd_buffer (shared s))) =
    Inr (take (unat len) (fold stream_event before (cb_contents (snd_buffer d0))))"
proof -
  obtain d where d: "replays send_op d0 (finished s) d" "list_all (\<lambda>(c, e). send_call c) (finished s)"
    "(\<forall>i. pcs (lk s) i \<noteq> Locked) \<longrightarrow> shared s = d" "send_inv d"
    "\<forall>i. pcs (lk s) i = Locked \<longrightarrow>
       (\<exists>c pt. work s i = Some (c, pt) \<and> send_call c \<and> body_path send_body c d pt (shared s))"
    using send_side.linearised [OF assms(1-3)] by blast
  obtain d1 d2 where log: "replays send_op d0 before d1"
    "send_op (FStored wsa) d1 = Inr (Flushed ok (Some (buf, len)), d2)" "replays send_op d2 after d"
    using d(1) assms(4) by (auto simp: replays_append)
  have calls: "list_all (\<lambda>(c, e). send_call c) before" "list_all (\<lambda>(c, e). send_call c) after" using d(2) assms(4) by simp_all
  have d1: "send_inv d1" "cb_contents (snd_buffer d1) = fold stream_event before (cb_contents (snd_buffer d0))"
    by (rule replays_send_inv [OF log(1) assms(3) calls(1)], rule replays_stream [OF log(1) assms(3) calls(1)])
  define xs where "xs = take (unat len) (cb_contents (snd_buffer d1))"
  obtain p where p: "buf = Some p" "front p xs (snd_buffer d2)" "length xs = unat len"
    using flush_front [OF d1(1) log(2)] by (auto simp: xs_def)
  have f: "front p xs (snd_buffer d)" by (rule replays_front [OF log(3) p(2) calls(2) assms(5)])
  have "front p xs (snd_buffer (shared s))"
  proof (cases "\<exists>i. pcs (lk s) i = Locked")
    case True
    then obtain i c pt where held: "pcs (lk s) i = Locked" "work s i = Some (c, pt)" "send_call c"
      "body_path send_body c d pt (shared s)" using d(5) by blast
    have "\<forall>n. c \<noteq> SRemove n" using assms(6) held(1,2) by blast
    then show ?thesis using reached_front [OF f held(3)] path_reached [OF held(4) d(4) held(3)] by blast
  next
    case False
    then show ?thesis using f d(3) by simp
  qed
  then show ?thesis using front_read p(1,3) d1(2) xs_def by metis
qed

theorem kernel_reads_stable_bytes_witness:
  "\<exists>p. Some (0 :: offset) = Some p \<and> memread (unat p) 2 (mBuffer (snd_buffer (shared demo_threads))) = Inr [7, 8]"
  using kernel_reads_stable_bytes [OF demo_reachable(2) _ demo_inv(1), of "[(PRoom [7, 8], Posted True)]" WsaOk True "Some 0" 2 "[]"]
  by (auto simp: demo_threads_def inside_at_def demo_inv(3) demo_log_def set_lock_def lock_init_def split: if_splits)

text \<open>C13: At most one send of a session is in flight, as long as every completion belongs to a send: the
  pending counter counts the accepted flushes that have not completed, and it is 0 or 1.\<close>

theorem one_send_in_flight:
  assumes "guarded_reachable N send_call send_body d0 s" and "N \<le> 2048" and "send_inv d0"
    and "snd_pending d0 = 0" and "in_flight 0 (finished s) = Some n"
  shows "n \<le> 1 \<and> ((\<forall>i. pcs (lk s) i \<noteq> Locked) \<longrightarrow> snd_pending (shared s) = of_nat n)"
proof -
  obtain d where d: "replays send_op d0 (finished s) d" "list_all (\<lambda>(c, e). send_call c) (finished s)"
    "(\<forall>i. pcs (lk s) i \<noteq> Locked) \<longrightarrow> shared s = d"
    using send_side.linearised [OF assms(1-3)] by blast
  then show ?thesis using replays_in_flight [OF d(1,2) assms(5)] assms(4) by auto
qed

theorem one_send_in_flight_witness:
  "in_flight 0 demo_log = Some 1 \<and> snd_pending (demo_posted [7, 8, 0, 0] 1) = 1 \<and> (1 :: nat) \<le> 1"
  using one_send_in_flight [OF demo_reachable(1) _ demo_inv(1,2), of 1]
  by (simp add: demo_log_def quiet_at_def lock_init_def)

text \<open>The calls of \<open>Session\<close> are these operations: on a connected session \<open>PostSend\<close>, \<open>FlushSend\<close> and
  \<open>SendCompletion\<close> change the send buffer and the pending counter as the guarded operations do and
  return the same, and an accepted flush adds a context with the bytes the operation hands over.\<close>

lemma session_calls_act_on_send_side:
  assumes "ss_inv s" and "ss_room s" and "ss_IsConnected s" and "length data < 2 ^ 32"
  shows "map_sum id (\<lambda>(ok, s'). (Posted ok, send_side_of s')) (ss_PostSend data s) = send_op (PRoom data) (send_side_of s) \<and>
    map_sum id (\<lambda>s'. (Completed, send_side_of s')) (ss_SendCompletion n s) = send_op (SRemove n) (send_side_of s) \<and>
    (\<exists>ok h s'. ss_FlushSend wsa s = Inr (ok, s') \<and>
       send_op (FStored wsa) (send_side_of s) = Inr (Flushed ok h, send_side_of s') \<and>
       map (\<lambda>c. (mWsaBuf_buf c, mWsaBuf_len c)) (ss_contexts s') =
         (case h of None \<Rightarrow> [] | Some b \<Rightarrow> [b]) @ map (\<lambda>c. (mWsaBuf_buf c, mWsaBuf_len c)) (ss_contexts s))"
proof (intro conjI)
  have lock: "ss_mSendBufferLock s = 0" using assms(1) by (simp add: ss_inv_def)
  show "map_sum id (\<lambda>(ok, s'). (Posted ok, send_side_of s')) (ss_PostSend data s) = send_op (PRoom data) (send_side_of s)"
    using assms(3) lock
    by (auto simp: ss_PostSend_def ss_guarded_free send_side_of_def Let_def case_prod_unfold bindR_def split: sum.splits)
  show "map_sum id (\<lambda>s'. (Completed, send_side_of s')) (ss_SendCompletion n s) = send_op (SRemove n) (send_side_of s)"
    using lock by (auto simp: ss_SendCompletion_def ss_guarded_free send_side_of_def bindR_def split: sum.splits)
  show "\<exists>ok h s'. ss_FlushSend wsa s = Inr (ok, s') \<and>
       send_op (FStored wsa) (send_side_of s) = Inr (Flushed ok h, send_side_of s') \<and>
       map (\<lambda>c. (mWsaBuf_buf c, mWsaBuf_len c)) (ss_contexts s') =
         (case h of None \<Rightarrow> [] | Some b \<Rightarrow> [b]) @ map (\<lambda>c. (mWsaBuf_buf c, mWsaBuf_len c)) (ss_contexts s)"
    by (simp add: FlushSend_ok [OF assms(1-3)] send_side_of_def ss_after_reject_def flush_context_def) blast
qed

end
