(* ===== verification/RefCount_Threads.thy ===== *)
theory RefCount_Threads
  imports MssqlSession ClientSession
begin

text \<open>
  The reference counter of a session used by several threads. \<open>AddRef\<close> and \<open>ReleaseRef\<close> are the same in both
  session classes: one interlocked operation on \<open>mRefCount\<close>, followed by tests of the value it
  returned and, for the last reference, by the release of the session (\<open>OnRelease\<close> in the second server,
  a call to the session manager in the first). The interlocked operation is one step, every test and the
  release are steps of their own, and the steps of any number of threads are interleaved.
\<close>

section \<open>The calls\<close>

text \<open>Where a thread is: outside, after \<open>InterlockedIncrement\<close> or \<open>InterlockedDecrement\<close> with the returned value, or
  before the release.\<close>

datatype ref_pc = NoCall | AddTest LONG | ReleaseTest LONG | Releasing

text \<open>One step inside a call; the flag tells whether it releases the session.\<close>

fun ref_exec :: "ref_pc \<Rightarrow> (ref_pc \<times> bool) result" where
  "ref_exec (AddTest ref) = bindR (CRASH_ASSERT (sint ref > 0)) (\<lambda>_. Inr (NoCall, False))"
| "ref_exec (ReleaseTest ret) = bindR (CRASH_ASSERT (sint ret \<ge> 0)) (\<lambda>_. Inr (if ret = 0 then Releasing else NoCall, False))"
| "ref_exec Releasing = Inr (NoCall, True)"
| "ref_exec NoCall = Inr (NoCall, False)"

text \<open>Any thread calls \<open>AddRef\<close> and \<open>ReleaseRef\<close> at any time, whether or not it holds a reference; the constructors of
  contexts call the first on a session whose counter is 0. Besides the counter and the threads, the state has what has
  happened: the number of \<open>AddRef\<close> calls less that of \<open>ReleaseRef\<close> calls, how often the counter was raised from
  0 and taken to 0, whether a \<open>ReleaseRef\<close> has found no reference, and how often the session was released. There are
  fewer than 2147483647 references at a time.\<close>

record ref_sys =
  ref_count :: LONG
  ref_pcs :: "nat \<Rightarrow> ref_pc"
  ref_balance :: int
  ref_starts :: nat
  ref_ends :: nat
  ref_overdrawn :: bool
  ref_released :: nat

definition ref_init :: ref_sys where
  "ref_init = \<lparr>ref_count = 0, ref_pcs = (\<lambda>_. NoCall), ref_balance = 0, ref_starts = 0, ref_ends = 0,
     ref_overdrawn = False, ref_released = 0\<rparr>"

inductive ref_step :: "nat \<Rightarrow> ref_sys \<Rightarrow> ref_sys \<Rightarrow> bool" for N :: nat where
  add: "i < N \<Longrightarrow> ref_pcs s i = NoCall \<Longrightarrow> ref_balance s < 2 ^ 31 - 1 \<Longrightarrow>
     ref_step N s (s\<lparr>ref_count := ref_count s + 1, ref_pcs := (ref_pcs s)(i := AddTest (ref_count s + 1)),
       ref_balance := ref_balance s + 1, ref_starts := ref_starts s + (if ref_balance s = 0 then 1 else 0)\<rparr>)"
| release: "i < N \<Longrightarrow> ref_pcs s i = NoCall \<Longrightarrow> - (2 ^ 31) < ref_balance s \<Longrightarrow>
     ref_step N s (s\<lparr>ref_count := ref_count s - 1, ref_pcs := (ref_pcs s)(i := ReleaseTest (ref_count s - 1)),
       ref_balance := ref_balance s - 1, ref_ends := ref_ends s + (if ref_balance s = 1 then 1 else 0),
       ref_overdrawn := ref_overdrawn s \<or> ref_balance s \<le> 0\<rparr>)"
| inside: "i < N \<Longrightarrow> ref_pcs s i \<noteq> NoCall \<Longrightarrow> ref_exec (ref_pcs s i) = Inr (pc, z) \<Longrightarrow>
     ref_step N s (s\<lparr>ref_pcs := (ref_pcs s)(i := pc), ref_released := ref_released s + (if z then 1 else 0)\<rparr>)"

inductive ref_reachable :: "nat \<Rightarrow> ref_sys \<Rightarrow> bool" for N :: nat where
  init: "ref_reachable N ref_init"
| step: "ref_reachable N s \<Longrightarrow> ref_step N s s' \<Longrightarrow> ref_reachable N s'"

section \<open>A thread alone makes the calls of the session classes\<close>

fun ref_finish :: "ref_pc \<Rightarrow> bool result" where
  "ref_finish (AddTest ref) = bindR (ref_exec (AddTest ref)) (\<lambda>_. Inr False)"
| "ref_finish (ReleaseTest ret) =
     bindR (ref_exec (ReleaseTest ret)) (\<lambda>(pc, z). bindR (ref_exec pc) (\<lambda>(pc, z). Inr z))"
| "ref_finish pc = bindR (ref_exec pc) (\<lambda>(pc, z). Inr z)"

lemma calls_alone:
  "ss_AddRef s = bindR (ref_finish (AddTest (ss_mRefCount s + 1))) (\<lambda>_. Inr (s\<lparr>ss_mRefCount := ss_mRefCount s + 1\<rparr>))"
  "ss_ReleaseRef s = bindR (ref_finish (ReleaseTest (ss_mRefCount s - 1))) (\<lambda>z.
     Inr (s\<lparr>ss_mRefCount := ss_mRefCount s - 1, ss_on_release := ss_on_release s + (if z then 1 else 0)\<rparr>))"
  "cs_AddRef c = bindR (ref_finish (AddTest (cs_mRefCount c + 1))) (\<lambda>_. Inr (c\<lparr>cs_mRefCount := cs_mRefCount c + 1\<rparr>))"
  "cs_ReleaseRef on_zero c = bindR (ref_finish (ReleaseTest (cs_mRefCount c - 1))) (\<lambda>z.
     let c' = c\<lparr>cs_mRefCount := cs_mRefCount c - 1\<rparr> in if z then on_zero c' else Inr c')"
  by (simp_all add: ss_AddRef_def ss_ReleaseRef_def cs_AddRef_def cs_ReleaseRef_def Let_def CRASH_ASSERT_def bindR_def)

section \<open>The invariant\<close>

fun pc_ok :: "ref_pc \<Rightarrow> bool" where
  "pc_ok (AddTest ref) \<longleftrightarrow> sint ref > 0"
| "pc_ok (ReleaseTest ret) \<longleftrightarrow> sint ret \<ge> 0"
| "pc_ok pc \<longleftrightarrow> True"

text \<open>The threads that have taken the counter to 0 and have not yet released the session.\<close>

definition is_last :: "ref_pc \<Rightarrow> bool" where
  "is_last pc \<longleftrightarrow> pc = ReleaseTest 0 \<or> pc = Releasing"

definition lasts :: "nat \<Rightarrow> ref_sys \<Rightarrow> nat set" where
  "lasts N s = {i. i < N \<and> is_last (ref_pcs s i)}"

definition ref_inv :: "nat \<Rightarrow> ref_sys \<Rightarrow> bool" where
  "ref_inv N s \<longleftrightarrow> sint (ref_count s) = ref_balance s \<and>
     (ref_overdrawn s \<longleftrightarrow> (\<exists>i < N. \<not> pc_ok (ref_pcs s i))) \<and>
     card (lasts N s) + ref_released s = ref_ends s \<and>
     (\<not> ref_overdrawn s \<longrightarrow> 0 \<le> ref_balance s \<and> ref_starts s = ref_ends s + (if ref_balance s = 0 then 0 else 1))"

lemma finite_lasts [simp]: "finite (lasts N s)"
  by (simp add: lasts_def)

lemma lasts_cong: "ref_pcs s' = ref_pcs s \<Longrightarrow> lasts N s' = lasts N s"
  by (simp add: lasts_def)

lemma card_lasts_upd:
  assumes "i < N" and "ref_pcs s' = (ref_pcs s)(i := pc)"
  shows "card (lasts N s') + (if is_last (ref_pcs s i) then 1 else 0) = card (lasts N s) + (if is_last pc then 1 else 0)"
proof -
  have "lasts N s' = (if is_last pc then insert i (lasts N s) else lasts N s - {i})"
    using assms by (auto simp: lasts_def)
  moreover have "i \<in> lasts N s \<longleftrightarrow> is_last (ref_pcs s i)" using assms by (simp add: lasts_def)
  moreover have "i \<in> lasts N s \<Longrightarrow> 0 < card (lasts N s)" by (auto simp: card_gt_0_iff)
  ultimately show ?thesis by (auto simp: card_insert_if)
qed

lemma exec_ok: "(\<exists>pc' z. ref_exec pc = Inr (pc', z)) \<longleftrightarrow> pc_ok pc"
  by (cases pc) (auto simp: CRASH_ASSERT_def)

lemma exec_crash: "ref_exec pc = Inl CrashAssert \<longleftrightarrow> \<not> pc_ok pc"
  by (cases pc) (auto simp: CRASH_ASSERT_def)

lemma exec_keeps_ok: "ref_exec pc = Inr (pc', z) \<Longrightarrow> pc_ok pc \<and> pc_ok pc'"
  by (cases pc) (auto simp: CRASH_ASSERT_def split: if_splits)

lemma exec_last: "ref_exec pc = Inr (pc', z) \<Longrightarrow> pc \<noteq> NoCall \<Longrightarrow>
    (if is_last pc' then 1 else 0) + (if z then 1 else 0) = (if is_last pc then 1 else (0 :: nat))"
  by (cases pc) (auto simp: is_last_def CRASH_ASSERT_def split: if_splits)

lemma ref_step_inv: "ref_step N s s' \<Longrightarrow> ref_inv N s \<Longrightarrow> ref_inv N s'"
proof (induction rule: ref_step.induct)
  case (add i s)
  define s' where "s' = s\<lparr>ref_count := ref_count s + 1, ref_pcs := (ref_pcs s)(i := AddTest (ref_count s + 1)),
       ref_balance := ref_balance s + 1, ref_starts := ref_starts s + (if ref_balance s = 0 then 1 else 0)\<rparr>"
  have c: "sint (ref_count s + 1) = ref_balance s + 1"
    using add(3,4) sint_incr [of "ref_count s"] by (simp add: ref_inv_def)
  have l: "card (lasts N s') = card (lasts N s)"
    using card_lasts_upd [OF add(1), of s' s "AddTest (ref_count s + 1)"] add(2) by (simp add: s'_def is_last_def)
  have o: "(\<exists>k < N. \<not> pc_ok (ref_pcs s' k)) \<longleftrightarrow> ref_overdrawn s"
  proof (cases "ref_overdrawn s")
    case True
    then obtain k where "k < N" "\<not> pc_ok (ref_pcs s k)" using add(4) by (auto simp: ref_inv_def)
    then show ?thesis using True add(2) by (auto simp: s'_def intro!: exI [of _ k])
  next
    case False
    then show ?thesis using add(4) c by (auto simp: s'_def ref_inv_def)
  qed
  show ?case unfolding s'_def [symmetric] using add(4) c l o by (simp add: ref_inv_def) (auto simp: s'_def)
next
  case (release i s)
  define s' where "s' = s\<lparr>ref_count := ref_count s - 1, ref_pcs := (ref_pcs s)(i := ReleaseTest (ref_count s - 1)),
       ref_balance := ref_balance s - 1, ref_ends := ref_ends s + (if ref_balance s = 1 then 1 else 0),
       ref_overdrawn := ref_overdrawn s \<or> ref_balance s \<le> 0\<rparr>"
  have c: "sint (ref_count s - 1) = ref_balance s - 1"
    using release(3,4) sint_decr [of "ref_count s"] by (simp add: ref_inv_def)
  then have "ref_count s - 1 = 0 \<longleftrightarrow> ref_balance s = 1" by (metis diff_eq_eq add_0 eq_iff_diff_eq_0 signed_eq_0_iff)
  then have l: "card (lasts N s') = card (lasts N s) + (if ref_balance s = 1 then 1 else 0)"
    using card_lasts_upd [OF release(1), of s' s "ReleaseTest (ref_count s - 1)"] release(2) by (simp add: s'_def is_last_def)
  have o: "(\<exists>k < N. \<not> pc_ok (ref_pcs s' k)) \<longleftrightarrow> ref_overdrawn s \<or> ref_balance s \<le> 0"
  proof (cases "ref_overdrawn s")
    case True
    then obtain k where "k < N" "\<not> pc_ok (ref_pcs s k)" using release(4) by (auto simp: ref_inv_def)
    then show ?thesis using True release(2) by (auto simp: s'_def intro!: exI [of _ k])
  next
    case False
    then show ?thesis using release(1,4) c by (auto simp: s'_def ref_inv_def)
  qed
  show ?case unfolding s'_def [symmetric] using release(4) c l o by (simp add: ref_inv_def) (auto simp: s'_def)
next
  case (inside i s pc z)
  define s' where "s' = s\<lparr>ref_pcs := (ref_pcs s)(i := pc), ref_released := ref_released s + (if z then 1 else 0)\<rparr>"
  have l: "card (lasts N s') + ref_released s' = card (lasts N s) + ref_released s"
    using card_lasts_upd [OF inside(1), of s' s pc] exec_last [OF inside(3,2)] by (simp add: s'_def split: if_splits)
  have "(\<exists>k < N. \<not> pc_ok (ref_pcs s' k)) \<longleftrightarrow> (\<exists>k < N. \<not> pc_ok (ref_pcs s k))"
    using exec_keeps_ok [OF inside(3)] by (auto simp: s'_def)
  then show ?case unfolding s'_def [symmetric] using inside(4) l by (simp add: ref_inv_def) (simp add: s'_def)
qed

lemma ref_reachable_inv: "ref_reachable N s \<Longrightarrow> ref_inv N s"
proof (induction rule: ref_reachable.induct)
  case init
  show ?case by (simp add: ref_inv_def ref_init_def lasts_def is_last_def)
qed (rule ref_step_inv)

section \<open>Properties of the counter\<close>

text \<open>C9: However the calls of \<open>AddRef\<close> and \<open>ReleaseRef\<close> of several threads are interleaved, within the range of a \<open>long\<close>: the counter is the number
  of \<open>AddRef\<close> calls less the number of \<open>ReleaseRef\<close> calls; a thread stands before a failing assertion exactly if some
  \<open>ReleaseRef\<close> was called when there was no reference. If none was, the session is released once for every
  time the counter is raised from 0 and falls back to it, after it has fallen: while a reference exists, one of these times is
  still to come, and when all calls have returned and no reference exists, the releases are as many as the
  calls of \<open>AddRef\<close> that found the counter at 0.\<close>

theorem last_reference_releases_once:
  assumes "ref_reachable N s"
  shows "sint (ref_count s) = ref_balance s \<and>
    ((\<exists>i < N. ref_exec (ref_pcs s i) = Inl CrashAssert) \<longleftrightarrow> ref_overdrawn s) \<and>
    (\<not> ref_overdrawn s \<longrightarrow> 0 \<le> ref_balance s \<and>
       ref_released s \<le> ref_starts s - (if ref_balance s = 0 then 0 else 1) \<and>
       ((\<forall>i < N. ref_pcs s i = NoCall) \<longrightarrow> ref_released s = ref_starts s - (if ref_balance s = 0 then 0 else 1)))"
proof -
  note inv = ref_reachable_inv [OF assms]
  have "lasts N s = {}" if "\<forall>i < N. ref_pcs s i = NoCall" using that by (simp add: lasts_def is_last_def)
  then show ?thesis using inv by (auto simp: ref_inv_def exec_crash)
qed

text \<open>Two threads: thread 0 adds a reference, thread 1 gives it up and releases the session.\<close>

lemma demo_release:
  "\<exists>s. ref_reachable 2 s \<and> ref_balance s = 0 \<and> (\<forall>i. ref_pcs s i = NoCall) \<and> ref_starts s = 1 \<and> \<not> ref_overdrawn s"
proof -
  define s1 where "s1 = ref_init\<lparr>ref_count := 1, ref_pcs := (\<lambda>_. NoCall)(0 := AddTest 1), ref_balance := 1, ref_starts := 1\<rparr>"
  define s2 where "s2 = s1\<lparr>ref_pcs := \<lambda>_. NoCall\<rparr>"
  define s3 where "s3 = s2\<lparr>ref_count := 0, ref_pcs := (\<lambda>_. NoCall)(1 := ReleaseTest 0), ref_balance := 0, ref_ends := 1\<rparr>"
  define s4 where "s4 = s3\<lparr>ref_pcs := (\<lambda>_. NoCall)(1 := Releasing)\<rparr>"
  define s5 where "s5 = s4\<lparr>ref_pcs := \<lambda>_. NoCall, ref_released := 1\<rparr>"
  note defs = s1_def s2_def s3_def s4_def s5_def ref_init_def
  have "ref_step 2 ref_init s1" using ref_step.add [of 0 2 ref_init] by (simp add: defs)
  moreover have "ref_step 2 s1 s2" using ref_step.inside [of 0 2 s1 NoCall False] by (simp add: defs fun_upd_idem)
  moreover have "ref_step 2 s2 s3" using ref_step.release [of 1 2 s2] by (simp add: defs)
  moreover have "ref_step 2 s3 s4" using ref_step.inside [of 1 2 s3 Releasing False] by (simp add: defs)
  moreover have "ref_step 2 s4 s5" using ref_step.inside [of 1 2 s4 NoCall True] by (simp add: defs fun_upd_idem)
  ultimately have "ref_reachable 2 s5" using ref_reachable.init [of 2] ref_reachable.step by metis
  moreover have "ref_balance s5 = 0" "\<forall>i. ref_pcs s5 i = NoCall" "ref_starts s5 = 1" "\<not> ref_overdrawn s5" by (simp_all add: defs)
  ultimately show ?thesis by blast
qed

theorem last_reference_releases_once_witness:
  "\<exists>s. ref_reachable 2 s \<and> ref_count s = 0 \<and> ref_released s = 1"
proof -
  obtain s where s: "ref_reachable 2 s" "ref_balance s = 0" "\<forall>i. ref_pcs s i = NoCall" "ref_starts s = 1" "\<not> ref_overdrawn s"
    using demo_release by blast
  with last_reference_releases_once [OF s(1)] show ?thesis by (auto simp: signed_eq_0_iff)
qed

end
