(* ===== verification/Context_Pools.thy ===== *)
theory Context_Pools
  imports MssqlSession ObjectPool "HOL-Library.Multiset"
begin

text \<open>
  The contexts of all sessions of the second server in the memory they are allocated from. Every context class
  derives from an \<open>ObjectPool\<close> of its own (\<open>OverlappedIOContext.hpp\<close>), whose free list and counters are static: one pool per class,
  shared by the sessions. \<open>new\<close> takes an object from the pool of its class before the constructor adds a reference to its
  session, and \<open>DeleteIoContext\<close> gives up the reference before it returns the object to the pool of the class that the
  type field names. The methods of \<open>Session\<close> touch the pools only through these two.
\<close>

section \<open>New and delete on the pools\<close>

definition ALLOC_COUNT :: nat where "ALLOC_COUNT = 100"

text \<open>The sessions, the pool of every context class, and the contexts: the address of the object, the session that owns it and
  its fields. For every session the balance of references that belong to no context is kept beside (as in \<open>ss_reachable\<close>).\<close>

record pooled_server =
  ps_sessions :: "nat \<Rightarrow> Session"
  ps_pools :: "IOType \<Rightarrow> tracked_pool"
  ps_placed :: "(nat \<times> nat \<times> io_context) list"
  ps_balance :: "nat \<Rightarrow> int"

text \<open>\<open>new Overlapped...Context(this)\<close> in session \<open>i\<close>, and the fields its caller sets before the next call that can fail;
  \<open>sizeof_ctx\<close> gives the sizes of the classes.\<close>

definition new_placed ::
  "(IOType \<Rightarrow> nat) \<Rightarrow> nat \<Rightarrow> IOType \<Rightarrow> (io_context \<Rightarrow> io_context) \<Rightarrow> pooled_server \<Rightarrow> pooled_server result" where
  "new_placed sizeof_ctx i t set_fields ps =
     bindR (tracked_new (sizeof_ctx t) ALLOC_COUNT (ps_pools ps t)) (\<lambda>(obj, pool).
     bindR (OverlappedIOContext_new t (ps_sessions ps i)) (\<lambda>(context, s).
     let context = set_fields context in
     Inr (ps\<lparr>ps_sessions := (ps_sessions ps)(i := ss_keep context s), ps_pools := (ps_pools ps)(t := pool),
       ps_placed := (obj, i, context) # ps_placed ps\<rparr>)))"

definition delete_placed :: "nat \<times> nat \<times> io_context \<Rightarrow> pooled_server \<Rightarrow> pooled_server result" where
  "delete_placed placed ps =
     (let (obj, i, context) = placed in
      bindR (DeleteIoContext (Some context) (ps_sessions ps i)) (\<lambda>s.
      bindR (tracked_delete obj (ps_pools ps (mIoType context))) (\<lambda>pool.
      Inr (ps\<lparr>ps_sessions := (ps_sessions ps)(i := s), ps_pools := (ps_pools ps)(mIoType context := pool),
        ps_placed := remove1 placed (ps_placed ps)\<rparr>))))"

definition pooled_init :: "new_array_fn \<Rightarrow> (nat \<Rightarrow> Session) \<Rightarrow> pooled_server" where
  "pooled_init new_array ss = \<lparr>ps_sessions = ss, ps_pools = (\<lambda>_. (new_array, ObjectPool_init Map.empty, {})), ps_placed = [],
     ps_balance = (\<lambda>_. 0)\<rparr>"

text \<open>The objects of a class that are in use, and the contexts of a session.\<close>

definition placed_at :: "IOType \<Rightarrow> (nat \<times> nat \<times> io_context) list \<Rightarrow> nat list" where
  "placed_at t placed = map fst (filter (\<lambda>(obj, i, context). mIoType context = t) placed)"

definition owned_by :: "nat \<Rightarrow> (nat \<times> nat \<times> io_context) list \<Rightarrow> io_context list" where
  "owned_by i placed = map (snd \<circ> snd) (filter (\<lambda>(obj, j, context). j = i) placed)"

text \<open>What the sessions do: they create and delete contexts, call \<open>AddRef\<close>, \<open>ReleaseRef\<close> and \<open>DisconnectCompletion\<close>, and change
  members other than the counter and the contexts. A class has at most 100 contexts in use at a time: beyond
  that the pool of the class follows the link that is never written.\<close>

inductive pooled_reachable :: "(IOType \<Rightarrow> nat) \<Rightarrow> new_array_fn \<Rightarrow> pooled_server \<Rightarrow> bool"
  for sizeof_ctx :: "IOType \<Rightarrow> nat" and new_array :: new_array_fn where
  start: "pooled_reachable sizeof_ctx new_array (pooled_init new_array (\<lambda>i. Session_new (junk i) (sock i) (n i) (m i)))"
| create: "pooled_reachable sizeof_ctx new_array ps \<Longrightarrow> length (placed_at t (ps_placed ps)) < ALLOC_COUNT \<Longrightarrow>
     mIoType (set_fields (new_context t)) = t \<Longrightarrow> context_ok (set_fields (new_context t)) \<Longrightarrow>
     new_placed sizeof_ctx i t set_fields ps = Inr ps' \<Longrightarrow> pooled_reachable sizeof_ctx new_array ps'"
| delete: "pooled_reachable sizeof_ctx new_array ps \<Longrightarrow> placed \<in> set (ps_placed ps) \<Longrightarrow>
     delete_placed placed ps = Inr ps' \<Longrightarrow> pooled_reachable sizeof_ctx new_array ps'"
| addRef: "pooled_reachable sizeof_ctx new_array ps \<Longrightarrow> ss_AddRef (ps_sessions ps i) = Inr s \<Longrightarrow> pooled_reachable sizeof_ctx new_array
     (ps\<lparr>ps_sessions := (ps_sessions ps)(i := s), ps_balance := (ps_balance ps)(i := ps_balance ps i + 1)\<rparr>)"
| releaseRef: "pooled_reachable sizeof_ctx new_array ps \<Longrightarrow>
     ss_ReleaseRef (ps_sessions ps i) = Inr s \<or> ss_DisconnectCompletion dr (ps_sessions ps i) = Inr s \<Longrightarrow> pooled_reachable sizeof_ctx new_array
     (ps\<lparr>ps_sessions := (ps_sessions ps)(i := s), ps_balance := (ps_balance ps)(i := ps_balance ps i - 1)\<rparr>)"
| other: "pooled_reachable sizeof_ctx new_array ps \<Longrightarrow> ss_contexts s = ss_contexts (ps_sessions ps i) \<Longrightarrow>
     ss_mRefCount s = ss_mRefCount (ps_sessions ps i) \<Longrightarrow>
     pooled_reachable sizeof_ctx new_array (ps\<lparr>ps_sessions := (ps_sessions ps)(i := s)\<rparr>)"

section \<open>The invariant\<close>

definition pooled_inv :: "pooled_server \<Rightarrow> bool" where
  "pooled_inv ps \<longleftrightarrow>
     (\<forall>i. ss_bal (ps_balance ps i) (ps_sessions ps i) \<and> mset (ss_contexts (ps_sessions ps i)) = mset (owned_by i (ps_placed ps))) \<and>
     (\<forall>t. chunk_inv ALLOC_COUNT (ps_pools ps t) \<and> distinct (placed_at t (ps_placed ps)) \<and>
        tracked_live (ps_pools ps t) = set (placed_at t (ps_placed ps)))"

lemma placed_Cons:
  "placed_at t ((obj, i, c) # placed) = (if mIoType c = t then obj # placed_at t placed else placed_at t placed)"
  "owned_by k ((obj, i, c) # placed) = (if i = k then c # owned_by k placed else owned_by k placed)"
  by (simp_all add: placed_at_def owned_by_def)

text \<open>Within one class an address determines the context.\<close>

lemma placed_at_remove1:
  "(obj, i, c) \<in> set placed \<Longrightarrow> distinct (placed_at (mIoType c) placed) \<Longrightarrow>
     placed_at (mIoType c) (remove1 (obj, i, c) placed) = remove1 obj (placed_at (mIoType c) placed)"
proof (induction placed)
  case (Cons a placed)
  obtain o' i' c' where a: "a = (o', i', c')" by (metis prod_cases3)
  show ?case
  proof (cases "a = (obj, i, c)")
    case True
    then show ?thesis by (simp add: placed_at_def)
  next
    case False
    then have tail: "(obj, i, c) \<in> set placed" "obj \<in> set (placed_at (mIoType c) placed)"
      using Cons.prems(1) by (force simp: placed_at_def)+
    have d: "distinct (placed_at (mIoType c) placed)" using Cons.prems(2) by (simp add: a placed_Cons split: if_split_asm)
    have ne: "o' \<noteq> obj" if "mIoType c' = mIoType c"
      using Cons.prems(2) tail(2) that by (auto simp: a placed_Cons)
    have "remove1 (obj, i, c) (a # placed) = (o', i', c') # remove1 (obj, i, c) placed" using False by (auto simp: a)
    then show ?thesis using Cons.IH [OF tail(1) d] ne by (auto simp: a placed_Cons)
  qed
qed simp

lemma placed_at_remove1_other: "mIoType c \<noteq> t \<Longrightarrow> placed_at t (remove1 (obj, i, c) placed) = placed_at t placed"
  by (induction placed) (auto simp: placed_at_def)

lemma owned_by_remove1:
  "(obj, i, c) \<in> set placed \<Longrightarrow> mset (owned_by k (remove1 (obj, i, c) placed)) =
     (if k = i then mset (owned_by i placed) - {#c#} else mset (owned_by k placed))"
  by (auto simp: owned_by_def image_mset_Diff)

lemma pooled_invD:
  assumes "pooled_inv ps"
  shows "ss_bal (ps_balance ps i) (ps_sessions ps i)" "mset (ss_contexts (ps_sessions ps i)) = mset (owned_by i (ps_placed ps))"
    "chunk_inv ALLOC_COUNT (ps_pools ps t)" "distinct (placed_at t (ps_placed ps))"
    "tracked_live (ps_pools ps t) = set (placed_at t (ps_placed ps))"
  using assms by (simp_all add: pooled_inv_def)

lemma pooled_init_inv:
  assumes "non_null new_array"
  shows "pooled_inv (pooled_init new_array (\<lambda>i. Session_new (junk i) (sock i) (n i) (m i)))"
  using Session_new_inv chunk_init_inv [OF assms, of ALLOC_COUNT] ss_inv_bal
  by (simp add: pooled_inv_def pooled_init_def placed_at_def owned_by_def tracked_live_def ALLOC_COUNT_def) (simp add: Session_new_def)

lemma new_placed_inv:
  assumes inv: "pooled_inv ps" and room: "length (placed_at t (ps_placed ps)) < ALLOC_COUNT"
    and sz: "0 < sizeof_ctx t" and c: "mIoType (set_fields (new_context t)) = t" "context_ok (set_fields (new_context t))"
    and res: "new_placed sizeof_ctx k t set_fields ps = Inr ps'"
  shows "pooled_inv ps'"
proof -
  note i = pooled_invD [OF inv]
  define c where "c = set_fields (new_context t)"
  obtain obj pool ctx s where new: "tracked_new (sizeof_ctx t) ALLOC_COUNT (ps_pools ps t) = Inr (obj, pool)"
    "OverlappedIOContext_new t (ps_sessions ps k) = Inr (ctx, s)"
    and ps': "ps' = ps\<lparr>ps_sessions := (ps_sessions ps)(k := ss_keep (set_fields ctx) s), ps_pools := (ps_pools ps)(t := pool),
      ps_placed := (obj, k, set_fields ctx) # ps_placed ps\<rparr>"
    using res by (auto simp: new_placed_def bindR_Inr_iff Let_def)
  have s: "ctx = new_context t" "ss_contexts s = ss_contexts (ps_sessions ps k)" "ss_bal (ps_balance ps k) (ss_keep c s)"
    using new_context_bal [OF i(1) new(2)] c(2) by (simp_all add: c_def)
  have "card (tracked_live (ps_pools ps t)) < ALLOC_COUNT" using room i(4,5) by (simp add: distinct_card)
  from chunk_new_ok [OF sz i(3) this new(1)] have pool: "chunk_inv ALLOC_COUNT pool" "obj \<notin> tracked_live (ps_pools ps t)"
    "tracked_live pool = insert obj (tracked_live (ps_pools ps t))" by auto
  show ?thesis
    using i pool c(1) s by (simp add: pooled_inv_def ps' placed_Cons c_def)
qed

lemma delete_placed_ok:
  assumes inv: "pooled_inv ps" and placed: "(obj, k, c) \<in> set (ps_placed ps)"
  shows "if ss_mRefCount (ps_sessions ps k) = 0 then delete_placed (obj, k, c) ps = Inl CrashAssert
    else \<exists>ps'. delete_placed (obj, k, c) ps = Inr ps' \<and> pooled_inv ps'"
proof (cases "ss_mRefCount (ps_sessions ps k) = 0")
  case True
  then show ?thesis
    using ReleaseRef_bal(1) [OF pooled_invD(1) [OF inv], of k] by (simp add: delete_placed_def DeleteIoContext_def)
next
  case False
  note i = pooled_invD [OF inv]
  have at: "obj \<in> set (placed_at (mIoType c) (ps_placed ps))" using placed by (force simp: placed_at_def)
  have "c \<in> set (owned_by k (ps_placed ps))" using placed by (force simp: owned_by_def)
  then have cs: "c \<in> set (ss_contexts (ps_sessions ps k))" by (metis i(2) set_mset_mset)
  then have "context_ok c" using i(1) [of k] by (auto simp: ss_bal_def list_all_iff)
  then obtain s where s: "DeleteIoContext (Some c) (ps_sessions ps k) = Inr s"
    using ReleaseRef_bal(1) [OF i(1), of k] False by (auto simp: DeleteIoContext_def context_ok_def)
  note del = delete_bal [OF i(1) cs s]
  obtain pool where pool: "tracked_delete obj (ps_pools ps (mIoType c)) = Inr pool" "chunk_inv ALLOC_COUNT pool"
    "tracked_live pool = tracked_live (ps_pools ps (mIoType c)) - {obj}"
    using chunk_delete_ok [OF i(3), of obj "mIoType c"] at i(5) by auto
  have "mset (ss_contexts s) = mset (owned_by k (remove1 (obj, k, c) (ps_placed ps)))"
    using i(2) placed del by (simp add: owned_by_remove1)
  then have "pooled_inv (ps\<lparr>ps_sessions := (ps_sessions ps)(k := s), ps_pools := (ps_pools ps)(mIoType c := pool),
      ps_placed := remove1 (obj, k, c) (ps_placed ps)\<rparr>)"
    using del pool i placed at
    by (simp add: pooled_inv_def placed_at_remove1 placed_at_remove1_other owned_by_remove1 distinct_remove1 set_remove1_eq)
  then show ?thesis using False s pool(1) by (simp add: delete_placed_def)
qed

lemma session_inv:
  assumes "pooled_inv ps" and "ss_bal b s" and "ss_contexts s = ss_contexts (ps_sessions ps i)"
  shows "pooled_inv (ps\<lparr>ps_sessions := (ps_sessions ps)(i := s), ps_balance := (ps_balance ps)(i := b)\<rparr>)"
  using assms by (simp add: pooled_inv_def)

lemma pooled_reachable_inv:
  assumes "pooled_reachable sizeof_ctx new_array ps" and "non_null new_array" and "\<And>t. 0 < sizeof_ctx t"
  shows "pooled_inv ps"
  using assms(1)
proof (induction rule: pooled_reachable.induct)
  case (start junk sock n m)
  show ?case by (rule pooled_init_inv [OF assms(2)])
next
  case (create ps t set_fields i ps')
  show ?case by (rule new_placed_inv [OF create.IH create.hyps(2) assms(3) create.hyps(3-5)])
next
  case (delete ps placed ps')
  obtain obj k c where x: "placed = (obj, k, c)" by (metis prod_cases3)
  show ?case using delete_placed_ok [OF delete.IH delete.hyps(2) [unfolded x]] delete.hyps(3) by (auto simp: x split: if_splits)
next
  case (addRef ps i s)
  show ?case
    using AddRef_bal(1,2) [OF pooled_invD(1) [OF addRef.IH] addRef.hyps(2)] by (intro session_inv addRef.IH) simp_all
next
  case (releaseRef ps i s dr)
  define t where "t = (ps_sessions ps i)\<lparr>ss_on_disconnect := ss_on_disconnect (ps_sessions ps i) @ [dr]\<rparr>"
  have "ss_bal (ps_balance ps i) t" "ss_contexts t = ss_contexts (ps_sessions ps i)"
    using pooled_invD(1) [OF releaseRef.IH] by (simp_all add: t_def)
  then have "ss_bal (ps_balance ps i - 1) s \<and> ss_contexts s = ss_contexts (ps_sessions ps i)"
    using releaseRef.hyps(2) ReleaseRef_bal(2) [OF pooled_invD(1) [OF releaseRef.IH], of i s] ReleaseRef_bal(2) [of _ t s]
    by (auto simp: ss_DisconnectCompletion_def t_def)
  then show ?case by (intro session_inv releaseRef.IH) simp_all
next
  case (other ps s i)
  then have "ss_bal (ps_balance ps i) s" using pooled_invD(1) [OF other.IH, of i] by (simp add: ss_bal_def)
  from session_inv [OF other.IH this other.hyps(2)] show ?case by (simp add: fun_upd_idem)
qed

text \<open>Creating a context that is posted, and deleting one that is rejected, change a session whose references all belong to
  contexts as its methods do: the two results are those in the equations of \<open>PreRecv\<close>, \<open>PostRecv\<close>, \<open>FlushSend\<close> and
  \<open>DisconnectRequest\<close>.\<close>

lemma new_placed_eq:
  assumes "OverlappedIOContext_new t (ps_sessions ps i) = Inr (ctx, s)"
    and "tracked_new (sizeof_ctx t) ALLOC_COUNT (ps_pools ps t) = Inr (obj, pool)"
  shows "new_placed sizeof_ctx i t set_fields ps =
    Inr (ps\<lparr>ps_sessions := (ps_sessions ps)(i := ss_keep (set_fields ctx) s), ps_pools := (ps_pools ps)(t := pool),
      ps_placed := (obj, i, set_fields ctx) # ps_placed ps\<rparr>)"
  using assms by (simp add: new_placed_def Let_def)

lemma placed_submit:
  assumes inv: "pooled_inv ps" "ss_refs (ps_sessions ps i)" and room: "ss_room (ps_sessions ps i)" "length (placed_at t (ps_placed ps)) < ALLOC_COUNT"
    and sz: "0 < sizeof_ctx t" and new: "tracked_new (sizeof_ctx t) ALLOC_COUNT (ps_pools ps t) = Inr (obj, pool)"
    and c: "c = set_fields (new_context t)" "mIoType c = t" "context_ok c"
  shows "\<exists>ps1 ps2. new_placed sizeof_ctx i t set_fields ps = Inr ps1 \<and> ps_sessions ps1 i = ss_adds c (ps_sessions ps i) \<and>
    delete_placed (obj, i, c) ps1 = Inr ps2 \<and> ps_sessions ps2 i = ss_after_reject (ps_sessions ps i)"
proof -
  have n: "OverlappedIOContext_new t (ps_sessions ps i) = Inr (new_context t, ss_ref1 (ps_sessions ps i))"
    using context_new_exists [OF inv(2), of t] room(1) by (simp add: ss_room_def ss_ref1_def)
  obtain ps1 where ps1: "new_placed sizeof_ctx i t set_fields ps = Inr ps1" "ps_sessions ps1 i = ss_adds c (ps_sessions ps i)"
    "(obj, i, c) \<in> set (ps_placed ps1)"
    using new_placed_eq [where sizeof_ctx = sizeof_ctx and set_fields = set_fields, OF n new] by (simp add: c(1) keep_new)
  have "pooled_inv ps1" using new_placed_inv [OF inv(1) room(2) sz _ _ ps1(1)] c by simp
  note del = delete_placed_ok [OF this ps1(3)]
  have d: "DeleteIoContext (Some c) (ps_sessions ps1 i) = Inr (ss_after_reject (ps_sessions ps i))"
    unfolding ps1(2) using delete_fresh [OF inv(2) _ c(3)] room(1) by (simp add: ss_room_def ss_after_reject_def)
  then have "ss_mRefCount (ps_sessions ps1 i) \<noteq> 0" using ssr.release_unowned by (auto simp: DeleteIoContext_def)
  then obtain ps2 where "delete_placed (obj, i, c) ps1 = Inr ps2" using del by (auto split: if_splits)
  with ps1 d show ?thesis by (auto simp: delete_placed_def bindR_Inr_iff)
qed

lemma PreRecv_placed:
  assumes "pooled_inv ps" "ss_refs (ps_sessions ps i)" "ss_room (ps_sessions ps i)" "length (placed_at IO_RECV_ZERO (ps_placed ps)) < ALLOC_COUNT"
    and "0 < sizeof_ctx IO_RECV_ZERO"
    and "tracked_new (sizeof_ctx IO_RECV_ZERO) ALLOC_COUNT (ps_pools ps IO_RECV_ZERO) = Inr (obj, pool)"
    and "c = (new_context IO_RECV_ZERO)\<lparr>submitted := accepted wsa\<rparr>" and "ss_IsConnected (ps_sessions ps i)"
  shows "\<exists>ps1 ps2. new_placed sizeof_ctx i IO_RECV_ZERO (\<lambda>c. c\<lparr>submitted := accepted wsa\<rparr>) ps = Inr ps1 \<and>
    delete_placed (obj, i, c) ps1 = Inr ps2 \<and>
    ss_PreRecv wsa (ps_sessions ps i) = Inr (accepted wsa, ps_sessions (if accepted wsa then ps1 else ps2) i)"
  using placed_submit [where t = IO_RECV_ZERO and sizeof_ctx = sizeof_ctx and set_fields = "\<lambda>c. c\<lparr>submitted := accepted wsa\<rparr>",
      OF assms(1-6), of c]
    PreRecv_ok [OF assms(2,3), of wsa] assms(7,8)
  by (auto simp: context_ok_def)

section \<open>Properties of the contexts in their pools\<close>

lemma use_count:
  assumes "chunk_inv N tp" and "tracked_live tp = set xs" and "distinct xs"
  shows "mCurrentUseCount (fst (snd tp)) = of_nat (length xs)"
  using assms by (cases tp) (auto simp: chunk_inv_def tracked_live_def distinct_card)

text \<open>C10: As long as no context is created when its class has 100 in use, and whatever the memory held before: the reference counter
  of a session is the number of its contexts plus the balance of its direct \<open>AddRef\<close>, \<open>ReleaseRef\<close> and
  \<open>DisconnectCompletion\<close> calls; the use counter of every pool is the number of contexts of its class in all sessions, and no two of
  them share an object; deleting a context succeeds in its session and in the pool unless the session's counter is 0, where it
  runs into the assertion; and a class that has a context in use, but fewer than 100, can give another one to any
  session whose counter is below 2147483647.\<close>

theorem contexts_own_their_objects:
  assumes "pooled_reachable sizeof_ctx new_array ps" and "non_null new_array" and "\<And>t. 4 \<le> sizeof_ctx t"
  shows "(\<forall>i. sint (ss_mRefCount (ps_sessions ps i)) = int (length (owned_by i (ps_placed ps))) + ps_balance ps i) \<and>
    (\<forall>t. mCurrentUseCount (fst (snd (ps_pools ps t))) = of_nat (length (placed_at t (ps_placed ps))) \<and>
       distinct (placed_at t (ps_placed ps))) \<and>
    (\<forall>obj i c. (obj, i, c) \<in> set (ps_placed ps) \<longrightarrow>
       (if ss_mRefCount (ps_sessions ps i) = 0 then delete_placed (obj, i, c) ps = Inl CrashAssert
        else \<exists>ps'. delete_placed (obj, i, c) ps = Inr ps')) \<and>
    (\<forall>i t set_fields. 0 < length (placed_at t (ps_placed ps)) \<and> length (placed_at t (ps_placed ps)) < ALLOC_COUNT \<and>
       sint (ss_mRefCount (ps_sessions ps i)) < 2 ^ 31 - 1 \<longrightarrow> (\<exists>ps'. new_placed sizeof_ctx i t set_fields ps = Inr ps'))"
proof -
  have "0 < sizeof_ctx t" for t using assms(3) [of t] by simp
  note inv = pooled_reachable_inv [OF assms(1,2) this]
  note i = pooled_invD [OF inv]
  have "length (ss_contexts (ps_sessions ps i)) = length (owned_by i (ps_placed ps))" for i
    using arg_cong [OF i(2), of size i] by simp
  then have "sint (ss_mRefCount (ps_sessions ps i)) = int (length (owned_by i (ps_placed ps))) + ps_balance ps i" for i
    using i(1) [of i] by (simp add: ss_bal_def)
  moreover have "\<exists>ps'. new_placed sizeof_ctx k t set_fields ps = Inr ps'"
    if "0 < length (placed_at t (ps_placed ps))" "length (placed_at t (ps_placed ps)) < ALLOC_COUNT"
      "sint (ss_mRefCount (ps_sessions ps k)) < 2 ^ 31 - 1" for k t set_fields
  proof -
    note room = that
    have "0 \<le> sint (ss_mRefCount (ps_sessions ps k))" using i(1) [of k] by (simp add: ss_bal_def)
    then obtain ctx s where n: "OverlappedIOContext_new t (ps_sessions ps k) = Inr (ctx, s)"
      using ssr.addref_ok [OF _ room(3)] by (auto simp: OverlappedIOContext_new_def)
    have "card (tracked_live (ps_pools ps t)) < ALLOC_COUNT" "tracked_live (ps_pools ps t) \<noteq> {}"
      using room(1,2) i(4,5) [of t] by (simp_all add: distinct_card)
    from chunk_new_succeeds [OF i(3) this] show ?thesis using new_placed_eq [OF n] by blast
  qed
  moreover have "if ss_mRefCount (ps_sessions ps k) = 0 then delete_placed (obj, k, c) ps = Inl CrashAssert
      else \<exists>ps'. delete_placed (obj, k, c) ps = Inr ps'" if "(obj, k, c) \<in> set (ps_placed ps)" for obj k c
    using delete_placed_ok [OF inv that] by (auto split: if_splits)
  ultimately show ?thesis using use_count [OF i(3,5,4)] i(4) by blast
qed

text \<open>Session 0 has one send, in memory that was full of sevens.\<close>

lemma demo_placed:
  obtains ps where "pooled_reachable (\<lambda>_. 48) sevens_array ps" and "ps_placed ps = [(4096, 0, new_context IO_SEND)]"
    and "ss_mRefCount (ps_sessions ps 0) = 1" and "ss_mRefCount (ps_sessions ps 1) = 0"
proof -
  define ps where "ps = pooled_init sevens_array (\<lambda>_. Session_new (\<lambda>_. 0) 1 16 16)"
  have fresh: "ss_mRefCount (ps_sessions ps i) = 0" for i by (simp add: ps_def pooled_init_def Session_new_def)
  have placed: "ps_placed ps = []" "ps_pools ps IO_SEND = (sevens_array, ObjectPool_init Map.empty, {})"
    by (simp_all add: ps_def pooled_init_def)
  obtain pool where "operator_new 48 100 sevens_array (ObjectPool_init Map.empty) = Inr (4096, pool)"
    using operator_new_first [of sevens_array Map.empty 48 100 4096 "\<lambda>_. 7"] by (auto simp: sevens_array_def)
  then have tn: "tracked_new 48 ALLOC_COUNT (ps_pools ps IO_SEND) = Inr (4096, (sevens_array, pool, {4096}))"
    by (simp add: placed(2) tracked_new_def ALLOC_COUNT_def)
  have cn: "OverlappedIOContext_new IO_SEND (ps_sessions ps 0) = Inr (new_context IO_SEND, (ps_sessions ps 0)\<lparr>ss_mRefCount := 1\<rparr>)"
    by (simp add: OverlappedIOContext_new_def ss_AddRef_def fresh)
  obtain ps' where new: "new_placed (\<lambda>_. 48) 0 IO_SEND (\<lambda>c. c) ps = Inr ps'" "ps_placed ps' = [(4096, 0, new_context IO_SEND)]"
    "ss_mRefCount (ps_sessions ps' 0) = 1" "ps_sessions ps' 1 = ps_sessions ps 1"
    using new_placed_eq [where sizeof_ctx = "\<lambda>_. 48" and set_fields = "\<lambda>c. c", OF cn tn] by (simp add: placed(1) ss_keep_def)
  have "pooled_reachable (\<lambda>_. 48) sevens_array ps" unfolding ps_def by (rule pooled_reachable.start)
  from pooled_reachable.create [OF this _ _ _ new(1)] have "pooled_reachable (\<lambda>_. 48) sevens_array ps'"
    by (simp add: placed(1) placed_at_def ALLOC_COUNT_def)
  moreover have "ss_mRefCount (ps_sessions ps' 1) = 0" unfolding new(4) by (rule fresh)
  ultimately show thesis using that new(2,3) by blast
qed

theorem contexts_own_their_objects_witness:
  "\<exists>ps ps'. pooled_reachable (\<lambda>_. 48) sevens_array ps \<and> ps_balance ps 0 = 0 \<and>
     mCurrentUseCount (fst (snd (ps_pools ps IO_SEND))) = 1 \<and> new_placed (\<lambda>_. 48) 1 IO_SEND (\<lambda>c. c) ps = Inr ps'"
proof -
  obtain ps where ps: "pooled_reachable (\<lambda>_. 48) sevens_array ps" "ps_placed ps = [(4096, 0, new_context IO_SEND)]"
    "ss_mRefCount (ps_sessions ps 0) = 1" "ss_mRefCount (ps_sessions ps 1) = 0" by (rule demo_placed)
  have "4 \<le> (48 :: nat)" by simp
  note own = contexts_own_their_objects [OF ps(1) sevens_array_non_null this]
  have at: "placed_at IO_SEND (ps_placed ps) = [4096]" "owned_by 0 (ps_placed ps) = [new_context IO_SEND]"
    by (simp_all add: ps(2) placed_at_def owned_by_def)
  have "sint (ss_mRefCount (ps_sessions ps 0)) = int (length (owned_by 0 (ps_placed ps))) + ps_balance ps 0"
    "mCurrentUseCount (fst (snd (ps_pools ps IO_SEND))) = of_nat (length (placed_at IO_SEND (ps_placed ps)))"
    using own by blast+
  moreover have "\<exists>ps'. new_placed (\<lambda>_. 48) 1 IO_SEND (\<lambda>c. c) ps = Inr ps'"
    using own ps(4) by (simp add: at ALLOC_COUNT_def)
  ultimately show ?thesis using ps(1,3) at by auto
qed

end
