(* ===== verification/Ordered_Map.thy ===== *)
theory Ordered_Map
  imports Iocp_Prelude
begin

text \<open>
  \<open>std::map\<close> as the player classes use it: a list of pairs in increasing order of the keys, so that
  iteration has the order of the container. \<open>operator[]\<close> assigns, \<open>insert\<close> keeps an existing entry,
  \<open>erase\<close> removes. The locale states what clients rely on; every further map lemma is proved in it.
\<close>

fun map_assign :: "'k::linorder \<Rightarrow> 'v \<Rightarrow> ('k \<times> 'v) list \<Rightarrow> ('k \<times> 'v) list" where
  "map_assign k v [] = [(k, v)]"
| "map_assign k v ((k', v') # xs) =
     (if k < k' then (k, v) # (k', v') # xs
      else if k = k' then (k, v) # xs
      else (k', v') # map_assign k v xs)"

definition map_insert :: "'k::linorder \<Rightarrow> 'v \<Rightarrow> ('k \<times> 'v) list \<Rightarrow> ('k \<times> 'v) list" where
  "map_insert k v xs = (if map_of xs k = None then map_assign k v xs else xs)"

definition map_erase :: "'k \<Rightarrow> ('k \<times> 'v) list \<Rightarrow> ('k \<times> 'v) list" where
  "map_erase k xs = filter (\<lambda>(k', v). k' \<noteq> k) xs"

definition map_wf :: "('k::linorder \<times> 'v) list \<Rightarrow> bool" where
  "map_wf xs \<longleftrightarrow> sorted_wrt (<) (map fst xs)"

locale finite_map_ops =
  fixes wf :: "'m \<Rightarrow> bool"
    and lookup :: "'m \<Rightarrow> 'k \<Rightarrow> 'v option"
    and assign :: "'k \<Rightarrow> 'v \<Rightarrow> 'm \<Rightarrow> 'm"
    and erase :: "'k \<Rightarrow> 'm \<Rightarrow> 'm"
  assumes assign_wf: "wf m \<Longrightarrow> wf (assign k v m)"
    and erase_wf: "wf m \<Longrightarrow> wf (erase k m)"
    and lookup_assign: "wf m \<Longrightarrow> lookup (assign k v m) = (lookup m)(k \<mapsto> v)"
    and lookup_erase: "wf m \<Longrightarrow> lookup (erase k m) = (lookup m)(k := None)"
begin

lemma erase_assign: "wf m \<Longrightarrow> lookup m k = None \<Longrightarrow> lookup (erase k (assign k v m)) = lookup m"
  by (auto simp: lookup_erase assign_wf lookup_assign)

lemma dom_assign: "wf m \<Longrightarrow> dom (lookup (assign k v m)) = insert k (dom (lookup m))"
  by (simp add: lookup_assign)

end

lemma map_assign_keys: "fst ` set (map_assign k v xs) = insert k (fst ` set xs)"
  by (induction k v xs rule: map_assign.induct) auto

lemma map_assign_wf: "map_wf xs \<Longrightarrow> map_wf (map_assign k v xs)"
proof (induction k v xs rule: map_assign.induct)
  case (2 k v k' v' xs)
  then show ?case using map_assign_keys [of k v xs] by (fastforce simp: map_wf_def image_iff)
qed (simp add: map_wf_def)

lemma map_of_map_assign: "map_wf xs \<Longrightarrow> map_of (map_assign k v xs) = (map_of xs)(k \<mapsto> v)"
proof (induction k v xs rule: map_assign.induct)
  case (2 k v k' v' xs)
  have "map_of xs k = None" if "k < k'"
    using that 2(2) by (fastforce simp: map_wf_def map_of_eq_None_iff)
  then show ?case using 2 by (auto simp: map_wf_def)
qed simp

lemma map_of_map_erase: "map_of (map_erase k xs) = (map_of xs)(k := None)"
  by (induction xs) (auto simp: map_erase_def fun_eq_iff)

lemma map_erase_wf: "map_wf xs \<Longrightarrow> map_wf (map_erase k xs)"
  by (induction xs) (auto simp: map_wf_def map_erase_def)

interpretation smap: finite_map_ops map_wf map_of map_assign map_erase
  by unfold_locales (simp_all add: map_assign_wf map_erase_wf map_of_map_assign map_of_map_erase)

lemma map_insert_wf: "map_wf xs \<Longrightarrow> map_wf (map_insert k v xs)"
  by (simp add: map_insert_def map_assign_wf)

lemma map_of_map_insert:
  "map_wf xs \<Longrightarrow> map_of (map_insert k v xs) = (if map_of xs k = None then (map_of xs)(k \<mapsto> v) else map_of xs)"
  by (simp add: map_insert_def map_of_map_assign)

end
