(* ===== verification/Player.thy ===== *)
theory Player
  imports Ordered_Map FastSpinLock Exception
begin

text \<open>
  \<open>PlayerManager.hpp\<close>, \<open>Player.hpp\<close> and \<open>PlayerWideEvent.hpp\<close>: the registry of players and the buffs
  they carry. A \<open>shared_ptr<Player>\<close> is the number of a player; the keys of the maps are signed
  integers read from 32-bit values. \<open>xmap\<close> is read as \<open>std::map\<close> with the order of the keys. Waiting for a lock that is not free does not return (\<open>None\<close>).
\<close>

section \<open>The registry\<close>

record PlayerManager =
  pm_mLock :: LONG
  mCurrentIssueId :: "32 word"
  mPlayerMap :: "(int \<times> nat) list"

definition PlayerManager_new :: PlayerManager where
  "PlayerManager_new = \<lparr>pm_mLock = 0, mCurrentIssueId = 0, mPlayerMap = []\<rparr>"

definition RegisterPlayer :: "nat \<Rightarrow> PlayerManager \<Rightarrow> (32 word \<times> PlayerManager) option" where
  "RegisterPlayer player pm =
     Option.bind (FastSpinlockGuard True (pm_mLock pm)) (\<lambda>locked.
     let issued = mCurrentIssueId pm + 1 in
     Some (issued, pm\<lparr>mCurrentIssueId := issued,
        mPlayerMap := map_assign (sint issued) player (mPlayerMap pm),
        pm_mLock := FastSpinlockGuard_end True locked\<rparr>))"

definition UnregisterPlayer :: "32 word \<Rightarrow> PlayerManager \<Rightarrow> PlayerManager option" where
  "UnregisterPlayer playerId pm =
     Option.bind (FastSpinlockGuard True (pm_mLock pm)) (\<lambda>locked.
     Some (pm\<lparr>mPlayerMap := map_erase (sint playerId) (mPlayerMap pm),
        pm_mLock := FastSpinlockGuard_end True locked\<rparr>))"

text \<open>\<open>seen i\<close> is the lock flag as the i-th read finds it; \<open>collect_players\<close> is the loop over the map.\<close>

fun collect_players :: "(int \<times> nat) list \<Rightarrow> 32 word \<Rightarrow> nat list \<Rightarrow> 32 word \<times> nat list" where
  "collect_players [] n outList = (n, outList)"
| "collect_players (iter # rest) n outList = collect_players rest (n + 1) (outList @ [snd iter])"

definition GetCurrentPlayers ::
  "(nat \<Rightarrow> LONG) \<Rightarrow> PlayerManager \<Rightarrow> nat list \<Rightarrow> (32 word \<times> nat list) option" where
  "GetCurrentPlayers seen pm outList =
     Option.bind (EnterReadLock seen) (\<lambda>_. Some (collect_players (mPlayerMap pm) 0 outList))"

section \<open>A player\<close>

record Player =
  mPlayerId :: "32 word"
  mHeartBeat :: "32 word"
  mIsAlive :: bool
  mBuffList :: "(int \<times> 32 word) list"
  mSession :: nat

definition PlayerReset :: "Player \<Rightarrow> PlayerManager \<Rightarrow> (Player \<times> PlayerManager) option" where
  "PlayerReset p pm =
     Option.bind (UnregisterPlayer (mPlayerId p) pm) (\<lambda>pm'.
     Some (p\<lparr>mPlayerId := - 1, mHeartBeat := - 1, mIsAlive := False\<rparr>, pm'))"

text \<open>The constructor does not initialise \<open>mPlayerId\<close> before it resets: \<open>junk\<close> is what the memory holds.\<close>

definition Player_new ::
  "32 word \<Rightarrow> 32 word \<Rightarrow> bool \<Rightarrow> nat \<Rightarrow> PlayerManager \<Rightarrow> (Player \<times> PlayerManager) option" where
  "Player_new junkId junkBeat junkAlive session pm =
     PlayerReset \<lparr>mPlayerId = junkId, mHeartBeat = junkBeat, mIsAlive = junkAlive, mBuffList = [],
       mSession = session\<rparr> pm"

definition Player_delete :: "Player \<Rightarrow> unit result" where
  "Player_delete p = CRASH_ASSERT False"

definition GetPlayerId :: "Player \<Rightarrow> 32 word" where
  "GetPlayerId p = mPlayerId p"

definition IsAlive :: "Player \<Rightarrow> bool" where
  "IsAlive p = mIsAlive p"

text \<open>A tick asks for a buff of all players now and then, and for the next tick. Both requests go to templates
  with empty bodies, so the list of requests is all there is to see; \<open>r\<close> and \<open>r'\<close> are the two
  values of \<open>rand()\<close>.\<close>

record AllPlayerBuffEvent =
  mBuffId :: "32 word"
  mDuration :: "32 word"

definition AllPlayerBuffEvent_new :: "32 word \<Rightarrow> 32 word \<Rightarrow> AllPlayerBuffEvent" where
  "AllPlayerBuffEvent_new buffId duration = \<lparr>mBuffId = buffId, mDuration = duration\<rparr>"

datatype tick_request = GCEDispatch AllPlayerBuffEvent "32 word" | DoSyncAfter "32 word"

definition OnTick :: "nat \<Rightarrow> nat \<Rightarrow> Player \<Rightarrow> tick_request list" where
  "OnTick r r' p =
     (if \<not> IsAlive p then []
      else (if r mod 100 = 0
            then [GCEDispatch (AllPlayerBuffEvent_new (mPlayerId p * 100) (of_nat ((r' mod 3 + 2) * 1000))) (mPlayerId p)]
            else []) @
        (if sint (mHeartBeat p) > 0 then [DoSyncAfter (mHeartBeat p)] else []))"

definition Start ::
  "nat \<Rightarrow> nat \<Rightarrow> nat \<Rightarrow> 32 word \<Rightarrow> Player \<Rightarrow> PlayerManager \<Rightarrow> (tick_request list \<times> Player \<times> PlayerManager) option" where
  "Start r r' self heartbeat p pm =
     Option.bind (RegisterPlayer self pm) (\<lambda>(playerId, pm').
     let p' = p\<lparr>mIsAlive := True, mHeartBeat := heartbeat, mPlayerId := playerId\<rparr> in
     Some (OnTick r r' p', p', pm'))"

definition AddBuff :: "32 word \<Rightarrow> 32 word \<Rightarrow> 32 word \<Rightarrow> Player \<Rightarrow> Player" where
  "AddBuff fromPlayerId buffId duration p = p\<lparr>mBuffList := map_insert (sint buffId) duration (mBuffList p)\<rparr>"

text \<open>The loop of \<open>DecayTickBuff\<close> over the entries.\<close>

fun decay_from :: "32 word \<Rightarrow> (int \<times> 32 word) list \<Rightarrow> (int \<times> 32 word) list" where
  "decay_from beat [] = []"
| "decay_from beat ((k, d) # xs) =
     (let d' = d - beat in
      if sint d' \<le> 0 then decay_from beat xs else (k, d') # decay_from beat xs)"

definition DecayTickBuff :: "Player \<Rightarrow> Player" where
  "DecayTickBuff p = p\<lparr>mBuffList := decay_from (mHeartBeat p) (mBuffList p)\<rparr>"

section \<open>Events for all players\<close>

definition DoBuffAllPlayers ::
  "(nat \<Rightarrow> LONG) \<Rightarrow> 32 word \<Rightarrow> PlayerManager \<Rightarrow> (nat \<Rightarrow> Player) \<Rightarrow> AllPlayerBuffEvent \<Rightarrow> (nat \<Rightarrow> Player) option" where
  "DoBuffAllPlayers seen fromPlayerId pm players event =
     Option.bind (GetCurrentPlayers seen pm []) (\<lambda>(total, current).
     Some (if sint total > 0
           then fold (\<lambda>i ps. ps(i := AddBuff fromPlayerId (mBuffId event) (mDuration event) (ps i))) current players
           else players))"

definition CheckBuffTimeout ::
  "(nat \<Rightarrow> LONG) \<Rightarrow> PlayerManager \<Rightarrow> (nat \<Rightarrow> Player) \<Rightarrow> (nat \<Rightarrow> Player) option" where
  "CheckBuffTimeout seen pm players =
     Option.bind (GetCurrentPlayers seen pm []) (\<lambda>(total, current).
     Some (if sint total > 0 then fold (\<lambda>i ps. ps(i := DecayTickBuff (ps i))) current players else players))"

section \<open>Lemmas\<close>

lemma guard_free: "FastSpinlockGuard True 0 = Some LF_WRITE_FLAG" "FastSpinlockGuard_end True LF_WRITE_FLAG = 0"
  using EnterWriteLock_free [of 0]
  by (simp_all add: FastSpinlockGuard_def FastSpinlockGuard_end_def lock_free_def LeaveWriteLock_def)

lemma RegisterPlayer_ok:
  "pm_mLock pm = 0 \<Longrightarrow> RegisterPlayer player pm =
     Some (mCurrentIssueId pm + 1, pm\<lparr>mCurrentIssueId := mCurrentIssueId pm + 1,
       mPlayerMap := map_assign (sint (mCurrentIssueId pm + 1)) player (mPlayerMap pm)\<rparr>)"
  by (cases pm) (simp add: RegisterPlayer_def guard_free Let_def)

lemma UnregisterPlayer_ok:
  "pm_mLock pm = 0 \<Longrightarrow> UnregisterPlayer i pm = Some (pm\<lparr>mPlayerMap := map_erase (sint i) (mPlayerMap pm)\<rparr>)"
  by (cases pm) (simp add: UnregisterPlayer_def guard_free)

text \<open>The lock is free between calls, the map is ordered, and identifiers are issued upwards.\<close>

definition pm_inv :: "PlayerManager \<Rightarrow> bool" where
  "pm_inv pm \<longleftrightarrow> pm_mLock pm = 0 \<and> map_wf (mPlayerMap pm) \<and> 0 \<le> sint (mCurrentIssueId pm) \<and>
     (\<forall>k \<in> fst ` set (mPlayerMap pm). 0 < k \<and> k \<le> sint (mCurrentIssueId pm))"

lemma PlayerManager_new_inv: "pm_inv PlayerManager_new"
  by (simp add: pm_inv_def PlayerManager_new_def map_wf_def)

lemma unissued_key: "pm_inv pm \<Longrightarrow> sint (mCurrentIssueId pm) < k \<Longrightarrow> map_of (mPlayerMap pm) k = None"
  by (auto simp: pm_inv_def map_of_eq_None_iff)

lemma RegisterPlayer_inv:
  assumes inv: "pm_inv pm" and room: "sint (mCurrentIssueId pm) < 2 ^ 31 - 1"
    and res: "RegisterPlayer player pm = Some (i, pm')"
  shows "pm_inv pm' \<and> sint i = sint (mCurrentIssueId pm) + 1 \<and>
    map_of (mPlayerMap pm') = (map_of (mPlayerMap pm))(sint i \<mapsto> player)"
proof -
  define j where "j = mCurrentIssueId pm + 1"
  have j: "sint j = sint (mCurrentIssueId pm) + 1" unfolding j_def by (rule sint_incr [OF room])
  have pm': "i = j" "pm' = pm\<lparr>mCurrentIssueId := j, mPlayerMap := map_assign (sint j) player (mPlayerMap pm)\<rparr>"
    using res inv by (auto simp: RegisterPlayer_ok pm_inv_def j_def)
  have "0 < k \<and> k \<le> sint j" if "k \<in> fst ` set (map_assign (sint j) player (mPlayerMap pm))" for k
    using that inv unfolding map_assign_keys by (auto simp: pm_inv_def j)
  then show ?thesis
    using inv j by (simp add: pm' pm_inv_def smap.assign_wf smap.lookup_assign)
qed

lemma decay_from_keys: "fst ` set (decay_from beat xs) \<subseteq> fst ` set xs"
  by (induction beat xs rule: decay_from.induct) (auto simp: Let_def)

lemma decay_from_wf: "map_wf xs \<Longrightarrow> map_wf (decay_from beat xs)"
proof (induction beat xs rule: decay_from.induct)
  case (2 beat k d xs)
  then show ?case using decay_from_keys [of beat xs] by (fastforce simp: map_wf_def Let_def)
qed simp

lemma map_of_decay_from:
  assumes "map_wf xs"
  shows "map_of (decay_from beat xs) k =
    (case map_of xs k of None \<Rightarrow> None | Some d \<Rightarrow> if sint (d - beat) \<le> 0 then None else Some (d - beat))"
  using assms
proof (induction beat xs rule: decay_from.induct)
  case (2 beat k' d xs)
  have "map_of xs k' = None" using 2(3) by (fastforce simp: map_wf_def map_of_eq_None_iff)
  with 2 show ?case by (auto simp: Let_def map_wf_def split: option.splits)
qed simp

section \<open>Properties of players\<close>

text \<open>C18: The registry is a map with fresh keys: registering succeeds, issues an identifier nobody has, adds
  exactly that entry, and unregistering it restores the previous map.\<close>

theorem registry_issues_fresh_ids:
  assumes "pm_inv pm" and "sint (mCurrentIssueId pm) < 2 ^ 31 - 1"
  shows "\<exists>i pm' pm''. RegisterPlayer player pm = Some (i, pm') \<and> pm_inv pm' \<and>
    map_of (mPlayerMap pm) (sint i) = None \<and>
    map_of (mPlayerMap pm') = (map_of (mPlayerMap pm))(sint i \<mapsto> player) \<and>
    UnregisterPlayer i pm' = Some pm'' \<and> map_of (mPlayerMap pm'') = map_of (mPlayerMap pm)"
proof -
  have lock: "pm_mLock pm = 0" using assms(1) by (simp add: pm_inv_def)
  obtain i pm' where r: "RegisterPlayer player pm = Some (i, pm')"
    using RegisterPlayer_ok [OF lock, of player] by blast
  note ok = RegisterPlayer_inv [OF assms r]
  have none: "map_of (mPlayerMap pm) (sint i) = None" using unissued_key [OF assms(1)] ok by simp
  have "UnregisterPlayer i pm' = Some (pm'\<lparr>mPlayerMap := map_erase (sint i) (mPlayerMap pm')\<rparr>)"
    using ok by (intro UnregisterPlayer_ok) (simp add: pm_inv_def)
  moreover have "map_of (map_erase (sint i) (mPlayerMap pm')) = map_of (mPlayerMap pm)"
    using ok none by (simp add: map_of_map_erase fun_upd_idem)
  ultimately show ?thesis using r ok none by auto
qed

theorem registry_issues_fresh_ids_witness:
  "\<exists>i pm' pm''. RegisterPlayer 5 PlayerManager_new = Some (i, pm') \<and> map_of (mPlayerMap pm') (sint i) = Some 5 \<and>
     UnregisterPlayer i pm' = Some pm'' \<and> map_of (mPlayerMap pm'') = Map.empty"
proof -
  have "mPlayerMap PlayerManager_new = []" "sint (mCurrentIssueId PlayerManager_new) < 2 ^ 31 - 1"
    by (simp_all add: PlayerManager_new_def)
  then show ?thesis using registry_issues_fresh_ids [OF PlayerManager_new_inv, of 5] by fastforce
qed

text \<open>Constructing a player unregisters whichever player the uninitialised \<open>mPlayerId\<close> happens to name,
  and no other.\<close>

lemma constructor_unregisters_junk_id:
  assumes "pm_inv pm"
  shows "\<exists>p pm'. Player_new junkId junkBeat junkAlive session pm = Some (p, pm') \<and> mPlayerId p = - 1 \<and> \<not> mIsAlive p \<and>
    map_of (mPlayerMap pm') = (map_of (mPlayerMap pm))(sint junkId := None)"
  using assms by (simp add: Player_new_def PlayerReset_def UnregisterPlayer_ok pm_inv_def map_of_map_erase)

text \<open>C37: \<open>AddBuff\<close> keeps the remaining time of a buff that is already there, and \<open>DecayTickBuff\<close> lowers every
  buff by the heartbeat and removes exactly those that reach 0; before \<open>Start\<close> the heartbeat is
  -1 and every buff grows by 1.\<close>

theorem buffs_decay_by_heartbeat:
  assumes "map_wf (mBuffList p)"
  shows "map_wf (mBuffList (AddBuff from buffId duration p)) \<and>
    map_of (mBuffList (AddBuff from buffId duration p)) (sint buffId) =
      (case map_of (mBuffList p) (sint buffId) of None \<Rightarrow> Some duration | Some d \<Rightarrow> Some d) \<and>
    map_wf (mBuffList (DecayTickBuff p)) \<and>
    map_of (mBuffList (DecayTickBuff p)) k =
      (case map_of (mBuffList p) k of None \<Rightarrow> None
       | Some d \<Rightarrow> if sint (d - mHeartBeat p) \<le> 0 then None else Some (d - mHeartBeat p))"
  using assms
  by (auto simp: AddBuff_def DecayTickBuff_def map_insert_wf map_of_map_insert decay_from_wf map_of_decay_from
      split: option.splits)

theorem buffs_decay_by_heartbeat_witness:
  "map_of (mBuffList (DecayTickBuff \<lparr>mPlayerId = 1, mHeartBeat = 1000, mIsAlive = True,
      mBuffList = [(100, 2500), (200, 900)], mSession = 1\<rparr>)) 100 = Some 1500 \<and>
   map_of (mBuffList (DecayTickBuff \<lparr>mPlayerId = 1, mHeartBeat = - 1, mIsAlive = False,
      mBuffList = [(100, 2500)], mSession = 1\<rparr>)) 100 = Some 2501"
  using buffs_decay_by_heartbeat [of "\<lparr>mPlayerId = 1, mHeartBeat = 1000, mIsAlive = True,
      mBuffList = [(100, 2500), (200, 900)], mSession = 1\<rparr>" 0 0 0 100]
    buffs_decay_by_heartbeat [of "\<lparr>mPlayerId = 1, mHeartBeat = - 1, mIsAlive = False,
      mBuffList = [(100, 2500)], mSession = 1\<rparr>" 0 0 0 100]
  by (simp add: map_wf_def)

text \<open>No buff is ever given or decayed through the manager: listing the players takes the lock in shared
  mode, which does not return.\<close>

lemma all_player_events_hang:
  "GetCurrentPlayers seen pm outList = None \<and> DoBuffAllPlayers seen from pm players event = None \<and>
   CheckBuffTimeout seen pm players = None"
proof -
  have "EnterReadLock seen = None" by (simp add: EnterReadLock_def EnterReadLock_never)
  then show ?thesis by (simp add: GetCurrentPlayers_def DoBuffAllPlayers_def CheckBuffTimeout_def)
qed

end
