(* ===== verification/Player_Threads.thy ===== *)
theory Player_Threads
  imports Player Guarded_Threads
begin

text \<open>
  The registry of players (\<open>PlayerManager.hpp\<close>) used by several threads. \<open>RegisterPlayer\<close> and
  \<open>UnregisterPlayer\<close> run under a \<open>FastSpinlockGuard\<close>, and nothing else writes the counter and the map. The
  increment of the counter, the assignment to the map, the second read of the counter for the
  result and the erasure are steps of their own.
\<close>

section \<open>The guarded statements\<close>

record Registry =
  issue_id :: "32 word"
  registered :: "(int \<times> nat) list"

definition registry_of :: "PlayerManager \<Rightarrow> Registry" where
  "registry_of pm = \<lparr>issue_id = mCurrentIssueId pm, registered = mPlayerMap pm\<rparr>"

text \<open>Program points: \<open>R...\<close> in \<open>RegisterPlayer\<close>, \<open>UErase\<close> in \<open>UnregisterPlayer\<close>; \<open>RNext\<close> and \<open>UErase\<close> are the calls.\<close>

datatype registry_point = RNext nat | RAssign nat "32 word" | RResult | UErase "32 word"

datatype registry_event = Issued "32 word" | Erased

fun registry_body :: "registry_point \<Rightarrow> Registry \<Rightarrow> ((registry_point, registry_event) point \<times> Registry) result" where
  "registry_body (RNext player) d =
     (let key = issue_id d + 1 in Inr (At (RAssign player key), d\<lparr>issue_id := key\<rparr>))"
| "registry_body (RAssign player key) d =
     Inr (At RResult, d\<lparr>registered := map_assign (sint key) player (registered d)\<rparr>)"
| "registry_body RResult d = Inr (Done (Issued (issue_id d)), d)"
| "registry_body (UErase playerId) d =
     Inr (Done Erased, d\<lparr>registered := map_erase (sint playerId) (registered d)\<rparr>)"

fun registry_call :: "registry_point \<Rightarrow> bool" where
  "registry_call (RNext player) \<longleftrightarrow> True"
| "registry_call (UErase playerId) \<longleftrightarrow> True"
| "registry_call _ \<longleftrightarrow> False"

section \<open>The operations as a whole\<close>

fun registry_op :: "registry_point \<Rightarrow> Registry \<Rightarrow> (registry_event \<times> Registry) result" where
  "registry_op (RNext player) d =
     (let key = issue_id d + 1 in
      Inr (Issued key, d\<lparr>issue_id := key, registered := map_assign (sint key) player (registered d)\<rparr>))"
| "registry_op (UErase playerId) d = Inr (Erased, d\<lparr>registered := map_erase (sint playerId) (registered d)\<rparr>)"
| "registry_op _ d = Inl OutOfBounds"

definition registry_inv :: "Registry \<Rightarrow> bool" where
  "registry_inv d \<longleftrightarrow> map_wf (registered d)"

fun registry_reached :: "registry_point \<Rightarrow> Registry \<Rightarrow> (registry_point, registry_event) point \<Rightarrow> Registry \<Rightarrow> bool" where
  "registry_reached c d (At (RNext player)) d1 \<longleftrightarrow> c = RNext player \<and> d1 = d"
| "registry_reached c d (At (RAssign player key)) d1 \<longleftrightarrow>
     c = RNext player \<and> key = issue_id d + 1 \<and> d1 = d\<lparr>issue_id := key\<rparr>"
| "registry_reached c d (At RResult) d1 \<longleftrightarrow> (\<exists>player. c = RNext player \<and> registry_op c d = Inr (Issued (issue_id d1), d1))"
| "registry_reached c d (At (UErase playerId)) d1 \<longleftrightarrow> c = UErase playerId \<and> d1 = d"
| "registry_reached c d (Done e) d1 \<longleftrightarrow> registry_op c d = Inr (e, d1)"

lemma registry_body_total: "\<exists>pt d2. registry_body c d = Inr (pt, d2)"
  by (cases c) (simp_all add: Let_def)

lemma registry_path_reached:
  "body_path registry_body c d pt d1 \<Longrightarrow> registry_call c \<Longrightarrow> registry_reached c d pt d1"
proof (induction rule: body_path.induct)
  case (start c d)
  then show ?case by (cases c) simp_all
next
  case (step c d c1 d1 pt d2)
  then show ?case by (cases c1) (auto simp: Let_def)
qed

lemma registry_op_inv: "registry_inv d \<Longrightarrow> registry_op c d = Inr (e, d') \<Longrightarrow> registry_inv d'"
  by (cases c) (auto simp: registry_inv_def Let_def smap.assign_wf smap.erase_wf)

interpretation registry: guarded_client registry_body registry_call registry_op registry_inv
proof
  fix d d' :: Registry and c c1 e
  assume inv: "registry_inv d" "registry_call c"
  show "registry_op c d = Inr (e, d')" if "body_path registry_body c d (Done e) d'"
    using registry_path_reached [OF that inv(2)] by simp
  show "\<exists>pt d2. registry_body c1 d' = Inr (pt, d2)" by (rule registry_body_total)
  show "registry_inv d'" if "registry_op c d = Inr (e, d')" by (rule registry_op_inv [OF inv(1) that])
qed

section \<open>The identifiers of a run\<close>

fun issued :: "(registry_point \<times> registry_event) list \<Rightarrow> 32 word list" where
  "issued [] = []"
| "issued ((c, Issued i) # log) = i # issued log"
| "issued ((c, Erased) # log) = issued log"

fun registry_event_map :: "registry_point \<times> registry_event \<Rightarrow> (int \<Rightarrow> nat option) \<Rightarrow> (int \<Rightarrow> nat option)" where
  "registry_event_map (RNext player, Issued i) m = m(sint i \<mapsto> player)"
| "registry_event_map (UErase playerId, e) m = m(sint playerId := None)"
| "registry_event_map _ m = m"

lemma replays_registry:
  "replays registry_op d log d' \<Longrightarrow> registry_inv d \<Longrightarrow>
     map_of (registered d') = fold registry_event_map log (map_of (registered d)) \<and>
     issue_id d' = issue_id d + of_nat (length (issued log)) \<and>
     issued log = map (\<lambda>k. issue_id d + of_nat (Suc k)) [0 ..< length (issued log)]"
proof (induction log arbitrary: d)
  case (Cons a log)
  obtain c e where a: "a = (c, e)" by (cases a)
  obtain d1 where d1: "registry_op c d = Inr (e, d1)" "replays registry_op d1 log d'" using Cons.prems(1) by (auto simp: a)
  note IH = Cons.IH [OF d1(2) registry_op_inv [OF Cons.prems(2) d1(1)]]
  show ?case
  proof (cases c)
    case (RNext player)
    then have e: "e = Issued (issue_id d + 1)" "issue_id d1 = issue_id d + 1"
      "map_of (registered d1) = (map_of (registered d))(sint (issue_id d + 1) \<mapsto> player)"
      using d1(1) Cons.prems(2) by (auto simp: Let_def registry_inv_def smap.lookup_assign)
    have "issued (a # log) = (issue_id d + 1) # map (\<lambda>k. issue_id d + 1 + of_nat (Suc k)) [0 ..< length (issued log)]"
      using IH by (simp add: a e(1,2))
    also have "\<dots> = map (\<lambda>k. issue_id d + of_nat (Suc k)) [0 ..< Suc (length (issued log))]"
      unfolding upt_conv_Cons [OF zero_less_Suc] map_Suc_upt [symmetric] by (simp add: comp_def add.assoc)
    finally show ?thesis using IH by (simp add: a e RNext fun_upd_def del: upt_Suc)
  next
    case (UErase i)
    then have "e = Erased" "d1 = d\<lparr>registered := map_erase (sint i) (registered d)\<rparr>" using d1(1) by auto
    then show ?thesis using IH by (simp add: a UErase map_of_map_erase fun_upd_def)
  qed (use d1(1) in auto)
qed simp

lemma issued_distinct:
  assumes "n < 2 ^ 32"
  shows "distinct (map (\<lambda>k. (i :: 32 word) + of_nat (Suc k)) [0 ..< n])"
proof -
  have "k = l" if "k < n" "l < n" "i + of_nat (Suc k) = i + of_nat (Suc l)" for k l
  proof -
    have "(of_nat k :: 32 word) = of_nat l" using that(3) by simp
    then have "unat (of_nat k :: 32 word) = unat (of_nat l :: 32 word)" by simp
    then show ?thesis using that(1,2) assms by (simp add: unat_of_nat_small)
  qed
  then show ?thesis by (auto simp: distinct_map inj_on_def)
qed

text \<open>The calls of \<open>PlayerManager\<close> on a free lock are these operations.\<close>

lemma manager_acts_on_registry:
  assumes "pm_mLock pm = 0"
  shows "\<exists>i pm'. RegisterPlayer player pm = Some (i, pm') \<and>
      registry_op (RNext player) (registry_of pm) = Inr (Issued i, registry_of pm')"
    and "\<exists>pm'. UnregisterPlayer playerId pm = Some pm' \<and>
      registry_op (UErase playerId) (registry_of pm) = Inr (Erased, registry_of pm')"
  by (simp_all add: RegisterPlayer_ok [OF assms] UnregisterPlayer_ok [OF assms] registry_of_def Let_def)

section \<open>Properties of concurrent registration\<close>

text \<open>C14: Threads that register and unregister players at the same time never get the same identifier: the
  identifiers are consecutive in the order in which the calls leave the lock, no update is lost (the
  map is what the finished calls make of it one after the other), and the registry stays a map.\<close>

theorem concurrent_registrations_are_distinct:
  assumes "guarded_reachable N registry_call registry_body d0 s" and "N \<le> 2048" and "registry_inv d0"
    and "length (issued (finished s)) < 2 ^ 32"
  shows "distinct (issued (finished s)) \<and>
    issued (finished s) = map (\<lambda>k. issue_id d0 + of_nat (Suc k)) [0 ..< length (issued (finished s))] \<and>
    ((\<forall>i. pcs (lk s) i \<noteq> Locked) \<longrightarrow> registry_inv (shared s) \<and>
       map_of (registered (shared s)) = fold registry_event_map (finished s) (map_of (registered d0)))"
proof -
  obtain d where d: "replays registry_op d0 (finished s) d" "registry_inv d"
    "(\<forall>i. pcs (lk s) i \<noteq> Locked) \<longrightarrow> shared s = d"
    using registry.linearised [OF assms(1-3)] by blast
  note log = replays_registry [OF d(1) assms(3)]
  have "distinct (issued (finished s))" using issued_distinct [OF assms(4)] log by metis
  then show ?thesis using log d(2,3) by simp
qed

definition demo_registry :: Registry where
  "demo_registry = registry_of PlayerManager_new"

lemma demo_registry_paths:
  "body_path registry_body (RNext 5) demo_registry (Done (Issued 1)) \<lparr>issue_id = 1, registered = [(1, 5)]\<rparr>"
  "body_path registry_body (RNext 6) \<lparr>issue_id = 1, registered = [(1, 5)]\<rparr> (Done (Issued 2))
     \<lparr>issue_id = 2, registered = [(1, 5), (2, 6)]\<rparr>"
  by (rule body_run_path [of _ "Suc (Suc (Suc 0))"],
      simp add: demo_registry_def registry_of_def PlayerManager_new_def)+

theorem concurrent_registrations_are_distinct_witness:
  "distinct (issued [(RNext 5, Issued 1), (RNext 6, Issued 2)]) \<and> registry_inv demo_registry \<and>
   map_of [(1, 5), (2, 6)] = fold registry_event_map [(RNext 5, Issued 1), (RNext 6, Issued 2)] (map_of (registered demo_registry))"
proof -
  have inv: "registry_inv demo_registry"
    by (simp add: registry_inv_def demo_registry_def registry_of_def PlayerManager_new_def map_wf_def)
  have "guarded_reachable 2 registry_call registry_body demo_registry
      (quiet_at \<lparr>issue_id = 1, registered = [(1, 5)]\<rparr> ([] @ [(RNext 5, Issued 1)]))"
    by (rule quiet_call [OF demo_registry_paths(1) quiet_start]) simp_all
  from quiet_call [OF demo_registry_paths(2) this]
  have "guarded_reachable 2 registry_call registry_body demo_registry
      (quiet_at \<lparr>issue_id = 2, registered = [(1, 5), (2, 6)]\<rparr> [(RNext 5, Issued 1), (RNext 6, Issued 2)])" by simp
  from concurrent_registrations_are_distinct [OF this _ inv] inv show ?thesis
    by (simp add: quiet_at_def lock_init_def)
qed

end
