(* ===== verification/Executor.thy ===== *)
theory Executor
  imports Session_Base
begin

text \<open>
  \<open>Timer.hpp\<close>, \<open>GrandCentralExecutor.hpp\<close> and the lock of \<open>SyncExecutable.hpp\<close>: the two task queues of the
  worker threads. Tasks and owners are numbers. Ticks and the task counter are 64-bit. A loop that
  does not end is the value \<open>None\<close>.
\<close>

section \<open>The timer\<close>

record TimerJobElement =
  mOwner :: nat
  mTask :: nat
  mExecutionTick :: "64 word"

definition TimerJobComparator :: "TimerJobElement \<Rightarrow> TimerJobElement \<Rightarrow> bool" where
  "TimerJobComparator lhs rhs \<longleftrightarrow> sint (mExecutionTick lhs) > sint (mExecutionTick rhs)"

text \<open>\<open>std::priority_queue\<close> with that comparator: the element with the smallest tick is on top.\<close>

record Timer =
  mTimerJobQueue :: "TimerJobElement list"
  LTickCount :: "64 word"

definition Timer_new :: "64 word \<Rightarrow> Timer" where
  "Timer_new tick = \<lparr>mTimerJobQueue = [], LTickCount = tick\<rparr>"

definition queue_top :: "TimerJobElement list \<Rightarrow> TimerJobElement" where
  "queue_top q = arg_min_list (\<lambda>e. sint (mExecutionTick e)) q"

definition PushTimerJob :: "THREAD_TYPE \<Rightarrow> nat \<Rightarrow> nat \<Rightarrow> 32 word \<Rightarrow> Timer \<Rightarrow> Timer result" where
  "PushTimerJob LThreadType owner task after t =
     bindR (CRASH_ASSERT (LThreadType = THREAD_IO_WORKER)) (\<lambda>_. Inr t)"

partial_function (option) timer_loop :: "Timer \<Rightarrow> Timer option" where
  "timer_loop t =
     (if mTimerJobQueue t = [] then Some t
      else if sint (LTickCount t) < sint (mExecutionTick (queue_top (mTimerJobQueue t))) then Some t
      else timer_loop t)"

definition DoTimerJob :: "64 word \<Rightarrow> Timer \<Rightarrow> Timer option" where
  "DoTimerJob tick t = timer_loop (t\<lparr>LTickCount := tick\<rparr>)"

section \<open>The central executor\<close>

record GrandCentralExecutor =
  mCentralTaskQueue :: "nat list"
  mRemainTaskCount :: "64 word"

definition GrandCentralExecutor_new :: GrandCentralExecutor where
  "GrandCentralExecutor_new = \<lparr>mCentralTaskQueue = [], mRemainTaskCount = 0\<rparr>"

text \<open>The loop takes tasks from the queue and discards them; nothing leaves it.\<close>

partial_function (option) dispatch_loop :: "nat list \<Rightarrow> GrandCentralExecutor option" where
  "dispatch_loop q = (case q of [] \<Rightarrow> dispatch_loop [] | task # rest \<Rightarrow> dispatch_loop rest)"

definition DoDispatch ::
  "THREAD_TYPE \<Rightarrow> nat \<Rightarrow> GrandCentralExecutor \<Rightarrow> GrandCentralExecutor option result" where
  "DoDispatch LThreadType task g =
     bindR (CRASH_ASSERT (LThreadType = THREAD_IO_WORKER)) (\<lambda>_.
     let g = g\<lparr>mRemainTaskCount := mRemainTaskCount g + 1\<rparr> in
     if sint (mRemainTaskCount g) > 1 then Inr (Some g)
     else Inr (dispatch_loop (mCentralTaskQueue g @ [task])))"

section \<open>The lock of a synchronised object\<close>

text \<open>\<open>DoSync\<close>, whose body is a comment, has no value to return; \<open>DoSyncAfter\<close> returns without pushing the
  job.\<close>

record SyncExecutable =
  se_mLock :: FastSpinlock

definition SyncExecutable_new :: SyncExecutable where
  "SyncExecutable_new = \<lparr>se_mLock = FastSpinlock_new LO_BUSINESS_CLASS\<rparr>"

definition SyncExecutable_EnterLock :: "SyncExecutable \<Rightarrow> SyncExecutable option" where
  "SyncExecutable_EnterLock x =
     map_option (\<lambda>f. x\<lparr>se_mLock := (se_mLock x)\<lparr>mLockFlag := f\<rparr>\<rparr>) (EnterWriteLock (mLockFlag (se_mLock x)))"

definition SyncExecutable_LeaveLock :: "SyncExecutable \<Rightarrow> SyncExecutable" where
  "SyncExecutable_LeaveLock x = x\<lparr>se_mLock := (se_mLock x)\<lparr>mLockFlag := LeaveWriteLock (mLockFlag (se_mLock x))\<rparr>\<rparr>"

definition DoSyncAfter :: "32 word \<Rightarrow> nat \<Rightarrow> nat \<Rightarrow> Timer \<Rightarrow> Timer" where
  "DoSyncAfter after inst memfunc LTimer = LTimer"

section \<open>Lemmas\<close>

lemma queue_top_le:
  assumes "e \<in> set q"
  shows "queue_top q \<in> set q \<and> sint (mExecutionTick (queue_top q)) \<le> sint (mExecutionTick e) \<and>
    \<not> TimerJobComparator (queue_top q) e"
proof -
  have "q \<noteq> []" using assms by auto
  then have "queue_top q \<in> set q" "sint (mExecutionTick (queue_top q)) = Min ((\<lambda>e. sint (mExecutionTick e)) ` set q)"
    using f_arg_min_list_f [of q "\<lambda>e. sint (mExecutionTick e)"] by (simp_all add: queue_top_def arg_min_list_in)
  moreover have "Min ((\<lambda>e. sint (mExecutionTick e)) ` set q) \<le> sint (mExecutionTick e)"
    using assms by (intro Min_le) auto
  ultimately show ?thesis by (simp add: TimerJobComparator_def not_less)
qed

lemma dispatch_loop_never: "dispatch_loop q = None"
proof (rule ccontr)
  assume "dispatch_loop q \<noteq> None"
  then obtain r where ret: "dispatch_loop q = Some r" by blast
  show False
    by (rule dispatch_loop.raw_induct [where P = "\<lambda>q r. False", OF _ ret]) (auto split: list.splits)
qed

lemma timer_loop_never:
  assumes "mTimerJobQueue t \<noteq> []" and "\<not> sint (LTickCount t) < sint (mExecutionTick (queue_top (mTimerJobQueue t)))"
  shows "timer_loop t = None"
proof (rule ccontr)
  assume "timer_loop t \<noteq> None"
  then obtain r where ret: "timer_loop t = Some r" by blast
  have "\<not> (mTimerJobQueue t \<noteq> [] \<and> \<not> sint (LTickCount t) < sint (mExecutionTick (queue_top (mTimerJobQueue t))))"
    by (rule timer_loop.raw_induct [where P = "\<lambda>t r. \<not> (mTimerJobQueue t \<noteq> [] \<and>
          \<not> sint (LTickCount t) < sint (mExecutionTick (queue_top (mTimerJobQueue t))))", OF _ ret])
      (auto split: if_splits)
  with assms show False by simp
qed

text \<open>An object's lock is an exclusive lock, free after construction.\<close>

interpretation sync: exclusive_lock "\<lambda>x. lock_free (mLockFlag (se_mLock x))" SyncExecutable_EnterLock SyncExecutable_LeaveLock
proof unfold_locales
  fix x :: SyncExecutable assume "lock_free (mLockFlag (se_mLock x))"
  from spin.enter_free [OF this] obtain f where f: "EnterWriteLock (mLockFlag (se_mLock x)) = Some f" "\<not> lock_free f"
    "LeaveWriteLock f = mLockFlag (se_mLock x)" by blast
  then show "\<exists>l. SyncExecutable_EnterLock x = Some l \<and> \<not> lock_free (mLockFlag (se_mLock l)) \<and>
      SyncExecutable_LeaveLock l = x"
    by (auto simp: SyncExecutable_EnterLock_def SyncExecutable_LeaveLock_def)
next
  fix x :: SyncExecutable assume "\<not> lock_free (mLockFlag (se_mLock x))"
  then show "SyncExecutable_EnterLock x = None" by (simp add: SyncExecutable_EnterLock_def spin.enter_held)
qed

lemma SyncExecutable_new_free: "lock_free (mLockFlag (se_mLock SyncExecutable_new))"
  by (simp add: SyncExecutable_new_def FastSpinlock_new_def lock_free_def)

section \<open>Properties of the executors\<close>

text \<open>\<open>DoTimerJob\<close> returns, with the queue unchanged, exactly when no job is due; a due job is never
  taken off the queue, and the loop does not end.\<close>

lemma DoTimerJob_returns_iff_nothing_due:
  "DoTimerJob tick t =
     (if list_all (\<lambda>e. sint tick < sint (mExecutionTick e)) (mTimerJobQueue t)
      then Some (t\<lparr>LTickCount := tick\<rparr>) else None)"
proof (cases "mTimerJobQueue t = []")
  case True
  then show ?thesis by (simp add: DoTimerJob_def timer_loop.simps)
next
  case False
  define e where "e = queue_top (mTimerJobQueue t)"
  have e: "e \<in> set (mTimerJobQueue t)" "\<And>x. x \<in> set (mTimerJobQueue t) \<Longrightarrow> sint (mExecutionTick e) \<le> sint (mExecutionTick x)"
    using queue_top_le [of _ "mTimerJobQueue t"] False by (metis e_def last_in_set, metis e_def)
  then have "list_all (\<lambda>e. sint tick < sint (mExecutionTick e)) (mTimerJobQueue t) \<longleftrightarrow>
      sint tick < sint (mExecutionTick e)" by (fastforce simp: list_all_iff)
  moreover have "timer_loop (t\<lparr>LTickCount := tick\<rparr>) =
      (if sint tick < sint (mExecutionTick e) then Some (t\<lparr>LTickCount := tick\<rparr>) else None)"
    using timer_loop_never [of "t\<lparr>LTickCount := tick\<rparr>"] False
      timer_loop.simps [of "t\<lparr>LTickCount := tick\<rparr>"]
    by (cases "sint tick < sint (mExecutionTick e)") (simp_all add: e_def)
  ultimately show ?thesis by (simp add: DoTimerJob_def)
qed

text \<open>The first \<open>DoDispatch\<close> never returns, and every later one returns without keeping its task.\<close>

lemma DoDispatch_serves_nobody:
  "DoDispatch THREAD_IO_WORKER task GrandCentralExecutor_new = Inr None \<and>
   DoDispatch LThreadType task g =
     (if LThreadType \<noteq> THREAD_IO_WORKER then Inl CrashAssert
      else if sint (mRemainTaskCount g + 1) > 1
      then Inr (Some (g\<lparr>mRemainTaskCount := mRemainTaskCount g + 1\<rparr>)) else Inr None)"
  by (simp add: DoDispatch_def GrandCentralExecutor_new_def dispatch_loop_never Let_def)

end
