(* ===== verification/TypeTraits.thy ===== *)
theory TypeTraits
  imports Iocp_Prelude
begin

text \<open>
  The compile-time side of the executors: \<open>is_shared_ptr\<close> of \<open>TypeTraits.hpp\<close> and the checks that the
  templates of \<open>SyncExecutable.hpp\<close>, \<open>GrandCentralExecutor.hpp\<close> and \<open>MemoryPool.hpp\<close> make of their type
  arguments. A class is an entry of a table with its public base class, the types of its members,
  how its copy constructor is declared, and the parameters of its converting constructors. The
  classes of the program have at most one base and no conversion functions, and no assertion
  asks for a conversion between types that are not classes.
\<close>

datatype cpp_type = Arith string | Pointer cpp_type | SharedPtr cpp_type | ClassT string

datatype copy_ctor = ImplicitCopy | PublicCopy | ProtectedCopy | PrivateCopy

record class_decl =
  base :: "string option"
  members :: "cpp_type list"
  copying :: copy_ctor
  converts_from :: "cpp_type list"

type_synonym class_table = "string \<rightharpoonup> class_decl"

section \<open>The rules of the language\<close>

inductive derives :: "class_table \<Rightarrow> string \<Rightarrow> string \<Rightarrow> bool" for tab :: class_table where
  refl: "derives tab C C"
| up: "tab C = Some d \<Longrightarrow> base d = Some B \<Longrightarrow> derives tab B A \<Longrightarrow> derives tab C A"

text \<open>A class can be copied from outside when its copy constructor is public, or when it is implicit and not
  deleted: the members can be copied, and so can the base, whose constructor may also be protected.\<close>

inductive copyable :: "class_table \<Rightarrow> cpp_type \<Rightarrow> bool" for tab :: class_table where
  arith: "copyable tab (Arith t)"
| pointer: "copyable tab (Pointer t)"
| shared: "copyable tab (SharedPtr t)"
| public: "tab C = Some d \<Longrightarrow> copying d = PublicCopy \<Longrightarrow> copyable tab (ClassT C)"
| implicit: "tab C = Some d \<Longrightarrow> copying d = ImplicitCopy \<Longrightarrow> \<forall>t \<in> set (members d). copyable tab t \<Longrightarrow>
     \<forall>B. base d = Some B \<longrightarrow> copyable tab (ClassT B) \<or> (\<exists>e. tab B = Some e \<and> copying e = ProtectedCopy) \<Longrightarrow>
     copyable tab (ClassT C)"

inductive_cases copyable_classE: "copyable tab (ClassT C)"

fun pointer_convertible :: "class_table \<Rightarrow> cpp_type \<Rightarrow> cpp_type \<Rightarrow> bool" where
  "pointer_convertible tab (ClassT D) (ClassT B) \<longleftrightarrow> derives tab D B"
| "pointer_convertible tab s t \<longleftrightarrow> s = t"

fun standard_convertible :: "class_table \<Rightarrow> cpp_type \<Rightarrow> cpp_type \<Rightarrow> bool" where
  "standard_convertible tab (Arith s) (Arith t) \<longleftrightarrow> True"
| "standard_convertible tab (Pointer s) (Pointer t) \<longleftrightarrow> pointer_convertible tab s t"
| "standard_convertible tab s t \<longleftrightarrow> s = t"

text \<open>\<open>std::is_convertible_v<T, C>\<close> for a class \<open>C\<close>: a value of type \<open>T\<close> can be returned from a function that returns
  \<open>C\<close>. From a class derived from \<open>C\<close> (or \<open>C\<close> itself) this copies a \<open>C\<close>; otherwise a converting
  constructor of \<open>C\<close> has to take it.\<close>

inductive is_convertible :: "class_table \<Rightarrow> cpp_type \<Rightarrow> string \<Rightarrow> bool" for tab :: class_table where
  copy: "derives tab D C \<Longrightarrow> copyable tab (ClassT C) \<Longrightarrow> is_convertible tab (ClassT D) C"
| construct: "tab C = Some d \<Longrightarrow> t \<in> set (converts_from d) \<Longrightarrow> standard_convertible tab s t \<Longrightarrow> is_convertible tab s C"

inductive_simps is_convertible_iff: "is_convertible tab s C"

text \<open>\<open>std::shared_ptr<S>\<close> to \<open>std::shared_ptr<T>\<close>: implicitly, and by \<open>static_pointer_cast\<close>, which casts \<open>S *\<close> to \<open>T *\<close>.\<close>

definition shared_ptr_convertible :: "class_table \<Rightarrow> cpp_type \<Rightarrow> cpp_type \<Rightarrow> bool" where
  "shared_ptr_convertible tab s t \<longleftrightarrow> pointer_convertible tab s t"

definition static_pointer_cast :: "class_table \<Rightarrow> cpp_type \<Rightarrow> cpp_type \<Rightarrow> bool" where
  "static_pointer_cast tab t s \<longleftrightarrow> pointer_convertible tab s t \<or> pointer_convertible tab t s"

section \<open>The checks of the program\<close>

fun is_shared_ptr :: "cpp_type \<Rightarrow> bool" where
  "is_shared_ptr (SharedPtr t) \<longleftrightarrow> True"
| "is_shared_ptr t \<longleftrightarrow> False"

text \<open>When each template can be instantiated for a type argument. \<open>T *\<close> is returned by \<open>xnew\<close> as it is; the bodies of
  \<open>DoSync\<close>, \<open>DoSyncAfter\<close> and \<open>GCEDispatch\<close> are comments.\<close>

definition DoSync_ok :: "class_table \<Rightarrow> cpp_type \<Rightarrow> bool" where
  "DoSync_ok tab t \<longleftrightarrow> is_convertible tab t ''SyncExecutable''"

definition GetSharedFromThis_body_ok :: "class_table \<Rightarrow> cpp_type \<Rightarrow> bool" where
  "GetSharedFromThis_body_ok tab t \<longleftrightarrow>
     static_pointer_cast tab (SharedPtr t) (ClassT ''SyncExecutable'') \<and> shared_ptr_convertible tab (SharedPtr t) t"

definition GetSharedFromThis_ok :: "class_table \<Rightarrow> cpp_type \<Rightarrow> bool" where
  "GetSharedFromThis_ok tab t \<longleftrightarrow>
     is_convertible tab t ''SyncExecutable'' \<and> GetSharedFromThis_body_ok tab t"

definition DoSyncAfter_ok :: "class_table \<Rightarrow> cpp_type \<Rightarrow> bool" where
  "DoSyncAfter_ok tab t \<longleftrightarrow> is_shared_ptr t \<and> is_convertible tab t ''SyncExecutable''"

definition GCEDispatch_ok :: "cpp_type \<Rightarrow> bool" where
  "GCEDispatch_ok t \<longleftrightarrow> is_shared_ptr t"

definition xnew_ok :: "class_table \<Rightarrow> cpp_type \<Rightarrow> bool" where
  "xnew_ok tab t \<longleftrightarrow> is_convertible tab t ''PooledAllocatable''"

text \<open>The classes these checks meet.\<close>

definition FastSpinlock_decl :: class_decl where
  "FastSpinlock_decl = \<lparr>base = None, members = [Arith ''long'', Arith ''int''], copying = PrivateCopy,
     converts_from = [Arith ''int'']\<rparr>"

definition SyncExecutable_decl :: class_decl where
  "SyncExecutable_decl = \<lparr>base = Some ''enable_shared_from_this'', members = [ClassT ''FastSpinlock''],
     copying = ImplicitCopy, converts_from = []\<rparr>"

definition Player_decl :: class_decl where
  "Player_decl = \<lparr>base = Some ''SyncExecutable'',
     members = [Arith ''int'', Arith ''int'', Arith ''bool'', ClassT ''map'', Pointer (ClassT ''ClientSession'')],
     copying = ImplicitCopy, converts_from = [Pointer (ClassT ''ClientSession'')]\<rparr>"

definition PooledAllocatable_decl :: class_decl where
  "PooledAllocatable_decl = \<lparr>base = None, members = [], copying = ImplicitCopy, converts_from = []\<rparr>"

text \<open>The classes of the standard library among them.\<close>

definition std_classes :: class_table where
  "std_classes = [''enable_shared_from_this'' \<mapsto> \<lparr>base = None, members = [], copying = ProtectedCopy, converts_from = []\<rparr>,
     ''map'' \<mapsto> \<lparr>base = None, members = [], copying = PublicCopy, converts_from = []\<rparr>]"

definition program_classes :: class_table where
  "program_classes = std_classes(''FastSpinlock'' \<mapsto> FastSpinlock_decl, ''SyncExecutable'' \<mapsto> SyncExecutable_decl,
     ''Player'' \<mapsto> Player_decl, ''PooledAllocatable'' \<mapsto> PooledAllocatable_decl)"

section \<open>Lemmas\<close>

lemma spinlock_not_copyable: "tab ''FastSpinlock'' = Some FastSpinlock_decl \<Longrightarrow> \<not> copyable tab (ClassT ''FastSpinlock'')"
  by (auto simp: FastSpinlock_decl_def elim: copyable_classE)

text \<open>A class with a spin lock among its members loses its copy constructor.\<close>

lemma lock_holder_not_copyable:
  assumes "tab ''FastSpinlock'' = Some FastSpinlock_decl" and "tab C = Some d" and "copying d = ImplicitCopy"
    and "ClassT ''FastSpinlock'' \<in> set (members d)"
  shows "\<not> copyable tab (ClassT C)"
  using assms(2-4) spinlock_not_copyable [of tab, OF assms(1)] by (auto elim!: copyable_classE)

lemma not_convertible_to_sync:
  assumes "tab ''FastSpinlock'' = Some FastSpinlock_decl" and "tab ''SyncExecutable'' = Some SyncExecutable_decl"
  shows "\<not> is_convertible tab t ''SyncExecutable''"
  using lock_holder_not_copyable [of tab, OF assms] assms(2) by (auto simp: SyncExecutable_decl_def is_convertible_iff)

lemma pooled_copyable:
  "tab ''PooledAllocatable'' = Some PooledAllocatable_decl \<Longrightarrow> copyable tab (ClassT ''PooledAllocatable'')"
  by (rule copyable.implicit [of _ _ PooledAllocatable_decl]) (simp_all add: PooledAllocatable_decl_def)

lemma shared_ptr_never_pointee: "\<not> pointer_convertible tab (SharedPtr t) t"
  by (cases t) simp_all

lemma program_classes: "program_classes ''FastSpinlock'' = Some FastSpinlock_decl"
  "program_classes ''SyncExecutable'' = Some SyncExecutable_decl" "program_classes ''Player'' = Some Player_decl"
  "program_classes ''PooledAllocatable'' = Some PooledAllocatable_decl"
  by (simp_all add: program_classes_def)

section \<open>Properties of the checks\<close>

text \<open>C19: In every program with the spin lock and \<open>SyncExecutable\<close> as they are declared, the assertions of \<open>DoSync\<close>,
  \<open>GetSharedFromThis\<close> and \<open>DoSyncAfter\<close> fail for every type argument, derived from \<open>SyncExecutable\<close> or not:
  converting to the class would copy its lock, whose copy constructor is private. Without its
  assertion \<open>GetSharedFromThis\<close> would still be ill typed. \<open>xnew\<close>, which asks the same of an empty
  base class, accepts exactly the classes derived from it, and \<open>GCEDispatch\<close> exactly the shared pointers.\<close>

theorem sync_templates_cannot_be_instantiated:
  assumes "tab ''FastSpinlock'' = Some FastSpinlock_decl" and "tab ''SyncExecutable'' = Some SyncExecutable_decl"
    and "tab ''PooledAllocatable'' = Some PooledAllocatable_decl"
  shows "\<not> DoSync_ok tab t \<and> \<not> GetSharedFromThis_ok tab t \<and> \<not> GetSharedFromThis_body_ok tab t \<and> \<not> DoSyncAfter_ok tab t \<and>
    (xnew_ok tab t \<longleftrightarrow> (\<exists>C. t = ClassT C \<and> derives tab C ''PooledAllocatable'')) \<and>
    (GCEDispatch_ok t \<longleftrightarrow> (\<exists>s. t = SharedPtr s))"
proof (intro conjI)
  note sync = not_convertible_to_sync [of tab, OF assms(1,2)]
  show "\<not> DoSync_ok tab t" "\<not> GetSharedFromThis_ok tab t" "\<not> DoSyncAfter_ok tab t"
    using sync by (simp_all add: DoSync_ok_def GetSharedFromThis_ok_def DoSyncAfter_ok_def)
  show "\<not> GetSharedFromThis_body_ok tab t"
    by (simp add: GetSharedFromThis_body_ok_def shared_ptr_convertible_def shared_ptr_never_pointee)
  show "xnew_ok tab t \<longleftrightarrow> (\<exists>C. t = ClassT C \<and> derives tab C ''PooledAllocatable'')"
    using assms(3) pooled_copyable [of tab, OF assms(3)] by (auto simp: xnew_ok_def is_convertible_iff PooledAllocatable_decl_def)
  show "GCEDispatch_ok t \<longleftrightarrow> (\<exists>s. t = SharedPtr s)" by (cases t) (simp_all add: GCEDispatch_ok_def)
qed

theorem sync_templates_cannot_be_instantiated_witness:
  "\<not> GetSharedFromThis_ok program_classes (ClassT ''Player'') \<and> derives program_classes ''Player'' ''SyncExecutable'' \<and>
   xnew_ok program_classes (ClassT ''PooledAllocatable'')"
proof -
  have "derives program_classes ''Player'' ''SyncExecutable''"
    using derives.up [of program_classes, OF program_classes(3) _ derives.refl] by (simp add: Player_decl_def)
  then show ?thesis
    using sync_templates_cannot_be_instantiated [of program_classes, OF program_classes(1,2,4), of "ClassT ''Player''"]
      sync_templates_cannot_be_instantiated [of program_classes, OF program_classes(1,2,4), of "ClassT ''PooledAllocatable''"] derives.refl
    by blast
qed

end
