(* ===== verification/StudyPrograms.thy ===== *)
theory StudyPrograms
  imports MemoryPool SimpleIocpServer TypeTraits
begin

text \<open>
  The parts of the study programs that the servers do not repeat: \<open>main\<close> of \<open>211110_MemoryPool_test.cpp\<close>, which
  takes an object from the memory pool and gives it back, with the classes it declares, and the
  text of \<open>MyStructA\<close> in \<open>211110_ObjectPool_test.cpp\<close>. The pools themselves are those of the servers.
\<close>

section \<open>The memory pool program\<close>

text \<open>\<open>MemoryPool::Poollable\<close> is empty, so a \<open>TestObject1\<close> is its four-byte \<open>id\<close>.\<close>

definition Poollable_decl :: class_decl where
  "Poollable_decl = \<lparr>base = None, members = [], copying = ImplicitCopy, converts_from = []\<rparr>"

definition TestObject1_decl :: class_decl where
  "TestObject1_decl = \<lparr>base = Some ''Poollable'', members = [Arith ''uint32_t''], copying = ImplicitCopy,
     converts_from = [Arith ''uint32_t'']\<rparr>"

definition TestObject2_decl :: class_decl where
  "TestObject2_decl = \<lparr>base = None, members = [], copying = ImplicitCopy, converts_from = []\<rparr>"

definition study_classes :: class_table where
  "study_classes = [''Poollable'' \<mapsto> Poollable_decl, ''TestObject1'' \<mapsto> TestObject1_decl, ''TestObject2'' \<mapsto> TestObject2_decl]"

definition study_xnew_ok :: "class_table \<Rightarrow> cpp_type \<Rightarrow> bool" where
  "study_xnew_ok tab t \<longleftrightarrow> is_convertible tab t ''Poollable''"

definition sizeof_TestObject1 :: LONG where "sizeof_TestObject1 = 4"

text \<open>A failed \<open>__ASSERT\<close> writes through a null pointer, where \<open>CRASH_ASSERT\<close> of the servers stops the process.\<close>

definition study_ASSERT :: "bool \<Rightarrow> unit result" where
  "study_ASSERT isOk = (if isOk then Inr () else Inl NullDeref)"

lemma study_ASSERT_stops: "study_ASSERT ok = Inr u \<longleftrightarrow> CRASH_ASSERT ok = Inr u"
  by (cases ok) (simp_all add: study_ASSERT_def)

text \<open>The constructor run at \<open>&to1\<close> stores its \<open>id\<close> in the four bytes of the pointer variable, whatever the variable
  pointed to. The result is the exit code, the variable and the pool.\<close>

definition placed_over :: "nat \<Rightarrow> 32 word \<Rightarrow> nat" where
  "placed_over to1 new_id = unat new_id"

definition study_main :: "malloc_fn \<Rightarrow> (int \<times> nat \<times> MemoryPool) result" where
  "study_main malloc =
     bindR (MemoryPool_new Map.empty) (\<lambda>GMemoryPool.
     bindR (xnew malloc sizeof_TestObject1 GMemoryPool) (\<lambda>(to1, GMemoryPool).
     bindR (xdelete sizeof_TestObject1 to1 GMemoryPool) (\<lambda>GMemoryPool.
     let to1 = placed_over to1 0 in Inr (0, to1, GMemoryPool))))"

text \<open>The program's own types pass or fail the assertion as intended.\<close>

lemma study_assertions:
  "study_xnew_ok study_classes (ClassT ''TestObject1'')" "\<not> study_xnew_ok study_classes (ClassT ''TestObject2'')"
proof -
  have tab: "study_classes ''Poollable'' = Some Poollable_decl" "study_classes ''TestObject1'' = Some TestObject1_decl"
    "study_classes ''TestObject2'' = Some TestObject2_decl" by (simp_all add: study_classes_def)
  have "copyable study_classes (ClassT ''Poollable'')"
    by (rule copyable.implicit [of _ _ Poollable_decl]) (simp_all add: tab Poollable_decl_def)
  moreover have "derives study_classes ''TestObject1'' ''Poollable''"
    using derives.up [of study_classes, OF tab(2) _ derives.refl] by (simp add: TestObject1_decl_def)
  ultimately show "study_xnew_ok study_classes (ClassT ''TestObject1'')"
    by (simp add: study_xnew_ok_def is_convertible.copy)
  have "\<not> derives study_classes ''TestObject2'' ''Poollable''"
    using tab(3) by (auto simp: TestObject2_decl_def elim: derives.cases)
  then show "\<not> study_xnew_ok study_classes (ClassT ''TestObject2'')"
    using tab(1) by (simp add: study_xnew_ok_def is_convertible_iff Poollable_decl_def)
qed

text \<open>Given memory for one block, the program returns 0 and leaves no object in use; its pointer variable is overwritten.\<close>

lemma study_main_ok:
  assumes "malloc_ok malloc" and "malloc Map.empty 32 = Some (a, junk)"
  shows "\<exists>mp. study_main malloc = Inr (0, 0, mp) \<and> mp_inv mp \<and> live mp = {}"
proof -
  have r: "request 4 = 20" by (simp add: request_def sizeof_MemAllocInfo_def)
  have c: "class_index 20 = 0" "boundaries ! 0 = 32" by (simp_all add: class_index_def boundaries_eq)
  have "free_list fresh_mp 0 = []" "heap fresh_mp = Map.empty"
    by (simp_all add: free_list_def fresh_mp_def boundaries_facts(2) fresh_pool_def)
  then obtain mp1 where al: "Allocate malloc 4 fresh_mp = Inr (a + 16, mp1)"
    using Allocate_small [OF fresh_mp(2), of 4 0 malloc] assms(2) by (simp add: r c)
  note live1 = Allocate_live [OF fresh_mp(2) assms(1) al]
  then obtain mp2 where "Deallocate 4 (a + 16) mp1 = Inr mp2" "mp_inv mp2" "live mp2 = live mp1 - {a + 16}"
    using Deallocate_live [of mp1 "a + 16" 4] by auto
  then show ?thesis
    using live1 fresh_mp(1,3) al by (auto simp: study_main_def xnew_def xdelete_def sizeof_TestObject1_def placed_over_def)
qed

section \<open>Printing a structure\<close>

text \<open>\<open>std::to_string\<close> of an unsigned number: its decimal digits.\<close>

definition digit :: "nat \<Rightarrow> char" where
  "digit n = char_of (48 + n)"

fun decimal :: "nat \<Rightarrow> string" where
  "decimal n = (if n < 10 then [digit n] else decimal (n div 10) @ [digit (n mod 10)])"

declare decimal.simps [simp del]

definition MyStructA_to_string :: "MyStructA \<Rightarrow> string" where
  "MyStructA_to_string s = decimal (unat (msa_id s)) @ '': ('' @ decimal (unat (msa_x s)) @ '', '' @ decimal (unat (msa_y s)) @
     '', '' @ decimal (unat (msa_z s)) @ '') '' @ decimal (unat (msa_seq s))"

definition is_digit :: "char \<Rightarrow> bool" where
  "is_digit c \<longleftrightarrow> 48 \<le> (of_char c :: nat) \<and> (of_char c :: nat) \<le> 57"

lemma of_char_digit: "n < 10 \<Longrightarrow> of_char (digit n) = 48 + n"
  by (simp add: digit_def)

lemma is_digit_digit: "n < 10 \<Longrightarrow> is_digit (digit n)"
  by (simp add: is_digit_def of_char_digit)

lemma decimal_digits: "list_all is_digit (decimal n)"
proof (induction n rule: decimal.induct)
  case (1 n)
  then show ?case by (simp add: decimal.simps [of n] is_digit_digit)
qed

text \<open>Reading the digits back.\<close>

definition value_of :: "string \<Rightarrow> nat" where
  "value_of cs = foldl (\<lambda>v c. 10 * v + (of_char c - 48)) 0 cs"

lemma value_of_decimal: "value_of (decimal n) = n"
proof (induction n rule: decimal.induct)
  case (1 n)
  show ?case
  proof (cases "n < 10")
    case True
    then show ?thesis by (simp add: decimal.simps [of n] value_of_def of_char_digit)
  next
    case False
    then show ?thesis using 1 by (simp add: decimal.simps [of n] value_of_def of_char_digit)
  qed
qed

lemma decimal_prefix: "\<not> is_digit c \<Longrightarrow> takeWhile is_digit (decimal n @ c # xs) = decimal n"
  using decimal_digits [of n] by (simp add: takeWhile_append2 list_all_iff)

text \<open>Digits up to a separator determine the number and the rest.\<close>

lemma decimal_split:
  assumes "decimal m @ c # xs = decimal n @ c # ys" and "\<not> is_digit c"
  shows "m = n \<and> xs = ys"
proof -
  have "decimal m = decimal n" using decimal_prefix [OF assms(2)] assms(1) by metis
  then show ?thesis using assms(1) value_of_decimal by (metis append_same_eq same_append_eq list.inject)
qed

text \<open>Different structures print differently.\<close>

lemma to_string_injective:
  assumes "MyStructA_to_string s = MyStructA_to_string t"
  shows "s = t"
proof -
  have sep: "\<not> is_digit CHR '':''" "\<not> is_digit CHR '',''" "\<not> is_digit CHR '')''" by (simp_all add: is_digit_def)
  note eq = assms [unfolded MyStructA_to_string_def append_Cons append_Nil]
  have 1: "unat (msa_id s) = unat (msa_id t)"
    "decimal (unat (msa_x s)) @ CHR '','' # CHR '' '' # decimal (unat (msa_y s)) @ CHR '','' # CHR '' '' #
       decimal (unat (msa_z s)) @ CHR '')'' # CHR '' '' # decimal (unat (msa_seq s)) =
     decimal (unat (msa_x t)) @ CHR '','' # CHR '' '' # decimal (unat (msa_y t)) @ CHR '','' # CHR '' '' #
       decimal (unat (msa_z t)) @ CHR '')'' # CHR '' '' # decimal (unat (msa_seq t))"
    using decimal_split [OF eq sep(1)] by simp_all
  have 2: "unat (msa_x s) = unat (msa_x t)"
    "decimal (unat (msa_y s)) @ CHR '','' # CHR '' '' # decimal (unat (msa_z s)) @ CHR '')'' # CHR '' '' # decimal (unat (msa_seq s)) =
     decimal (unat (msa_y t)) @ CHR '','' # CHR '' '' # decimal (unat (msa_z t)) @ CHR '')'' # CHR '' '' # decimal (unat (msa_seq t))"
    using decimal_split [OF 1(2) sep(2)] by simp_all
  have 3: "unat (msa_y s) = unat (msa_y t)"
    "decimal (unat (msa_z s)) @ CHR '')'' # CHR '' '' # decimal (unat (msa_seq s)) =
     decimal (unat (msa_z t)) @ CHR '')'' # CHR '' '' # decimal (unat (msa_seq t))"
    using decimal_split [OF 2(2) sep(2)] by simp_all
  have 4: "unat (msa_z s) = unat (msa_z t)" "decimal (unat (msa_seq s)) = decimal (unat (msa_seq t))"
    using decimal_split [OF 3(2) sep(3)] by simp_all
  have "unat (msa_seq s) = unat (msa_seq t)" using 4(2) value_of_decimal by metis
  with 1(1) 2(1) 3(1) 4(1) show ?thesis by (cases s; cases t) (simp add: word_unat_eq_iff)
qed

end
