(* ===== verification/Spec2Isabelle.thy ===== *)
theory Spec2Isabelle
  imports CircularBuffer FastSpinLock LockOrderChecker MemoryPool MemoryPool_Threads XTL
    ObjectPool ObjectPool_Threads SimpleIocpServer IocpManager EchoServer MssqlServer Session_Threads
    RefCount_Threads Context_Pools
    Player Player_Threads Executor TypeTraits StudyPrograms
begin

text \<open>
  \<^bold>\<open>The program.\<close> \<open>src/\<close> holds two Windows echo servers built on I/O completion ports,
  \<open>win-iocp/win-iocp\<close> (the first server below) and \<open>win-iocp/win-iocp-mssql-usage\<close> (the second), and study
  programs from which their parts grew. A main thread (\<open>_tmain\<close> of \<open>EduEchoServer.cpp\<close>) prepares sessions,
  starts worker threads and accepts; a worker takes completions from the port and calls the
  completion handlers of the session that owns the completed context; a session keeps the bytes
  in a \<open>CircularBuffer\<close> and a reference for every context it has allocated. Below the sessions are a
  spin lock, a pool of memory blocks by size, a pool of objects, and the assertion \<open>CRASH_ASSERT\<close>;
  beside them are a registry of players with timed buffs, a timer and a task executor.

  \<^bold>\<open>Conventions.\<close> The project files build for Win32: \<open>size_t\<close>, \<open>int\<close>, \<open>long\<close> and \<open>DWORD\<close> are \<open>32 word\<close>, read by
  \<open>unat\<close> or \<open>sint\<close> as the C++ type is unsigned or signed, so arithmetic wraps where the compiled code
  wraps. A pointer into a buffer is an offset, a pointer to a heap block an address. Every
  operation that can fault returns \<open>'a result\<close>, whose left values are the faults \<open>CrashAssert\<close>,
  \<open>NullDeref\<close>, \<open>OutOfBounds\<close>, \<open>SelfDeadlock\<close> and \<open>BadAlloc\<close>; a theorem that an operation returns says
  that the result is a right value. A loop that may not end is a \<open>partial_function (option)\<close>: \<open>None\<close> is
  the call that never returns, and the theorems about such loops say for which states the value
  is \<open>None\<close> and for which it is not. The only counted execution is \<open>mp_alone\<close>, which runs a thread of the
  memory pool for a number of steps; five are enough for either operation, and that is part of
  what is proved. What the operating system answers
  (outcomes of socket calls, completions, numbers of processors, ticks, the values other threads
  leave in a volatile flag) is an argument, so theorems hold for every answer. Code that is
  called and is not in the sources is a parameter: \<open>_aligned_malloc\<close> (\<open>malloc\<close>, law \<open>malloc_ok\<close>), \<open>new uint8_t[]\<close>
  (\<open>new_array\<close>), \<open>SessionManager::CreateClientSession\<close> (\<open>on_zero\<close>), \<open>IncreaseConnectionCount\<close>, and
  \<open>GClientSessionManager\<close> (\<open>accepts\<close>).

  \<^bold>\<open>The theories.\<close>
  \<^item> \<open>Iocp_Prelude\<close>: machine types, faults and \<open>bindR\<close>, \<open>memcpy\<close>/\<open>memmove\<close>/\<open>memset\<close> on one block, array slots,
    lemmas on lists and words.
  \<^item> \<open>Byte_Queue\<close> (locale \<open>byte_queue\<close>), \<open>Mutex\<close> (\<open>exclusive_lock\<close>), \<open>Allocator\<close> (\<open>allocator\<close>), \<open>Session_Base\<close>
    (\<open>refcounted\<close>), \<open>Ordered_Map\<close> (\<open>finite_map_ops\<close>), \<open>Guarded_Threads\<close> (\<open>guarded_client\<close>): the interfaces between the components, each with the lemmas its
    clients share. They are interpreted on the code's own definitions: \<open>cbq\<close> in \<open>CircularBuffer\<close>, \<open>spin\<close>
    and \<open>class_lock\<close> in \<open>FastSpinLock\<close>, \<open>sync\<close> in \<open>Executor\<close>, \<open>mtx\<close> in \<open>Session_Base\<close>, \<open>mpool\<close> in \<open>MemoryPool\<close>, \<open>opool\<close> and \<open>chunk\<close> in \<open>ObjectPool\<close>, \<open>csr\<close> in \<open>ClientSession\<close>,
    \<open>ssr\<close> in \<open>MssqlSession\<close>, \<open>smap\<close> in \<open>Ordered_Map\<close>, \<open>send_side\<close> in \<open>Session_Threads\<close>, \<open>registry\<close> in \<open>Player_Threads\<close>.
    \<open>Session_Base\<close> also has the variables of a thread (\<open>ThreadLocal.hpp\<close>) and the loop without exit that both
    worker threads are (\<open>forever\<close>: it ends exactly with the fault of an iteration).
  \<^item> \<open>CircularBuffer\<close> (\<open>CircularBuffer.hpp\<close>): the two-region buffer. It behaves as a bounded FIFO queue of bytes under any
    sequence of sends, partial drains and removals; \<open>Remove\<close> drops exactly the front; the room it reports can be filled;
    filling does not disturb bytes an outstanding send reads; how much room it reports.
  \<^item> \<open>FastSpinLock\<close> (\<open>FastSpinLock.hpp\<close>): every method as atomic steps on the flag, any number of threads
    interleaved by the step relation \<open>lock_step\<close>. Mutual exclusion up to 2048 threads and its failure for every larger number;
    from every reachable state the lock can become free and then be taken by any thread; the shared mode never returns.
  \<^item> \<open>Guarded_Threads\<close>: any number of threads that run critical sections under a \<open>FastSpinlockGuard\<close>, every read
    of the flag, every interlocked addition and every statement of the section a step of its own. What
    the lock gives to a client is proved once: the interleaved calls are the finished calls made one after the
    other, plus the statements of the one thread inside.
  \<^item> \<open>LockOrderChecker\<close>, \<open>Exception\<close>: the stack of held locks refines a bounded list; the crash assertion
    and the exception filter.
  \<^item> \<open>MemoryPool\<close> (\<open>MemoryPool.hpp\<close>): headers, size classes, the table the constructor builds,
    \<open>Allocate\<close> and \<open>Deallocate\<close>. Blocks are private, large enough, reused and counted; what the pool does for
    every 32-bit size; what a second deallocation of a pooled and of a large block does.
  \<^item> \<open>MemoryPool_Threads\<close>: the same operations as single interlocked calls, library calls and header
    accesses, interleaved by \<open>mp_reachable\<close>. A thread alone computes \<open>Allocate\<close> and \<open>Deallocate\<close>; under any
    interleaving a block has one owner (a free list, a thread, or the caller).
  \<^item> \<open>XTL\<close> (\<open>XTL.hpp\<close>): the container allocator; up to which number of elements a block has room for them,
    and that elements constructed in it leave other blocks alone.
    The container aliases with the template parameters they fill: which of them use the pool.
  \<^item> \<open>ObjectPool\<close> (\<open>ObjectPool.hpp\<close>): the free list in a memory of pointers. Round trip within one chunk
    on any memory; what happens after the first chunk; and that on zeroed memory any number of objects can be had.
  \<^item> \<open>ObjectPool_Threads\<close>: the operators statement by statement under their mutexes, interleaved by
    \<open>op_reachable\<close>. With the one mutex of the servers the pool is linearisable; with the two mutexes of
    \<open>211110_ObjectPool_test.cpp\<close> an object is handed out twice.
  \<^item> \<open>SimpleIocpServer\<close> (\<open>SomeTest/SimpleIocpServer.hpp\<close>): its \<open>main\<close>, and the guard of \<open>ObjectPool.hpp\<close> that holds
    nothing.
  \<^item> \<open>ClientSession\<close>, \<open>SessionManager\<close>, \<open>IocpManager\<close> (the files of these names of the first server and
    \<open>EduEchoServer.cpp\<close>): all session methods, the free list of sessions, start-up, one worker iteration
    for every kind of completion and the worker's loop. A full exchange echoes the received stream in order; what it
    leaves behind; sessions are never released; the accept path and \<open>_tmain\<close> never end; a worker thread lives until its
    first idle period.
  \<^item> \<open>EchoServer\<close>: all clients of the first server with any order of completions (\<open>server_step\<close>). The channel
    of every client is FIFO and loses nothing; an exchange is started by \<open>PostRecv\<close> alone, which in the sources only \<open>OnConnect\<close> calls, and no
    completion renews it.
  \<^item> \<open>MssqlSession\<close>, \<open>MssqlServer\<close> (\<open>Session.hpp\<close>, \<open>OverlappedIOContext.hpp\<close>, \<open>WorkerThread.hpp\<close>,
    \<open>ServerSession.hpp\<close>, \<open>IocpManager.hpp\<close> of the second server): the reference counter is the number of allocated
    contexts plus the balance of the calls that touch no context, in every reachable state; an outstanding send is stable; how rejected and
    completed sends are treated; \<open>EchoBack\<close> moves bytes without loss; the array of workers is not overrun;
    what \<open>Finalize\<close> closes; when accepting ends; a worker thread ends only by a fault.
  \<^item> \<open>Session_Threads\<close>: \<open>PostSend\<close>, \<open>FlushSend\<close> and \<open>SendCompletion\<close> of the second server statement by statement under
    \<open>mSendBufferLock\<close>. Concurrent calls are serial, bytes with the kernel are stable even while another thread is copying,
    at most one send is in flight, and the methods of \<open>MssqlSession\<close> are these operations.
  \<^item> \<open>RefCount_Threads\<close>: \<open>AddRef\<close> and \<open>ReleaseRef\<close> of both session classes as an interlocked operation followed by tests of
    its result, interleaved by \<open>ref_step\<close>. The counter starts at 0; a session is released once for every time the counter
    rises from 0 and falls back, and an assertion fails exactly after a \<open>ReleaseRef\<close> without a reference.
  \<^item> \<open>Context_Pools\<close>: the contexts of all sessions of the second server in the object pools of their classes. The
    reference counters (with the balance of the calls that touch no context), the use counters of the pools and the objects in use
    agree, within the 100 objects of a chunk per class; when deleting a context succeeds and when another can be made.
  \<^item> \<open>Ordered_Map\<close>, \<open>Player\<close> (\<open>PlayerManager.hpp\<close>, \<open>Player.hpp\<close>, \<open>PlayerWideEvent.hpp\<close>): identifiers are fresh,
    buffs decay by the heartbeat, which operations hang. \<open>Player_Threads\<close>: concurrent registrations get distinct,
    consecutive identifiers.
  \<^item> \<open>Executor\<close> (\<open>Timer.hpp\<close>, \<open>GrandCentralExecutor.hpp\<close>, \<open>SyncExecutable.hpp\<close>): when the timer and the executor
    return; the lock of a synchronised object.
  \<^item> \<open>TypeTraits\<close> (\<open>TypeTraits.hpp\<close> and the assertions of the templates in \<open>SyncExecutable.hpp\<close>,
    \<open>GrandCentralExecutor.hpp\<close> and \<open>MemoryPool.hpp\<close>): for which type arguments the templates can be instantiated.
  \<^item> \<open>StudyPrograms\<close> (\<open>211110_MemoryPool_test.cpp\<close>, \<open>211110_ObjectPool_test.cpp\<close>): the \<open>main\<close> of the first leaves no
    object in use; the text of a structure of the second determines it.

  \<^bold>\<open>Atomicity.\<close> The spin lock and the memory pool are modelled at the grain of single interlocked
  operations, because their correctness depends on it, and so is the reference counter of a session; the object pool at the grain of its
  statements, to show that its mutex makes them one, and so are the send side of a session and the
  registry of players, for which the spin lock does it. In \<open>MssqlSession\<close> and \<open>Player\<close> the guarded parts are
  one step each, which these theories justify; in the first server the parts under a
  \<open>std::mutex\<close> are one step each. That a thread
  that already holds the mutex deadlocks is visible as \<open>SelfDeadlock\<close>. Sequences of operations and
  completions are explicit (\<open>cs_reachable\<close>, \<open>server_reachable\<close>, \<open>ss_reachable\<close>).

  \<^bold>\<open>Not modelled.\<close> Log output, the contents of minidumps, the kernel's side of the socket calls, byte
  contents of pool blocks and constructors of pooled objects, \<open>predef.hpp\<close> (include directives), and the destructors
  that only free. The study programs are
  stand-alone exercises on the Windows API; where they are earlier copies of a part above, the
  part is modelled from the server, and so are the files of the second server that are copies of the first
  server's. \<open>DoSync\<close>, \<open>DoSyncAfter\<close> and \<open>GCEDispatch\<close> have no statements after their assertions. Code that does not compile as
  written (\<open>pAvailable\<close> in \<open>ObjectPool.hpp\<close>, \<open>ptr\<close> and the pointer aliases in \<open>XTL.hpp\<close>, \<open>xmap\<close> in
  \<open>PlayerManager.hpp\<close>) is read as what its names say.
\<close>

end
